(* ===== verification/Prelude.thy ===== *)
theory Prelude
  imports Main "HOL-Library.Word"
begin

text \<open>
  Shared vocabulary of the development: bytes and machine words, the results of fallible
  Rust code (a value, an error, or a panic), polls of asynchronous operations, slices with
  their bounds checks, the big-endian codecs of the standard library, and labelled runs of
  a step relation with their invariants. Nothing here is specific to one component.
\<close>

unbundle bit_operations_syntax

type_synonym byte = "8 word"
type_synonym bytes = "byte list"
type_synonym u8 = "8 word"
type_synonym u16 = "16 word"
type_synonym u64 = "64 word"
type_synonym u128 = "128 word"

named_theorems outcome_simps "evaluation of sequenced fallible code"
named_theorems slice_simps "slices and copies that are within bounds"


section \<open>Results, panics and polls\<close>

text \<open>
  \<open>Result<T, E>\<close> together with the third way a Rust function can end: a panic (a failed
  assertion, an \<open>unwrap\<close> of an error, \<open>todo!()\<close>, an index out of range, an overflow).
\<close>

datatype ('e, 'a) outcome = Ok 'a | Err 'e | Panic string

datatype 'a poll = Ready 'a | Pending

text \<open>The \<open>?\<close> operator: go on with the value, return early with the error.\<close>

fun and_then :: "('e, 'a) outcome \<Rightarrow> ('a \<Rightarrow> ('e, 'b) outcome) \<Rightarrow> ('e, 'b) outcome" where
  "and_then (Ok a) f = f a"
| "and_then (Err e) f = Err e"
| "and_then (Panic m) f = Panic m"

fun of_result :: "'e + 'a \<Rightarrow> ('e, 'a) outcome" where
  "of_result (Inl e) = Err e"
| "of_result (Inr a) = Ok a"

fun unwrap :: "'e + 'a \<Rightarrow> ('f, 'a) outcome" where
  "unwrap (Inl e) = Panic ''called `Result::unwrap()` on an `Err` value''"
| "unwrap (Inr a) = Ok a"

fun map_err :: "('e \<Rightarrow> 'f) \<Rightarrow> ('e, 'a) outcome \<Rightarrow> ('f, 'a) outcome" where
  "map_err g (Ok a) = Ok a"
| "map_err g (Err e) = Err (g e)"
| "map_err g (Panic m) = Panic m"

fun is_panic :: "('e, 'a) outcome \<Rightarrow> bool" where
  "is_panic (Panic m) = True"
| "is_panic _ = False"

text \<open>\<open>r.await.unwrap()\<close> of a computation that may itself panic.\<close>

fun unwrap_outcome :: "('e, 'a) outcome \<Rightarrow> ('f, 'a) outcome" where
  "unwrap_outcome (Ok a) = Ok a"
| "unwrap_outcome (Err e) = Panic ''called `Result::unwrap()` on an `Err` value''"
| "unwrap_outcome (Panic m) = Panic m"

lemma and_then_Ok_iff [outcome_simps]:
  "and_then r f = Ok b \<longleftrightarrow> (\<exists>a. r = Ok a \<and> f a = Ok b)"
  by (cases r) auto

lemma and_then_Err_iff [outcome_simps]:
  "and_then r f = Err e \<longleftrightarrow> r = Err e \<or> (\<exists>a. r = Ok a \<and> f a = Err e)"
  by (cases r) auto

lemma not_panic_and_then [outcome_simps]:
  "\<not> is_panic (and_then r f) \<longleftrightarrow> \<not> is_panic r \<and> (\<forall>a. r = Ok a \<longrightarrow> \<not> is_panic (f a))"
  by (cases r) auto

lemma map_err_iff [outcome_simps]:
  "map_err g r = Ok a \<longleftrightarrow> r = Ok a" "map_err g r = Err e \<longleftrightarrow> (\<exists>e'. r = Err e' \<and> e = g e')"
  "is_panic (map_err g r) = is_panic r"
  by (cases r; auto)+

lemma unwrap_outcome_iff [outcome_simps]:
  "unwrap_outcome r = Ok a \<longleftrightarrow> r = Ok a" "unwrap_outcome r \<noteq> Err e"
  "is_panic (unwrap_outcome r) \<longleftrightarrow> (\<forall>a. r \<noteq> Ok a)"
  by (cases r; auto)+

lemma not_panic_of_result [simp]: "\<not> is_panic (of_result r)"
  by (cases r) auto

text \<open>
  The kinds of \<open>std::io::Error\<close>: those the code names, and the other kinds of the standard
  library, which the code only passes on.
\<close>

datatype io_error_kind =
    NotFound | PermissionDenied | ConnectionRefused | ConnectionReset | HostUnreachable
  | NetworkUnreachable | ConnectionAborted | NotConnected | AddrInUse | AddrNotAvailable
  | NetworkDown | BrokenPipe | AlreadyExists | WouldBlock | InvalidInput | InvalidData
  | TimedOut | WriteZero | Interrupted | Unsupported | UnexpectedEof | OutOfMemory
  | OtherKind


section \<open>Slices\<close>

text \<open>\<open>&xs[i..j]\<close>, \<open>dst[i..j].copy_from_slice(src)\<close> and \<open>a - b\<close> on \<open>usize\<close> (both cargo
  profiles set \<open>overflow-checks = true\<close>), each with the panic the language prescribes.\<close>

definition slice :: "'a list \<Rightarrow> nat \<Rightarrow> nat \<Rightarrow> ('e, 'a list) outcome" where
  "slice xs i j =
     (if i \<le> j \<and> j \<le> length xs then Ok (take (j - i) (drop i xs))
      else Panic ''slice index out of range'')"

definition copy_from_slice ::
  "'a list \<Rightarrow> nat \<Rightarrow> nat \<Rightarrow> 'a list \<Rightarrow> ('e, 'a list) outcome" where
  "copy_from_slice dst i j src =
     (if \<not> (i \<le> j \<and> j \<le> length dst) then Panic ''slice index out of range''
      else if length src \<noteq> j - i then Panic ''source slice length does not match''
      else Ok (take i dst @ src @ drop j dst))"

definition usize_sub :: "nat \<Rightarrow> nat \<Rightarrow> ('e, nat) outcome" where
  "usize_sub a b = (if b \<le> a then Ok (a - b) else Panic ''attempt to subtract with overflow'')"

lemma take_drop_append [simp]: "take n xs @ drop n xs @ ys = xs @ ys"
  by (metis append_assoc append_take_drop_id)

lemma slice_in [slice_simps]:
  "i \<le> j \<Longrightarrow> j \<le> length xs \<Longrightarrow> slice xs i j = Ok (take (j - i) (drop i xs))"
  by (simp add: slice_def)

lemma copy_from_slice_in [slice_simps]:
  "i \<le> j \<Longrightarrow> j \<le> length dst \<Longrightarrow> length src = j - i \<Longrightarrow>
   copy_from_slice dst i j src = Ok (take i dst @ src @ drop j dst)"
  by (simp add: copy_from_slice_def)

lemma usize_sub_in [slice_simps]: "b \<le> a \<Longrightarrow> usize_sub a b = Ok (a - b)"
  by (simp add: usize_sub_def)


section \<open>Big-endian bytes\<close>

text \<open>
  \<open>to_be_bytes\<close> and \<open>from_be_bytes\<close> of an unsigned integer type: the most significant
  byte comes first. The number of bytes is written out, since \<open>[u8; N]\<close> is a list here.
\<close>

primrec to_be_bytes :: "nat \<Rightarrow> 'w::len word \<Rightarrow> bytes" where
  "to_be_bytes 0 w = []"
| "to_be_bytes (Suc n) w = ucast (drop_bit (8 * n) w) # to_be_bytes n w"

primrec be_value :: "bytes \<Rightarrow> nat" where
  "be_value [] = 0"
| "be_value (b # bs) = unat b * 256 ^ length bs + be_value bs"

definition from_be_bytes :: "bytes \<Rightarrow> 'w::len word" where
  "from_be_bytes bs = of_nat (be_value bs)"

lemma length_to_be_bytes [simp]: "length (to_be_bytes n w) = n"
  by (induction n) simp_all

lemma be_value_less: "be_value bs < 256 ^ length bs"
proof (induction bs)
  case Nil
  then show ?case by simp
next
  case (Cons b bs)
  have "unat b < 2 ^ LENGTH(8)" by (rule unsigned_less)
  then have "unat b < 256" by simp
  then have *: "Suc (unat b) \<le> 256" by simp
  have "be_value (b # bs) < Suc (unat b) * 256 ^ length bs"
    using Cons by simp
  also have "\<dots> \<le> 256 * 256 ^ length bs"
    by (rule mult_le_mono1 [OF *])
  finally show ?case by simp
qed

lemma unat_be_byte:
  fixes w :: "'a::len word"
  shows "unat (ucast (drop_bit (8 * n) w) :: byte) = (unat w div 256 ^ n) mod 256"
proof -
  have "unat (ucast (drop_bit (8 * n) w) :: byte) = take_bit 8 (drop_bit (8 * n) (unat w))"
    by (simp add: unsigned_ucast_eq unat_drop_bit_eq)
  then show ?thesis
    by (simp add: drop_bit_eq_div take_bit_eq_mod power_mult)
qed

lemma be_value_to_be_bytes: "be_value (to_be_bytes n w) = unat w mod 256 ^ n"
proof (induction n)
  case 0
  then show ?case by simp
next
  case (Suc n)
  then show ?case
    using mod_mult2_eq[of "unat w" "256 ^ n" 256]
    by (simp add: unat_be_byte del: mult_Suc_right) (simp add: mult.commute)
qed

text \<open>
  A codec of fixed width: the interface between a word and the bytes of a header, used by
  the length prefix of a frame (\<open>u16\<close>) and by the session hash of a client (\<open>u64\<close>).
\<close>

locale fixed_codec =
  fixes enc :: "'v \<Rightarrow> bytes" and dec :: "bytes \<Rightarrow> 'v" and width :: nat
  assumes width_enc: "length (enc v) = width"
    and dec_enc: "dec (enc v) = v"
    and enc_dec: "length bs = width \<Longrightarrow> enc (dec bs) = bs"
begin

lemma enc_inj: "enc v = enc v' \<longleftrightarrow> v = v'"
  by (metis dec_enc)

lemma dec_take_prefix: "dec (take width (enc v @ rest)) = v"
  by (simp add: width_enc dec_enc)

lemma prefix_unique: "enc v @ r = enc v' @ r' \<longleftrightarrow> v = v' \<and> r = r'"
  by (auto simp: width_enc enc_inj append_eq_append_conv)

lemma dec_inj_on_width:
  "length a = width \<Longrightarrow> length b = width \<Longrightarrow> dec a = dec b \<Longrightarrow> a = b"
  by (metis enc_dec)

end

lemma from_be_to_be:
  assumes "2 ^ LENGTH('w::len) = (256::nat) ^ n"
  shows "from_be_bytes (to_be_bytes n (w :: 'w word)) = w"
proof -
  have "unat w < 2 ^ LENGTH('w)" by (rule unsigned_less)
  then have "unat w < 256 ^ n" using assms by simp
  then show ?thesis
    by (simp add: from_be_bytes_def be_value_to_be_bytes)
qed

lemma to_be_bytes_value:
  "be_value bs mod 256 ^ length bs = unat w mod 256 ^ length bs \<Longrightarrow>
   to_be_bytes (length bs) w = bs"
proof (induction bs)
  case Nil
  then show ?case by simp
next
  case (Cons b bs)
  let ?m = "256 ^ length bs :: nat"
  have val: "be_value (b # bs) = unat w mod (256 * ?m)"
    using Cons.prems be_value_less[of "b # bs"] by simp
  have split: "unat w mod (256 * ?m) = ?m * (unat w div ?m mod 256) + unat w mod ?m"
    using mod_mult2_eq[of "unat w" ?m 256] by (simp add: mult.commute)
  have "unat b = (unat w div ?m) mod 256"
    using arg_cong[OF val, of "\<lambda>x. x div ?m"] be_value_less[of bs]
    by (simp only: split) simp
  then have "ucast (drop_bit (8 * length bs) w) = b"
    by (metis unat_be_byte word_unat_eq_iff)
  moreover have "be_value bs mod ?m = unat w mod ?m"
    using arg_cong[OF val, of "\<lambda>x. x mod ?m"]
    by (simp only: split) simp
  ultimately show ?case
    using Cons.IH by simp
qed

lemma to_be_from_be:
  assumes "2 ^ LENGTH('w::len) = (256::nat) ^ length bs"
  shows "to_be_bytes (length bs) (from_be_bytes bs :: 'w word) = bs"
  by (rule to_be_bytes_value)
    (use be_value_less[of bs] assms in \<open>simp add: from_be_bytes_def unat_of_nat\<close>)

interpretation be16: fixed_codec "to_be_bytes 2 :: u16 \<Rightarrow> bytes" from_be_bytes 2
proof unfold_locales
  fix w :: u16 and bs :: bytes
  show "length (to_be_bytes 2 w) = 2" by simp
  show "from_be_bytes (to_be_bytes 2 w) = w" by (rule from_be_to_be) simp
  show "to_be_bytes 2 (from_be_bytes bs :: u16) = bs" if "length bs = 2"
    using to_be_from_be[of bs, where 'w = 16] that by simp
qed

interpretation be64: fixed_codec "to_be_bytes 8 :: u64 \<Rightarrow> bytes" from_be_bytes 8
proof unfold_locales
  fix w :: u64 and bs :: bytes
  show "length (to_be_bytes 8 w) = 8" by simp
  show "from_be_bytes (to_be_bytes 8 w) = w" by (rule from_be_to_be) simp
  show "to_be_bytes 8 (from_be_bytes bs :: u64) = bs" if "length bs = 8"
    using to_be_from_be[of bs, where 'w = 64] that by simp
qed


section \<open>Labelled runs and their invariants\<close>

text \<open>
  A component with concurrent parts is a step relation whose labels are what an observer
  sees. A run collects the labels in order, so that a statement about what has happened so
  far is a statement about a list, and no history has to be kept in the state.
\<close>

inductive run :: "('s \<Rightarrow> 'l \<Rightarrow> 's \<Rightarrow> bool) \<Rightarrow> 's \<Rightarrow> 'l list \<Rightarrow> 's \<Rightarrow> bool"
  for step :: "'s \<Rightarrow> 'l \<Rightarrow> 's \<Rightarrow> bool" where
  run_start: "run step s [] s"
| run_step: "run step s ls s' \<Longrightarrow> step s' l s'' \<Longrightarrow> run step s (ls @ [l]) s''"

inductive_cases run_NilE: "run step s [] t"

lemma run_cons:
  assumes "step s l s'" and "run step s' ls s''"
  shows "run step s (l # ls) s''"
  using assms(2,1)
proof (induction rule: run.induct)
  case (run_start t)
  with run.run_step [OF run.run_start, of step s l t] show ?case by simp
next
  case (run_step t ls t' l' t'')
  with run.run_step [of step s "l # ls" t' l' t''] show ?case by simp
qed

lemma run_trans: "run step s ls s' \<Longrightarrow> run step s' ms s'' \<Longrightarrow> run step s (ls @ ms) s''"
  by (rotate_tac, induction rule: run.induct) (auto simp flip: append_assoc intro: run.run_step)

lemma run_split: "run step s (ls @ ms) s'' \<Longrightarrow> \<exists>s'. run step s ls s' \<and> run step s' ms s''"
proof (induction ms arbitrary: s'' rule: rev_induct)
  case Nil
  then show ?case by (metis append_Nil2 run.run_start)
next
  case (snoc m ms)
  from snoc.prems obtain t where "run step s (ls @ ms) t" "step t m s''"
    by (cases rule: run.cases) auto
  with snoc.IH show ?case by (meson run.run_step)
qed

locale history_invariant =
  fixes step :: "'s \<Rightarrow> 'l \<Rightarrow> 's \<Rightarrow> bool"
    and start :: "'s \<Rightarrow> bool"
    and inv :: "'l list \<Rightarrow> 's \<Rightarrow> bool"
  assumes inv_start: "start s \<Longrightarrow> inv [] s"
    and inv_step: "inv ls s \<Longrightarrow> step s l s' \<Longrightarrow> inv (ls @ [l]) s'"
begin

lemma inv_run: "run step s ls s' \<Longrightarrow> start s \<Longrightarrow> inv ls s'"
  by (induction rule: run.induct) (auto intro: inv_start inv_step)

end

end
