(* ===== verification/Channel.thy ===== *)
theory Channel
  imports Prelude
begin

text \<open>
  The interface of the asynchronous channels the program is built on (\<open>smol::channel\<close>).
  The channel itself is a dependency: its operations are the fields of \<open>chan_api\<close>, an
  argument of every definition that uses a channel, and its documented behaviour is the
  locale \<open>smol_channel\<close>: seen through a view, a channel is a bounded or unbounded first-in
  first-out queue that can be closed. The queue itself satisfies the contract, which makes
  it an instance at which the properties can be applied.
\<close>


section \<open>The operations the program calls\<close>

datatype 'a try_send_error = Full 'a | SendClosed 'a

datatype try_recv_error = Empty | RecvClosed

text \<open>
  The awaiting forms are given by what polling them yields: \<open>Pending\<close> while they wait,
  otherwise an error or the new state of the channel. \<open>hang_up\<close> is the drop of the last
  sender or of the last receiver, which closes the channel.
\<close>

record ('c, 'a) chan_api =
  chan_bounded :: "nat \<Rightarrow> 'c"
  chan_unbounded :: "'c"
  try_send :: "'c \<Rightarrow> 'a \<Rightarrow> 'a try_send_error + 'c"
  try_recv :: "'c \<Rightarrow> try_recv_error + 'a \<times> 'c"
  send_await :: "'c \<Rightarrow> 'a \<Rightarrow> ('a + 'c) poll"
  recv_await :: "'c \<Rightarrow> (unit + 'a \<times> 'c) poll"
  hang_up :: "'c \<Rightarrow> 'c"


section \<open>The documented behaviour\<close>

record 'a fifo =
  queue :: "'a list"
  capacity :: "nat option"
  hung_up :: bool

definition fifo_full :: "'a fifo \<Rightarrow> bool" where
  "fifo_full f = (case capacity f of None \<Rightarrow> False | Some n \<Rightarrow> n \<le> length (queue f))"

definition fifo_push :: "'a fifo \<Rightarrow> 'a \<Rightarrow> 'a fifo" where
  "fifo_push f x = f\<lparr>queue := queue f @ [x]\<rparr>"

definition fifo_try_send :: "'a fifo \<Rightarrow> 'a \<Rightarrow> 'a try_send_error + 'a fifo" where
  "fifo_try_send f x =
     (if hung_up f then Inl (SendClosed x)
      else if fifo_full f then Inl (Full x)
      else Inr (fifo_push f x))"

definition fifo_try_recv :: "'a fifo \<Rightarrow> try_recv_error + 'a \<times> 'a fifo" where
  "fifo_try_recv f =
     (case queue f of
        [] \<Rightarrow> Inl (if hung_up f then RecvClosed else Empty)
      | x # xs \<Rightarrow> Inr (x, f\<lparr>queue := xs\<rparr>))"

definition fifo_send_await :: "'a fifo \<Rightarrow> 'a \<Rightarrow> ('a + 'a fifo) poll" where
  "fifo_send_await f x =
     (case fifo_try_send f x of
        Inl (Full y) \<Rightarrow> Pending
      | Inl (SendClosed y) \<Rightarrow> Ready (Inl y)
      | Inr f' \<Rightarrow> Ready (Inr f'))"

definition fifo_recv_await :: "'a fifo \<Rightarrow> (unit + 'a \<times> 'a fifo) poll" where
  "fifo_recv_await f =
     (case fifo_try_recv f of
        Inl Empty \<Rightarrow> Pending
      | Inl RecvClosed \<Rightarrow> Ready (Inl ())
      | Inr r \<Rightarrow> Ready (Inr r))"

definition fifo_hang_up :: "'a fifo \<Rightarrow> 'a fifo" where
  "fifo_hang_up f = f\<lparr>hung_up := True\<rparr>"

definition bounded :: "nat \<Rightarrow> 'a fifo" where
  "bounded n = \<lparr>queue = [], capacity = Some n, hung_up = False\<rparr>"

definition unbounded :: "'a fifo" where
  "unbounded = \<lparr>queue = [], capacity = None, hung_up = False\<rparr>"

definition fifo_api :: "('a fifo, 'a) chan_api" where
  "fifo_api =
     \<lparr>chan_bounded = bounded, chan_unbounded = unbounded,
      try_send = fifo_try_send, try_recv = fifo_try_recv, send_await = fifo_send_await,
      recv_await = fifo_recv_await, hang_up = fifo_hang_up\<rparr>"

lemmas fifo_defs =
  fifo_full_def fifo_push_def fifo_try_send_def fifo_try_recv_def fifo_send_await_def
  fifo_recv_await_def fifo_hang_up_def

text \<open>
  \<open>map_poll\<close> and \<open>map_sum\<close> carry the view through a result, so that each law is the
  square of a simulation: operate then view, or view then do what the queue does.
\<close>

locale smol_channel =
  fixes api :: "('c, 'a) chan_api" and view :: "'c \<Rightarrow> 'a fifo"
  assumes view_bounded: "view (chan_bounded api n) = bounded n"
    and view_unbounded: "view (chan_unbounded api) = unbounded"
    and view_try_send:
      "map_sum id view (try_send api c x) = fifo_try_send (view c) x"
    and view_try_recv:
      "map_sum id (map_prod id view) (try_recv api c) = fifo_try_recv (view c)"
    and view_send_await:
      "map_poll (map_sum id view) (send_await api c x) = fifo_send_await (view c) x"
    and view_recv_await:
      "map_poll (map_sum id (map_prod id view)) (recv_await api c) = fifo_recv_await (view c)"
    and view_hang_up: "view (hang_up api c) = fifo_hang_up (view c)"
begin

lemma try_send_Inr:
  assumes "try_send api c x = Inr c'"
  shows "view c' = fifo_push (view c) x" and "\<not> hung_up (view c)" and "\<not> fifo_full (view c)"
  using view_try_send[of c x] assms by (auto simp: fifo_try_send_def split: if_splits)

lemma try_send_Inl:
  assumes "try_send api c x = Inl e"
  shows "hung_up (view c) \<or> fifo_full (view c)"
  using view_try_send[of c x] assms by (auto simp: fifo_try_send_def split: if_splits)

lemma try_send_open:
  assumes "\<not> hung_up (view c)" and "\<not> fifo_full (view c)"
  obtains c' where "try_send api c x = Inr c'" and "view c' = fifo_push (view c) x"
  using view_try_send[of c x] assms
  by (cases "try_send api c x") (auto simp: fifo_try_send_def)

lemma try_send_Inl_iff:
  "(\<exists>e. try_send api c x = Inl e) \<longleftrightarrow> hung_up (view c) \<or> fifo_full (view c)"
  using view_try_send[of c x]
  by (cases "try_send api c x") (auto simp: fifo_try_send_def split: if_splits)

lemma try_recv_Inr:
  assumes "try_recv api c = Inr (x, c')"
  shows "queue (view c) = x # queue (view c')" and "view c' = (view c)\<lparr>queue := queue (view c')\<rparr>"
  using view_try_recv[of c] assms by (auto simp: fifo_try_recv_def split: list.splits)

lemma try_recv_Inl:
  assumes "try_recv api c = Inl e"
  shows "queue (view c) = []" and "e = (if hung_up (view c) then RecvClosed else Empty)"
  using view_try_recv[of c] assms by (auto simp: fifo_try_recv_def split: list.splits if_splits)

lemma try_recv_Cons:
  assumes "queue (view c) = x # xs"
  obtains c' where "try_recv api c = Inr (x, c')" and "view c' = (view c)\<lparr>queue := xs\<rparr>"
  using view_try_recv[of c] assms
  by (cases "try_recv api c") (auto simp: fifo_try_recv_def)

lemma try_recv_empty:
  assumes "queue (view c) = []"
  obtains e where "try_recv api c = Inl e"
  using view_try_recv[of c] assms by (cases "try_recv api c") (auto simp: fifo_try_recv_def)

lemma send_await_Inr:
  assumes "send_await api c x = Ready (Inr c')"
  shows "view c' = fifo_push (view c) x" and "\<not> hung_up (view c)" and "\<not> fifo_full (view c)"
  using view_send_await[of c x] assms
  by (auto simp: fifo_send_await_def fifo_try_send_def split: if_splits)

lemma send_await_Inl:
  assumes "send_await api c x = Ready (Inl y)"
  shows "hung_up (view c)"
  using view_send_await[of c x] assms
  by (auto simp: fifo_send_await_def fifo_try_send_def split: if_splits)

lemma recv_await_Inr:
  assumes "recv_await api c = Ready (Inr (x, c'))"
  shows "queue (view c) = x # queue (view c')" and "view c' = (view c)\<lparr>queue := queue (view c')\<rparr>"
  using view_recv_await[of c] assms
  by (auto simp: fifo_recv_await_def fifo_try_recv_def split: list.splits if_splits)

lemma recv_await_Inl:
  assumes "recv_await api c = Ready (Inl u)"
  shows "hung_up (view c)" and "queue (view c) = []"
  using view_recv_await[of c] assms
  by (auto simp: fifo_recv_await_def fifo_try_recv_def split: list.splits if_splits)

lemma recv_await_Cons:
  assumes "queue (view c) = x # xs"
  obtains c' where "recv_await api c = Ready (Inr (x, c'))" and "view c' = (view c)\<lparr>queue := xs\<rparr>"
proof (cases "recv_await api c")
  case (Ready r)
  with view_recv_await[of c] assms that show thesis
    by (cases r) (auto simp: fifo_recv_await_def fifo_try_recv_def)
next
  case Pending
  with view_recv_await[of c] assms show thesis
    by (simp add: fifo_recv_await_def fifo_try_recv_def)
qed

lemma recv_await_Nil:
  assumes "queue (view c) = []"
  shows "recv_await api c = (if hung_up (view c) then Ready (Inl ()) else Pending)"
proof (cases "recv_await api c")
  case (Ready r)
  with view_recv_await[of c] assms show ?thesis
    by (cases r) (auto simp: fifo_recv_await_def fifo_try_recv_def split: if_splits)
next
  case Pending
  with view_recv_await[of c] assms show ?thesis
    by (auto simp: fifo_recv_await_def fifo_try_recv_def split: if_splits)
qed

lemma send_await_closed:
  assumes "hung_up (view c)"
  shows "send_await api c x = Ready (Inl x)"
proof (cases "send_await api c x")
  case (Ready r)
  with view_send_await[of c x] assms show ?thesis
    by (cases r) (auto simp: fifo_send_await_def fifo_try_send_def)
next
  case Pending
  with view_send_await[of c x] assms show ?thesis
    by (simp add: fifo_send_await_def fifo_try_send_def)
qed

lemma send_await_open:
  assumes "\<not> hung_up (view c)" and "\<not> fifo_full (view c)"
  obtains c' where "send_await api c x = Ready (Inr c')" and "view c' = fifo_push (view c) x"
proof (cases "send_await api c x")
  case (Ready r)
  with view_send_await[of c x] assms that show thesis
    by (cases r) (auto simp: fifo_send_await_def fifo_try_send_def)
next
  case Pending
  with view_send_await[of c x] assms show thesis
    by (simp add: fifo_send_await_def fifo_try_send_def)
qed

lemma hung_up_kept:
  "try_send api c x = Inr c1 \<Longrightarrow> hung_up (view c1) = hung_up (view c)"
  "try_recv api c = Inr (y, c2) \<Longrightarrow> hung_up (view c2) = hung_up (view c)"
  "send_await api c x = Ready (Inr c3) \<Longrightarrow> hung_up (view c3) = hung_up (view c)"
  "recv_await api c = Ready (Inr (y, c4)) \<Longrightarrow> hung_up (view c4) = hung_up (view c)"
  by (auto dest!: try_send_Inr(1) try_recv_Inr(2) send_await_Inr(1) recv_await_Inr(2)
      simp: fifo_push_def) (metis fifo.select_convs(3) fifo.surjective fifo.update_convs(1))+

end

interpretation fifo: smol_channel fifo_api id
  by unfold_locales
    (simp_all add: fifo_api_def sum.map_id0 prod.map_id0 poll.map_id0)

end
