(* ===== verification/Pipe.thy ===== *)
theory Pipe
  imports Channel
begin

text \<open>
  \<open>ObfsWsPipe\<close> of \<open>src/pipe.rs\<close>: the operations of a pipe handle. What the handles and
  the background task of one pipe share (the two channels and the \<open>closed\<close> flag, all behind
  an \<open>Arc\<close>) is the record \<open>wires\<close>; what each handle owns (\<open>recv_buf\<close>, \<open>peer_url\<close>) is the
  record \<open>pipe_handle\<close>. \<open>poll_read\<close> carries the bounds checks of its slices, so that
  "it never panics" is a theorem. Log output is not modelled.
\<close>


section \<open>State\<close>

record 'c wires =
  inner_send :: 'c
  inner_recv :: 'c
  closed :: bool

record pipe_handle =
  recv_buf :: bytes
  peer_url :: string

definition new_pipe ::
  "('c, bytes) chan_api \<Rightarrow> string \<Rightarrow> string \<Rightarrow> 'c wires \<times> pipe_handle" where
  "new_pipe api url metadata =
     (\<lparr>inner_send = chan_bounded api 100000, inner_recv = chan_bounded api 100000,
       closed = False\<rparr>,
      \<lparr>recv_buf = [], peer_url = url @ ''#'' @ metadata\<rparr>)"

text \<open>\<open>#[derive(Clone)]\<close>: the channel ends and the flag are shared, the fields the handle owns
  are copied.\<close>

definition clone_pipe :: "pipe_handle \<Rightarrow> pipe_handle" where
  "clone_pipe h = \<lparr>recv_buf = recv_buf h, peer_url = peer_url h\<rparr>"

definition is_closed :: "'c wires \<Rightarrow> bool" where
  "is_closed w = closed w"

definition protocol :: "string" where
  "protocol = ''sosistab3-obfsws''"

definition remote_addr :: "'c wires \<Rightarrow> pipe_handle \<Rightarrow> string option" where
  "remote_addr w h = (if is_closed w then None else Some (peer_url h))"


section \<open>Writing\<close>

definition poll_write ::
  "('c, bytes) chan_api \<Rightarrow> 'c wires \<Rightarrow> bytes \<Rightarrow> (io_error_kind + nat) poll \<times> 'c wires" where
  "poll_write api w msg =
     (if closed w then (Ready (Inl BrokenPipe), w)
      else
        let msg_len = length msg;
            w' = (case try_send api (inner_send w) msg of
                    Inr c \<Rightarrow> w\<lparr>inner_send := c\<rparr>
                  | Inl e \<Rightarrow> w)
        in (Ready (Inr msg_len), w'))"

definition poll_flush :: "'c wires \<Rightarrow> (io_error_kind + unit) poll" where
  "poll_flush w = Ready (if closed w then Inl BrokenPipe else Inr ())"

definition poll_close :: "'c wires \<Rightarrow> (io_error_kind + unit) poll \<times> 'c wires" where
  "poll_close w = (Ready (Inr ()), w\<lparr>closed := True\<rparr>)"


section \<open>Reading\<close>

text \<open>
  The first block of \<open>poll_read\<close> serves the bytes kept from an earlier message: \<open>Inl\<close> is
  its early return with a full buffer, \<open>Inr\<close> goes on with the position reached.
\<close>

definition take_leftover ::
  "pipe_handle \<Rightarrow> bytes \<Rightarrow>
   (io_error_kind, bytes \<times> pipe_handle + bytes \<times> pipe_handle \<times> nat) outcome" where
  "take_leftover h buf =
     (let buf_len = length buf; buf_pos = 0; recv_buf_len = length (recv_buf h) in
      if 0 < recv_buf_len then
        and_then (usize_sub buf_len buf_pos) (\<lambda>buf_remaining.
          if buf_remaining < recv_buf_len then
            and_then (slice (recv_buf h) 0 buf_len) (\<lambda>front.
            and_then (copy_from_slice buf 0 buf_len front) (\<lambda>buf'.
            and_then (slice (recv_buf h) buf_len recv_buf_len) (\<lambda>rest.
              Ok (Inl (buf', h\<lparr>recv_buf := rest\<rparr>)))))
          else
            and_then (copy_from_slice buf 0 recv_buf_len (recv_buf h)) (\<lambda>buf'.
              Ok (Inr (buf', h\<lparr>recv_buf := []\<rparr>, buf_pos + recv_buf_len))))
      else Ok (Inr (buf, h, buf_pos)))"

text \<open>The last block copies the next message and keeps what does not fit.\<close>

definition place_message ::
  "pipe_handle \<Rightarrow> bytes \<Rightarrow> nat \<Rightarrow> bytes \<Rightarrow>
   (io_error_kind, bytes \<times> pipe_handle \<times> nat) outcome" where
  "place_message h buf buf_pos buf2 =
     (let buf_len = length buf; buf2_len = length buf2 in
      and_then (usize_sub buf_len buf_pos) (\<lambda>buf_remaining.
        if buf_remaining < buf2_len then
          and_then (slice buf2 0 buf_remaining) (\<lambda>front.
          and_then (copy_from_slice buf buf_pos buf_len front) (\<lambda>buf'.
          and_then (slice buf2 buf_remaining buf2_len) (\<lambda>rest.
            Ok (buf', h\<lparr>recv_buf := recv_buf h @ rest\<rparr>, buf_pos + buf_remaining))))
        else
          and_then (copy_from_slice buf buf_pos (buf_pos + buf2_len) buf2) (\<lambda>buf'.
            Ok (buf', h, buf_pos + buf2_len))))"

definition poll_read ::
  "('c, bytes) chan_api \<Rightarrow> 'c wires \<Rightarrow> pipe_handle \<Rightarrow> bytes \<Rightarrow>
   (io_error_kind, nat poll \<times> bytes \<times> 'c wires \<times> pipe_handle) outcome" where
  "poll_read api w h buf =
     and_then (take_leftover h buf) (\<lambda>r.
       case r of
         Inl (buf', h') \<Rightarrow> Ok (Ready (length buf), buf', w, h')
       | Inr (buf', h', buf_pos) \<Rightarrow>
           (case try_recv api (inner_recv w) of
              Inl e \<Rightarrow> Ok (Pending, buf', w, h')
            | Inr (buf2, c) \<Rightarrow>
                and_then (place_message h' buf' buf_pos buf2) (\<lambda>(buf'', h'', n).
                  Ok (Ready n, buf'', w\<lparr>inner_recv := c\<rparr>, h''))))"

text \<open>What the caller of a poll gets: the first \<open>n\<close> bytes of its buffer, or nothing.\<close>

fun received :: "nat poll \<Rightarrow> bytes \<Rightarrow> bytes" where
  "received (Ready n) buf = take n buf"
| "received Pending buf = []"

text \<open>Every branch of \<open>poll_read\<close> in closed form; the slices are always within bounds.\<close>

lemma take_leftover_eq:
  "take_leftover h buf =
     Ok (if length buf < length (recv_buf h)
         then Inl (take (length buf) (recv_buf h),
                   h\<lparr>recv_buf := drop (length buf) (recv_buf h)\<rparr>)
         else Inr (recv_buf h @ drop (length (recv_buf h)) buf,
                   h\<lparr>recv_buf := []\<rparr>, length (recv_buf h)))"
  by (cases "recv_buf h = []")
    (auto simp: take_leftover_def Let_def slice_simps)

lemma place_message_eq:
  assumes "buf_pos \<le> length buf"
  shows "place_message h buf buf_pos m =
     Ok (take (length buf) (take buf_pos buf @ m) @ drop (buf_pos + length m) buf,
         h\<lparr>recv_buf := recv_buf h @ drop (length buf - buf_pos) m\<rparr>,
         min (length buf) (buf_pos + length m))"
  using assms by (auto simp: place_message_def Let_def slice_simps min_def)

lemma poll_read_leftover:
  "length buf < length (recv_buf h) \<Longrightarrow>
   poll_read api w h buf =
     Ok (Ready (length buf), take (length buf) (recv_buf h), w,
         h\<lparr>recv_buf := drop (length buf) (recv_buf h)\<rparr>)"
  by (simp add: poll_read_def take_leftover_eq)

lemma poll_read_pending:
  "length (recv_buf h) \<le> length buf \<Longrightarrow> try_recv api (inner_recv w) = Inl e \<Longrightarrow>
   poll_read api w h buf =
     Ok (Pending, recv_buf h @ drop (length (recv_buf h)) buf, w, h\<lparr>recv_buf := []\<rparr>)"
  by (simp add: poll_read_def take_leftover_eq)

lemma poll_read_message:
  assumes "length (recv_buf h) \<le> length buf" and "try_recv api (inner_recv w) = Inr (m, c)"
  shows "poll_read api w h buf =
     Ok (Ready (min (length buf) (length (recv_buf h @ m))),
         take (length buf) (recv_buf h @ m) @ drop (length (recv_buf h @ m)) buf,
         w\<lparr>inner_recv := c\<rparr>,
         h\<lparr>recv_buf := drop (length buf) (recv_buf h @ m)\<rparr>)"
  using assms by (simp add: poll_read_def take_leftover_eq place_message_eq add.commute)

lemmas poll_read_cases = poll_read_leftover poll_read_pending poll_read_message


section \<open>What a caller can rely on\<close>

text \<open>The bytes that have arrived and that a handle has not handed out.\<close>

definition undelivered :: "('c \<Rightarrow> bytes fifo) \<Rightarrow> 'c wires \<Rightarrow> pipe_handle \<Rightarrow> bytes" where
  "undelivered view w h = recv_buf h @ concat (queue (view (inner_recv w)))"

text \<open>A caller that reads into one buffer after another, and what it has collected.\<close>

fun read_seq ::
  "('c, bytes) chan_api \<Rightarrow> 'c wires \<Rightarrow> pipe_handle \<Rightarrow> bytes list \<Rightarrow>
   (io_error_kind, bytes \<times> 'c wires \<times> pipe_handle) outcome" where
  "read_seq api w h [] = Ok ([], w, h)"
| "read_seq api w h (buf # bufs) =
     and_then (poll_read api w h buf) (\<lambda>(p, buf', w', h').
     and_then (read_seq api w' h' bufs) (\<lambda>(d, w'', h'').
       Ok (received p buf' @ d, w'', h'')))"

text \<open>How many bytes a run of reads of size \<open>n\<close> can get out of \<open>len\<close> bytes that nothing
  follows: whole buffers, as long as something is left behind each of them.\<close>

definition whole_reads :: "nat \<Rightarrow> nat \<Rightarrow> nat \<Rightarrow> nat" where
  "whole_reads n len k = n * min k ((len - 1) div n)"

lemma whole_reads_short [simp]: "len \<le> n \<Longrightarrow> 0 < n \<Longrightarrow> whole_reads n len k = 0"
  by (simp add: whole_reads_def)

lemma whole_reads_Suc:
  assumes "n < len" and "0 < n"
  shows "whole_reads n len (Suc k) = n + whole_reads n (len - n) k"
proof -
  have "(len - 1) div n = Suc ((len - n - 1) div n)"
    using assms le_div_geq[of n "len - 1"] by (simp add: diff_commute)
  then show ?thesis by (simp add: whole_reads_def)
qed

lemma whole_reads_less:
  assumes "0 < n" and "0 < len"
  shows "whole_reads n len k < len"
proof -
  have "whole_reads n len k \<le> n * ((len - 1) div n)" by (simp add: whole_reads_def)
  also have "\<dots> \<le> len - 1" by (rule times_div_less_eq_dividend)
  finally show ?thesis using assms by linarith
qed

locale pipe_channel = smol_channel api view
  for api :: "('c, bytes) chan_api" and view :: "'c \<Rightarrow> bytes fifo"
begin

lemma read_ready_conserves:
  assumes "poll_read api w h buf = Ok (Ready n, buf', w', h')"
  shows "undelivered view w h = take n buf' @ undelivered view w' h'"
proof (cases "length buf < length (recv_buf h)")
  case True
  with assms show ?thesis by (auto simp: poll_read_leftover undelivered_def)
next
  case False
  then obtain m c where m: "try_recv api (inner_recv w) = Inr (m, c)"
    using assms by (cases "try_recv api (inner_recv w)") (auto simp: poll_read_pending)
  with False assms try_recv_Inr(1)[OF m] show ?thesis
    by (cases "length buf \<le> length (recv_buf h) + length m")
      (auto simp: poll_read_message undelivered_def)
qed

lemma read_pending_loses:
  assumes "length (recv_buf h) \<le> length buf" and "queue (view (inner_recv w)) = []"
  shows "poll_read api w h buf =
     Ok (Pending, recv_buf h @ drop (length (recv_buf h)) buf, w, h\<lparr>recv_buf := []\<rparr>)"
proof -
  obtain e where "try_recv api (inner_recv w) = Inl e"
    by (rule try_recv_empty [OF assms(2)])
  with assms(1) show ?thesis by (simp add: poll_read_pending)
qed

lemma read_seq_nothing_follows:
  assumes "queue (view (inner_recv w)) = []" and "0 < n" and "\<forall>b \<in> set bufs. length b = n"
  shows "\<exists>h'. read_seq api w h bufs =
     Ok (take (whole_reads n (length (recv_buf h)) (length bufs)) (recv_buf h), w, h')"
  using assms(3)
proof (induction bufs arbitrary: h)
  case Nil
  then show ?case by (simp add: whole_reads_def)
next
  case (Cons b bufs)
  note IH = Cons.IH [where h = "h\<lparr>recv_buf := drop n (recv_buf h)\<rparr>"]
    Cons.IH [where h = "h\<lparr>recv_buf := []\<rparr>"]
  show ?case
  proof (cases "n < length (recv_buf h)")
    case True
    with Cons.prems IH(1) \<open>0 < n\<close> show ?thesis
      by (auto simp: poll_read_leftover whole_reads_Suc take_add)
  next
    case False
    with Cons.prems IH(2) assms(1) \<open>0 < n\<close> show ?thesis
      by (auto simp: read_pending_loses)
  qed
qed

lemma read_seq_long_message:
  assumes "queue (view (inner_recv w)) = [m]" and "recv_buf h = []"
    and "0 < n" and "n < length m" and "\<forall>b \<in> set bufs. length b = n"
  shows "\<exists>w' h'. read_seq api w h bufs = Ok (take (whole_reads n (length m) (length bufs)) m, w', h')"
proof (cases bufs)
  case Nil
  then show ?thesis by (simp add: whole_reads_def)
next
  case (Cons b bs)
  obtain c where c: "try_recv api (inner_recv w) = Inr (m, c)" and "queue (view c) = []"
    using try_recv_Cons[OF assms(1)] by (metis fifo.select_convs(1) fifo.surjective fifo.update_convs(1))
  then have "queue (view (inner_recv (w\<lparr>inner_recv := c\<rparr>))) = []" by simp
  from read_seq_nothing_follows[OF this \<open>0 < n\<close>, of bs "h\<lparr>recv_buf := drop n m\<rparr>"]
  show ?thesis using assms Cons c
    by (auto simp: poll_read_message whole_reads_Suc take_add)
qed

lemma read_seq_fitting:
  assumes "recv_buf h = []" and "\<forall>m \<in> set (queue (view (inner_recv w))). length m \<le> n"
    and "\<forall>b \<in> set bufs. length b = n" and "length bufs = length (queue (view (inner_recv w)))"
  shows "\<exists>w' h'. read_seq api w h bufs = Ok (concat (queue (view (inner_recv w))), w', h') \<and>
     recv_buf h' = [] \<and> queue (view (inner_recv w')) = []"
  using assms
proof (induction bufs arbitrary: w h)
  case Nil
  then show ?case by simp
next
  case (Cons b bufs)
  then obtain m ms where q: "queue (view (inner_recv w)) = m # ms"
    by (cases "queue (view (inner_recv w))") auto
  obtain c where c: "try_recv api (inner_recv w) = Inr (m, c)" and v: "queue (view c) = ms"
    using try_recv_Cons[OF q] by (metis fifo.select_convs(1) fifo.surjective fifo.update_convs(1))
  from Cons.IH[of "h\<lparr>recv_buf := []\<rparr>" "w\<lparr>inner_recv := c\<rparr>"] Cons.prems q c v
  show ?case by (auto simp: poll_read_message)
qed

lemma write_outcome:
  assumes "poll_write api w msg = (r, w')"
  shows "closed w' = closed w \<and> inner_recv w' = inner_recv w \<and>
     (if closed w then r = Ready (Inl BrokenPipe) \<and> w' = w
      else r = Ready (Inr (length msg)) \<and>
        (if hung_up (view (inner_send w)) \<or> fifo_full (view (inner_send w)) then w' = w
         else view (inner_send w') = fifo_push (view (inner_send w)) msg))"
proof (cases "try_send api (inner_send w) msg")
  case (Inl e)
  with assms try_send_Inl[OF Inl] show ?thesis by (auto simp: poll_write_def)
next
  case (Inr c)
  with assms try_send_Inr[OF Inr] show ?thesis by (auto simp: poll_write_def)
qed

end

interpretation fifo_pipe: pipe_channel fifo_api id
  by unfold_locales

text \<open>
  \<open>poll_read\<close> never panics, whatever the buffer, the kept bytes and the next
  message are: every slice it takes is within bounds. It never reports more bytes than the
  buffer holds, it leaves the rest of the buffer alone, and when it is pending nothing is
  kept.
\<close>

theorem poll_read_total:
  "\<exists>p buf' w' h'. poll_read api w h buf = Ok (p, buf', w', h') \<and> length buf' = length buf \<and>
     (case p of Ready n \<Rightarrow> n \<le> length buf \<and> drop n buf' = drop n buf
      | Pending \<Rightarrow> recv_buf h' = [])"
proof (cases "length buf < length (recv_buf h)")
  case True
  then show ?thesis by (simp add: poll_read_leftover)
next
  case False
  then show ?thesis
    by (cases "try_recv api (inner_recv w)") (auto simp: poll_read_cases min_def)
qed

text \<open>
  Property C3. A read that is ready loses, duplicates and reorders nothing: the bytes it
  puts into the buffer, followed by what is still undelivered, are what was undelivered
  before it.
\<close>

theorem poll_read_conserves:
  assumes "pipe_channel api view" and "poll_read api w h buf = Ok (Ready n, buf', w', h')"
  shows "undelivered view w h = take n buf' @ undelivered view w' h'"
  by (rule pipe_channel.read_ready_conserves [OF assms])

text \<open>A pipe on the queue itself, for the witnesses.\<close>

definition demo_wires :: "bytes list \<Rightarrow> bytes fifo wires" where
  "demo_wires ms =
     \<lparr>inner_send = bounded 2, inner_recv = (bounded 4)\<lparr>queue := ms\<rparr>, closed = False\<rparr>"

definition demo_handle :: "bytes \<Rightarrow> pipe_handle" where
  "demo_handle kept = \<lparr>recv_buf = kept, peer_url = ''ws://a/#k''\<rparr>"

lemmas demo_defs = demo_wires_def demo_handle_def bounded_def fifo_api_def fifo_defs

theorem poll_read_conserves_witness:
  "undelivered id (demo_wires [[3, 4, 5]]) (demo_handle [1, 2]) =
     [1, 2, 3] @ undelivered id (demo_wires []) (demo_handle [4, 5])"
proof -
  have "poll_read fifo_api (demo_wires [[3, 4, 5]]) (demo_handle [1, 2]) [0, 0, 0] =
      Ok (Ready 3, [1, 2, 3], demo_wires [], demo_handle [4, 5])"
    by (simp add: poll_read_message demo_defs)
  from poll_read_conserves [OF fifo_pipe.pipe_channel_axioms this] show ?thesis by simp
qed

text \<open>
  Bytes are lost when a poll finds kept bytes that fit into the buffer and no
  further message: they are copied, \<open>recv_buf\<close> is cleared, and the poll answers \<open>Pending\<close>,
  so the caller sees none of them and the pipe has forgotten them.
\<close>

theorem poll_read_drops_leftover:
  assumes "pipe_channel api view"
    and "queue (view (inner_recv w)) = []" and "length (recv_buf h) \<le> length buf"
  shows "\<exists>buf' h'. poll_read api w h buf = Ok (Pending, buf', w, h') \<and>
     received Pending buf' @ undelivered view w h' = [] \<and> undelivered view w h = recv_buf h"
  using pipe_channel.read_pending_loses [OF assms(1,3,2)] assms(2)
  by (auto simp: undelivered_def)

theorem poll_read_drops_leftover_witness:
  "\<exists>buf' h'. poll_read fifo_api (demo_wires []) (demo_handle [7, 8]) [0, 0] =
       Ok (Pending, buf', demo_wires [], h') \<and>
     received Pending buf' @ undelivered id (demo_wires []) h' = [] \<and>
     undelivered id (demo_wires []) (demo_handle [7, 8]) = recv_buf (demo_handle [7, 8])"
  by (rule poll_read_drops_leftover [OF fifo_pipe.pipe_channel_axioms])
    (simp_all add: demo_defs)

text \<open>
  Property C10. A message that is longer than the read buffer and that no other message
  follows is never delivered whole, however often the caller reads: reads of \<open>n\<close> bytes get
  the largest multiple of \<open>n\<close> below its length, and the rest is dropped.
\<close>

theorem long_message_truncated:
  assumes "pipe_channel api view"
    and "queue (view (inner_recv w)) = [m]" and "recv_buf h = []"
    and "0 < n" and "n < length m" and "\<forall>b \<in> set bufs. length b = n"
  shows "\<exists>d w' h'. read_seq api w h bufs = Ok (d, w', h') \<and>
     d = take (n * min (length bufs) ((length m - 1) div n)) m \<and> length d < length m"
proof -
  obtain w' h' where
    "read_seq api w h bufs = Ok (take (whole_reads n (length m) (length bufs)) m, w', h')"
    using pipe_channel.read_seq_long_message [OF assms] by blast
  moreover have "whole_reads n (length m) (length bufs) < length m"
    by (rule whole_reads_less) (use assms(4,5) in auto)
  ultimately show ?thesis
    by (auto simp: whole_reads_def min_less_iff_disj)
qed

theorem long_message_truncated_witness:
  "\<exists>d w' h'. read_seq fifo_api (demo_wires [[1, 2, 3, 4]]) (demo_handle []) [[0, 0], [0, 0], [0, 0]]
       = Ok (d, w', h') \<and> d = [1, 2] \<and> length d < 4"
  using long_message_truncated [OF fifo_pipe.pipe_channel_axioms,
      where w = "demo_wires [[1, 2, 3, 4]]" and m = "[1, 2, 3, 4]" and h = "demo_handle []"
        and n = 2 and bufs = "[[0, 0], [0, 0], [0, 0]]"]
  by (simp add: demo_defs)

text \<open>
  Messages that fit into the read buffer are delivered exactly: one read per
  message returns the concatenation of the queued messages and leaves nothing behind.
\<close>

theorem fitting_messages_delivered:
  assumes "pipe_channel api view"
    and "recv_buf h = []" and "\<forall>m \<in> set (queue (view (inner_recv w))). length m \<le> n"
    and "\<forall>b \<in> set bufs. length b = n" and "length bufs = length (queue (view (inner_recv w)))"
  shows "\<exists>d w' h'. read_seq api w h bufs = Ok (d, w', h') \<and>
     d = concat (queue (view (inner_recv w))) \<and> undelivered view w' h' = []"
  using pipe_channel.read_seq_fitting [OF assms] by (fastforce simp: undelivered_def)

theorem fitting_messages_delivered_witness:
  "\<exists>d w' h'. read_seq fifo_api (demo_wires [[1, 2], [3]]) (demo_handle []) [[0, 0, 0], [0, 0, 0]]
       = Ok (d, w', h') \<and> d = concat (queue (id (inner_recv (demo_wires [[1, 2], [3]])))) \<and>
     undelivered id w' h' = []"
  by (rule fitting_messages_delivered [OF fifo_pipe.pipe_channel_axioms, where n = 3])
    (simp_all add: demo_defs)

text \<open>
  Property C7. Every branch of \<open>poll_write\<close>: a closed pipe refuses with \<open>BrokenPipe\<close> and
  changes nothing; an open one reports that all bytes were written, and the message is
  appended to the send channel exactly when the channel has room. When the channel is full
  or its task has gone the message is dropped, and the result does not show it.
\<close>

theorem poll_write_outcome:
  assumes "pipe_channel api view" and "poll_write api w msg = (r, w')"
  shows "closed w' = closed w \<and> inner_recv w' = inner_recv w \<and>
     (if closed w then r = Ready (Inl BrokenPipe) \<and> w' = w
      else r = Ready (Inr (length msg)) \<and>
        (if hung_up (view (inner_send w)) \<or> fifo_full (view (inner_send w)) then w' = w
         else view (inner_send w') = fifo_push (view (inner_send w)) msg))"
  by (rule pipe_channel.write_outcome [OF assms])

text \<open>At the witness the send channel holds two messages and room for two: the write of a
  third reports three bytes and stores none.\<close>

theorem poll_write_outcome_witness:
  "\<exists>w r w'. poll_write fifo_api w [1, 2, 3] = (r, w') \<and> r = Ready (Inr 3) \<and> w' = w"
proof -
  let ?w = "(demo_wires [])\<lparr>inner_send := (bounded 2)\<lparr>queue := [[9], [8]]\<rparr>\<rparr>"
  obtain r w' where e: "poll_write fifo_api ?w [1, 2, 3] = (r, w')" by fastforce
  from poll_write_outcome [OF fifo_pipe.pipe_channel_axioms e] have "r = Ready (Inr 3) \<and> w' = ?w"
    by (simp add: demo_defs)
  with e show ?thesis by blast
qed

end
