(* ===== verification/PipeTask.thy ===== *)
theory PipeTask
  imports Pipe "HOL-Library.Sublist"
begin

text \<open>
  The background task of a pipe (\<open>send_loop\<close> and \<open>recv_loop\<close> of \<open>src/pipe.rs\<close>, raced in
  \<open>ObfsWsPipe::new\<close>) and the pipe as a whole: the task, the shared wires and the handles.
  Each loop is a program counter and a step function whose environment (what the websocket
  answers) is an argument; the whole is a labelled step relation, one rule per operation
  and per environment event, in any interleaving.
\<close>


section \<open>The two loops\<close>

text \<open>The messages a websocket stream can yield (\<open>tungstenite::Message\<close>).\<close>

datatype ws_message =
    Text string | Binary bytes | Ping bytes | Pong bytes | CloseMsg | RawFrame bytes

text \<open>\<open>inner_reader.next()\<close>: the end of the stream, an error, or a message.\<close>

datatype ws_item = EndOfStream | StreamError | Item ws_message

datatype loop_error = BrokenPipeErr | ChannelClosed

text \<open>Where each loop stands: at its \<open>while\<close> test, at one of its awaits, or returned.\<close>

datatype send_pc = SendCheck | SendRecv | SendWs bytes | SendDone loop_error

datatype recv_pc = RecvCheck | RecvNext | RecvPush bytes | RecvDone loop_error

text \<open>One step of \<open>send_loop\<close>; \<open>sink\<close> is the answer of \<open>inner_writer.send(msg).await\<close>.
  \<open>None\<close> means that the await is pending.\<close>

fun send_loop_step ::
  "('c, bytes) chan_api \<Rightarrow> bool \<Rightarrow> 'c wires \<Rightarrow> send_pc \<Rightarrow> ('c wires \<times> send_pc) option" where
  "send_loop_step api sink w SendCheck =
     Some (w, if closed w then SendDone BrokenPipeErr else SendRecv)"
| "send_loop_step api sink w SendRecv =
     (case recv_await api (inner_send w) of
        Pending \<Rightarrow> None
      | Ready (Inl e) \<Rightarrow> Some (w, SendDone ChannelClosed)
      | Ready (Inr (msg, c)) \<Rightarrow> Some (w\<lparr>inner_send := c\<rparr>, SendWs msg))"
| "send_loop_step api sink w (SendWs msg) =
     (if sink then Some (w, SendCheck)
      else Some (w\<lparr>closed := True\<rparr>, SendDone BrokenPipeErr))"
| "send_loop_step api sink w (SendDone e) = None"

text \<open>The preview that \<open>recv_loop\<close> logs slices the message at 256 bytes.\<close>

definition trace_preview :: "bytes \<Rightarrow> (loop_error, bytes) outcome" where
  "trace_preview msg = (if length msg < 256 then Ok msg else slice msg 0 256)"

lemma trace_preview_in_bounds: "trace_preview msg = Ok (take 256 msg)"
  by (simp add: trace_preview_def slice_simps)

fun recv_loop_step ::
  "('c, bytes) chan_api \<Rightarrow> ws_item \<Rightarrow> 'c wires \<Rightarrow> recv_pc \<Rightarrow> ('c wires \<times> recv_pc) option" where
  "recv_loop_step api item w RecvCheck =
     Some (w, if closed w then RecvDone BrokenPipeErr else RecvNext)"
| "recv_loop_step api item w RecvNext =
     (case item of
        Item (Binary msg) \<Rightarrow>
          (if is_panic (trace_preview msg) then None else Some (w, RecvPush msg))
      | Item m \<Rightarrow> Some (w, RecvCheck)
      | StreamError \<Rightarrow> Some (w, RecvCheck)
      | EndOfStream \<Rightarrow> Some (w\<lparr>closed := True\<rparr>, RecvDone BrokenPipeErr))"
| "recv_loop_step api item w (RecvPush msg) =
     (case send_await api (inner_recv w) msg of
        Pending \<Rightarrow> None
      | Ready (Inl e) \<Rightarrow> Some (w, RecvDone ChannelClosed)
      | Ready (Inr c) \<Rightarrow> Some (w\<lparr>inner_recv := c\<rparr>, RecvCheck))"
| "recv_loop_step api item w (RecvDone e) = None"


section \<open>The pipe as a whole\<close>

record 'c pipe_sys =
  wires :: "'c wires"
  handles :: "pipe_handle list"
  spc :: send_pc
  rpc :: recv_pc
  task_gone :: bool

definition send_over :: "send_pc \<Rightarrow> bool" where
  "send_over pc = (case pc of SendDone e \<Rightarrow> True | _ \<Rightarrow> False)"

definition recv_over :: "recv_pc \<Rightarrow> bool" where
  "recv_over pc = (case pc of RecvDone e \<Rightarrow> True | _ \<Rightarrow> False)"

text \<open>\<open>smol::future::race\<close> polls its two futures until one of them has returned.\<close>

definition race_over :: "'c pipe_sys \<Rightarrow> bool" where
  "race_over s = (send_over (spc s) \<or> recv_over (rpc s))"

definition hang_up_both :: "('c, bytes) chan_api \<Rightarrow> 'c wires \<Rightarrow> 'c wires" where
  "hang_up_both api w =
     w\<lparr>inner_send := hang_up api (inner_send w), inner_recv := hang_up api (inner_recv w)\<rparr>"

definition start_pipe :: "('c, bytes) chan_api \<Rightarrow> string \<Rightarrow> string \<Rightarrow> 'c pipe_sys" where
  "start_pipe api url metadata =
     (let (w, h) = new_pipe api url metadata in
      \<lparr>wires = w, handles = [h], spc = SendCheck, rpc = RecvCheck, task_gone = False\<rparr>)"

text \<open>
  What an observer sees. A write carries whether the channel took the message; a read
  carries the bytes the caller got and the bytes the poll dropped.
\<close>

datatype event =
    EvWrite bytes bool "(io_error_kind + nat) poll"
  | EvRead bytes bytes
  | EvFlush "(io_error_kind + unit) poll"
  | EvClose
  | EvClone
  | EvDrop
  | EvSink bytes bool
  | EvItem ws_item
  | EvInternal

definition write_taken :: "('c, bytes) chan_api \<Rightarrow> 'c wires \<Rightarrow> bytes \<Rightarrow> bool" where
  "write_taken api w msg =
     (\<not> closed w \<and> (case try_send api (inner_send w) msg of Inl e \<Rightarrow> False | Inr c \<Rightarrow> True))"

definition read_loss :: "nat poll \<Rightarrow> pipe_handle \<Rightarrow> bytes" where
  "read_loss p h = (case p of Pending \<Rightarrow> recv_buf h | Ready n \<Rightarrow> [])"

inductive pipe_step ::
  "('c, bytes) chan_api \<Rightarrow> 'c pipe_sys \<Rightarrow> event \<Rightarrow> 'c pipe_sys \<Rightarrow> bool"
  for api :: "('c, bytes) chan_api" where
  step_write:
    "handles s \<noteq> [] \<Longrightarrow> poll_write api (wires s) msg = (r, w) \<Longrightarrow>
     pipe_step api s (EvWrite msg (write_taken api (wires s) msg) r) (s\<lparr>wires := w\<rparr>)"
| step_read:
    "i < length (handles s) \<Longrightarrow>
     poll_read api (wires s) (handles s ! i) buf = Ok (p, buf', w, h) \<Longrightarrow>
     pipe_step api s (EvRead (received p buf') (read_loss p (handles s ! i)))
       (s\<lparr>wires := w, handles := (handles s)[i := h]\<rparr>)"
| step_flush:
    "handles s \<noteq> [] \<Longrightarrow> pipe_step api s (EvFlush (poll_flush (wires s))) s"
| step_close:
    "handles s \<noteq> [] \<Longrightarrow> poll_close (wires s) = (r, w) \<Longrightarrow>
     pipe_step api s EvClose (s\<lparr>wires := w\<rparr>)"
| step_clone:
    "i < length (handles s) \<Longrightarrow>
     pipe_step api s EvClone (s\<lparr>handles := handles s @ [clone_pipe (handles s ! i)]\<rparr>)"
| drop_one:
    "handles s = hs @ h # hs' \<Longrightarrow> hs @ hs' \<noteq> [] \<Longrightarrow>
     pipe_step api s EvDrop (s\<lparr>handles := hs @ hs'\<rparr>)"
| drop_last:
    "handles s = [h] \<Longrightarrow>
     pipe_step api s EvDrop (s\<lparr>handles := [], wires := hang_up_both api (wires s)\<rparr>)"
| send_sink:
    "\<not> race_over s \<Longrightarrow> spc s = SendWs msg \<Longrightarrow>
     send_loop_step api ok (wires s) (spc s) = Some (w, pc) \<Longrightarrow>
     pipe_step api s (EvSink msg ok) (s\<lparr>wires := w, spc := pc\<rparr>)"
| send_other:
    "\<not> race_over s \<Longrightarrow> \<not> (\<exists>msg. spc s = SendWs msg) \<Longrightarrow>
     send_loop_step api ok (wires s) (spc s) = Some (w, pc) \<Longrightarrow>
     pipe_step api s EvInternal (s\<lparr>wires := w, spc := pc\<rparr>)"
| recv_item:
    "\<not> race_over s \<Longrightarrow> rpc s = RecvNext \<Longrightarrow>
     recv_loop_step api item (wires s) (rpc s) = Some (w, pc) \<Longrightarrow>
     pipe_step api s (EvItem item) (s\<lparr>wires := w, rpc := pc\<rparr>)"
| recv_other:
    "\<not> race_over s \<Longrightarrow> rpc s \<noteq> RecvNext \<Longrightarrow>
     recv_loop_step api item (wires s) (rpc s) = Some (w, pc) \<Longrightarrow>
     pipe_step api s EvInternal (s\<lparr>wires := w, rpc := pc\<rparr>)"
| task_ends:
    "race_over s \<Longrightarrow> \<not> task_gone s \<Longrightarrow>
     pipe_step api s EvInternal (s\<lparr>wires := hang_up_both api (wires s), task_gone := True\<rparr>)"

inductive_cases pipe_step_sinkE: "pipe_step api s (EvSink m ok) s'"
inductive_cases pipe_step_itemE: "pipe_step api s (EvItem item) s'"
inductive_cases pipe_step_writeE: "pipe_step api s (EvWrite m t r) s'"
inductive_cases pipe_step_closeE: "pipe_step api s EvClose s'"

text \<open>The events of the background task and of its websocket, which no call of a handle takes
  part in.\<close>

fun of_task :: "event \<Rightarrow> bool" where
  "of_task (EvSink m ok) = True"
| "of_task (EvItem i) = True"
| "of_task EvInternal = True"
| "of_task _ = False"

text \<open>A pipe that nobody has called yet, and what its task, which \<open>ObfsWsPipe::new\<close> spawns at
  once, can have made of it.\<close>

definition running_pipe :: "'c wires \<times> pipe_handle \<Rightarrow> 'c pipe_sys" where
  "running_pipe p =
     \<lparr>wires = fst p, handles = [snd p], spc = SendCheck, rpc = RecvCheck, task_gone = False\<rparr>"

definition pipe_meanwhile ::
  "('c, bytes) chan_api \<Rightarrow> 'c wires \<times> pipe_handle \<Rightarrow> 'c wires \<times> pipe_handle \<Rightarrow> bool" where
  "pipe_meanwhile api p p' \<longleftrightarrow>
     (\<exists>evs s. run (pipe_step api) (running_pipe p) evs s \<and> list_all of_task evs \<and> p' = (wires s, snd p))"

lemma start_pipe_running: "start_pipe api url md = running_pipe (new_pipe api url md)"
  by (simp add: start_pipe_def running_pipe_def split: prod.split)

lemma pipe_meanwhile_refl: "pipe_meanwhile api p p"
  unfolding pipe_meanwhile_def
  by (rule exI [of _ "[]"], rule exI [of _ "running_pipe p"]) (simp add: running_pipe_def run_start)

lemma pipe_meanwhile_handle: "pipe_meanwhile api p p' \<Longrightarrow> snd p' = snd p"
  by (auto simp: pipe_meanwhile_def)

text \<open>The histories a list of events determines.\<close>

fun accepted1 :: "event \<Rightarrow> bytes list" where
  "accepted1 (EvWrite m True r) = [m]"
| "accepted1 _ = []"

fun handed_over1 :: "event \<Rightarrow> bytes list" where
  "handed_over1 (EvSink m ok) = [m]"
| "handed_over1 _ = []"

fun arrived1 :: "event \<Rightarrow> bytes list" where
  "arrived1 (EvItem (Item (Binary m))) = [m]"
| "arrived1 _ = []"

fun consumed1 :: "event \<Rightarrow> bytes" where
  "consumed1 (EvRead d l) = d @ l"
| "consumed1 _ = []"

text \<open>What a read consumed is what its caller got, or what a pending poll dropped.\<close>

fun reader_got1 :: "event \<Rightarrow> bytes" where
  "reader_got1 (EvRead d l) = d"
| "reader_got1 _ = []"

fun reader_lost1 :: "event \<Rightarrow> bytes" where
  "reader_lost1 (EvRead d l) = l"
| "reader_lost1 _ = []"

definition accepted :: "event list \<Rightarrow> bytes list" where
  "accepted evs = concat (map accepted1 evs)"

definition handed_over :: "event list \<Rightarrow> bytes list" where
  "handed_over evs = concat (map handed_over1 evs)"

definition arrived :: "event list \<Rightarrow> bytes list" where
  "arrived evs = concat (map arrived1 evs)"

definition consumed :: "event list \<Rightarrow> bytes" where
  "consumed evs = concat (map consumed1 evs)"

definition reader_got :: "event list \<Rightarrow> bytes" where
  "reader_got evs = concat (map reader_got1 evs)"

definition reader_lost :: "event list \<Rightarrow> bytes" where
  "reader_lost evs = concat (map reader_lost1 evs)"

lemma history_Nil [simp]:
  "accepted [] = []" "handed_over [] = []" "arrived [] = []" "consumed [] = []"
  by (simp_all add: accepted_def handed_over_def arrived_def consumed_def)

lemma history_snoc [simp]:
  "accepted (evs @ [e]) = accepted evs @ accepted1 e"
  "handed_over (evs @ [e]) = handed_over evs @ handed_over1 e"
  "arrived (evs @ [e]) = arrived evs @ arrived1 e"
  "consumed (evs @ [e]) = consumed evs @ consumed1 e"
  by (simp_all add: accepted_def handed_over_def arrived_def consumed_def)

lemma shuffles_append:
  "zs \<in> shuffles xs ys \<Longrightarrow> zs' \<in> shuffles xs' ys' \<Longrightarrow> zs @ zs' \<in> shuffles (xs @ xs') (ys @ ys')"
proof (induction xs ys arbitrary: zs rule: shuffles.induct)
  case (1 ys)
  then show ?case by (induction ys arbitrary: zs) (auto intro: Cons_in_shuffles_rightI)
next
  case (2 x xs)
  have "us @ zs' \<in> shuffles (us @ xs') ys'" for us
    using 2 by (induction us) (auto intro: Cons_in_shuffles_leftI)
  with 2 show ?case by simp
qed (auto intro: Cons_in_shuffles_leftI Cons_in_shuffles_rightI)

lemma shuffles_subseq: "zs \<in> shuffles xs ys \<Longrightarrow> subseq xs zs"
  by (induction xs ys arbitrary: zs rule: shuffles.induct) auto

lemma consumed_shuffles: "consumed evs \<in> shuffles (reader_got evs) (reader_lost evs)"
proof (induction evs)
  case (Cons e evs)
  have "consumed1 e \<in> shuffles (reader_got1 e) (reader_lost1 e)"
    by (cases e) (auto intro: shuffles_append [of _ _ "[]" _ "[]", simplified])
  from shuffles_append [OF this Cons] show ?case
    by (simp add: consumed_def reader_got_def reader_lost_def)
qed (simp add: consumed_def reader_got_def reader_lost_def)

text \<open>The message a loop holds between its two awaits.\<close>

fun sending :: "send_pc \<Rightarrow> bytes list" where
  "sending (SendWs m) = [m]"
| "sending _ = []"

fun pushing :: "recv_pc \<Rightarrow> bytes list" where
  "pushing (RecvPush m) = [m]"
| "pushing _ = []"


section \<open>Invariants of every run\<close>

lemmas pipe_op_defs =
  poll_close_def hang_up_both_def race_over_def send_over_def recv_over_def

lemma send_loop_step_closed:
  "send_loop_step api ok w pc = Some (w', pc') \<Longrightarrow> closed w \<Longrightarrow> closed w'"
  by (cases pc) (auto split: poll.splits sum.splits if_splits)

lemma recv_loop_step_closed:
  "recv_loop_step api item w pc = Some (w', pc') \<Longrightarrow> closed w \<Longrightarrow> closed w'"
  by (cases pc) (auto split: poll.splits sum.splits if_splits ws_item.splits ws_message.splits)

lemma poll_write_frame:
  "poll_write api w msg = (r, w') \<Longrightarrow> closed w' = closed w \<and> inner_recv w' = inner_recv w"
  by (auto simp: poll_write_def split: if_splits sum.splits)

lemma poll_read_frame:
  assumes "poll_read api w h buf = Ok (p, buf', w', h')"
  shows "closed w' = closed w \<and> inner_send w' = inner_send w \<and> peer_url h' = peer_url h"
proof (cases "length buf < length (recv_buf h)")
  case True
  with assms show ?thesis by (auto simp: poll_read_leftover)
next
  case False
  with assms show ?thesis
    by (cases "try_recv api (inner_recv w)") (auto simp: poll_read_cases)
qed

definition wiring_ok :: "('c \<Rightarrow> bytes fifo) \<Rightarrow> 'c pipe_sys \<Rightarrow> bool" where
  "wiring_ok view s \<longleftrightarrow>
     (hung_up (view (inner_send (wires s))) \<longrightarrow> task_gone s \<or> handles s = []) \<and>
     (hung_up (view (inner_recv (wires s))) \<longrightarrow> task_gone s \<or> handles s = []) \<and>
     (race_over s \<longrightarrow> closed (wires s) \<or> handles s = []) \<and>
     (task_gone s \<longrightarrow> race_over s)"

definition sent_in_order :: "('c \<Rightarrow> bytes fifo) \<Rightarrow> event list \<Rightarrow> 'c pipe_sys \<Rightarrow> bool" where
  "sent_in_order view evs s \<longleftrightarrow>
     accepted evs = handed_over evs @ sending (spc s) @ queue (view (inner_send (wires s)))"

text \<open>The receiving side of a pipe with a single handle, which is how a pipe starts, until that
  handle is dropped.\<close>

definition received_in_order :: "('c \<Rightarrow> bytes fifo) \<Rightarrow> event list \<Rightarrow> 'c pipe_sys \<Rightarrow> bool" where
  "received_in_order view evs s \<longleftrightarrow> wiring_ok view s \<and>
     (EvClone \<notin> set evs \<longrightarrow>
        (\<exists>h. handles s = [h] \<and>
           concat (arrived evs) = consumed evs @ undelivered view (wires s) h @ concat (pushing (rpc s))) \<or>
        handles s = [] \<and> prefix (consumed evs) (concat (arrived evs)))"

context pipe_channel
begin

lemma wiring_start: "wiring_ok view (start_pipe api url md)"
  by (simp add: wiring_ok_def start_pipe_def new_pipe_def view_bounded bounded_def race_over_def
      send_over_def recv_over_def)

lemma write_hung_up:
  assumes "poll_write api w msg = (r, w')"
  shows "hung_up (view (inner_send w')) = hung_up (view (inner_send w))"
  using write_outcome[OF assms] by (auto simp: fifo_push_def split: if_splits)

lemma read_hung_up:
  assumes "poll_read api w h buf = Ok (p, buf', w', h')"
  shows "hung_up (view (inner_recv w')) = hung_up (view (inner_recv w))"
proof (cases "length buf < length (recv_buf h)")
  case True
  with assms show ?thesis by (auto simp: poll_read_leftover)
next
  case False
  with assms show ?thesis
    by (cases "try_recv api (inner_recv w)") (auto simp: poll_read_cases hung_up_kept)
qed

lemma send_loop_step_hung_up:
  assumes "send_loop_step api ok w pc = Some (w', pc')"
  shows "hung_up (view (inner_send w')) = hung_up (view (inner_send w))"
    and "inner_recv w' = inner_recv w"
    and "send_over pc' \<longrightarrow> closed w' \<or> hung_up (view (inner_send w))"
  using assms
  by (cases pc; auto simp: send_over_def hung_up_kept dest: recv_await_Inl
      split: poll.splits sum.splits if_splits)+

lemma recv_loop_step_hung_up:
  assumes "recv_loop_step api item w pc = Some (w', pc')"
  shows "hung_up (view (inner_recv w')) = hung_up (view (inner_recv w))"
    and "inner_send w' = inner_send w"
    and "recv_over pc' \<longrightarrow> closed w' \<or> hung_up (view (inner_recv w))"
  using assms
  by (cases pc; auto simp: recv_over_def hung_up_kept dest: send_await_Inl
      split: poll.splits sum.splits if_splits ws_item.splits ws_message.splits)+

lemma wiring_send:
  assumes "wiring_ok view s" and "\<not> race_over s"
    and "send_loop_step api ok (wires s) (spc s) = Some (w, pc)"
  shows "wiring_ok view (s\<lparr>wires := w, spc := pc\<rparr>)"
  using assms(1,2) send_loop_step_hung_up[OF assms(3)]
  by (auto simp: wiring_ok_def race_over_def)

lemma wiring_recv:
  assumes "wiring_ok view s" and "\<not> race_over s"
    and "recv_loop_step api item (wires s) (rpc s) = Some (w, pc)"
  shows "wiring_ok view (s\<lparr>wires := w, rpc := pc\<rparr>)"
  using assms(1,2) recv_loop_step_hung_up[OF assms(3)]
  by (auto simp: wiring_ok_def race_over_def)

lemma wiring_step:
  assumes "wiring_ok view s" and "pipe_step api s e s'"
  shows "wiring_ok view s'"
  using assms(2,1)
proof cases
  case step_write
  with assms(1) show ?thesis
    by (auto simp: wiring_ok_def race_over_def dest: write_hung_up poll_write_frame)
next
  case step_read
  with assms(1) show ?thesis
    by (auto simp: wiring_ok_def race_over_def dest: read_hung_up poll_read_frame)
next
  case (send_sink msg ok w pc)
  from wiring_send [OF assms(1) send_sink(3,5)] send_sink(2) show ?thesis by simp
next
  case (send_other ok w pc)
  from wiring_send [OF assms(1) send_other(3,5)] send_other(2) show ?thesis by simp
next
  case (recv_item item w pc)
  from wiring_recv [OF assms(1) recv_item(3,5)] recv_item(2) show ?thesis by simp
next
  case (recv_other item w pc)
  from wiring_recv [OF assms(1) recv_other(3,5)] recv_other(2) show ?thesis by simp
qed (use assms(1) in \<open>auto simp: wiring_ok_def pipe_op_defs view_hang_up fifo_hang_up_def\<close>)

lemma sent_start: "sent_in_order view [] (start_pipe api url md)"
  by (simp add: sent_in_order_def start_pipe_def new_pipe_def view_bounded bounded_def)

lemma sent_write:
  assumes "poll_write api w msg = (r, w')"
  shows "queue (view (inner_send w')) =
     queue (view (inner_send w)) @ accepted1 (EvWrite msg (write_taken api w msg) r)"
  using assms
  by (auto simp: poll_write_def write_taken_def fifo_push_def dest: try_send_Inr(1) split: sum.splits if_splits)

lemma sent_loop:
  assumes "send_loop_step api ok w pc = Some (w', pc')"
  shows "sending pc @ queue (view (inner_send w)) =
     (case pc of SendWs m \<Rightarrow> [m] | _ \<Rightarrow> []) @ sending pc' @ queue (view (inner_send w'))"
  using assms
  by (cases pc) (auto dest: recv_await_Inr(1) recv_await_Inl(2) split: poll.splits sum.splits if_splits)

lemma sent_step:
  assumes "sent_in_order view evs s" and "pipe_step api s e s'"
  shows "sent_in_order view (evs @ [e]) s'"
  using assms(2)
proof cases
  case (step_write msg r w)
  with assms(1) show ?thesis
    by (simp add: sent_in_order_def sent_write[of "wires s" msg r w])
next
  case (step_read i buf p buf' w h)
  with assms(1) poll_read_frame[of api "wires s"] show ?thesis
    by (simp add: sent_in_order_def)
next
  case (send_sink msg ok w pc)
  with assms(1) sent_loop[OF send_sink(5)] show ?thesis
    by (simp add: sent_in_order_def)
next
  case (send_other ok w pc)
  from send_other(4) have "(case spc s of SendWs m \<Rightarrow> [m] | _ \<Rightarrow> []) = []"
    by (auto split: send_pc.splits)
  with assms(1) send_other(1,2) sent_loop[OF send_other(5)] show ?thesis
    by (simp add: sent_in_order_def)
next
  case (recv_item item w pc)
  with assms(1) recv_loop_step_hung_up(2)[of item "wires s" "rpc s" w pc] show ?thesis
    by (simp add: sent_in_order_def)
next
  case (recv_other item w pc)
  with assms(1) recv_loop_step_hung_up(2)[of item "wires s" "rpc s" w pc] show ?thesis
    by (simp add: sent_in_order_def)
qed (use assms(1) in \<open>simp_all add: sent_in_order_def pipe_op_defs view_hang_up fifo_hang_up_def\<close>)

lemma received_start: "received_in_order view [] (start_pipe api url md)"
  using wiring_start
  by (simp add: received_in_order_def start_pipe_def new_pipe_def undelivered_def view_bounded
      bounded_def)

lemma received_read:
  assumes "poll_read api w h buf = Ok (p, buf', w', h')"
  shows "undelivered view w h = received p buf' @ read_loss p h @ undelivered view w' h'"
proof (cases p)
  case (Ready n)
  with read_ready_conserves assms show ?thesis by (simp add: read_loss_def)
next
  case Pending
  have "w' = w \<and> recv_buf h' = []"
  proof (cases "length buf < length (recv_buf h)")
    case True
    with assms Pending show ?thesis by (simp add: poll_read_leftover)
  next
    case False
    with assms Pending show ?thesis
      by (cases "try_recv api (inner_recv w)") (auto simp: poll_read_cases)
  qed
  with Pending show ?thesis by (simp add: read_loss_def undelivered_def)
qed

lemma received_loop:
  assumes "recv_loop_step api item w pc = Some (w', pc')"
    and "\<not> hung_up (view (inner_recv w))"
  shows "undelivered view w h @ concat (pushing pc) @
       concat (if pc = RecvNext then arrived1 (EvItem item) else []) =
     undelivered view w' h @ concat (pushing pc')"
  using assms
  by (cases pc) (auto simp: undelivered_def fifo_push_def dest!: send_await_Inr(1) send_await_Inl
      split: poll.splits sum.splits if_splits ws_item.splits ws_message.splits)

lemma received_step:
  assumes "received_in_order view evs s" and "pipe_step api s e s'"
  shows "received_in_order view (evs @ [e]) s'"
proof -
  have W: "wiring_ok view s" and W': "wiring_ok view s'"
    using assms wiring_step by (auto simp: received_in_order_def)
  have "(\<exists>h. handles s' = [h] \<and> concat (arrived (evs @ [e])) =
       consumed (evs @ [e]) @ undelivered view (wires s') h @ concat (pushing (rpc s'))) \<or>
      handles s' = [] \<and> prefix (consumed (evs @ [e])) (concat (arrived (evs @ [e])))"
    if free: "EvClone \<notin> set (evs @ [e])"
  proof (cases "handles s = []")
    case True
    with assms(1) free have "prefix (consumed evs) (concat (arrived evs))" by (simp add: received_in_order_def)
    with assms(2) True show ?thesis by cases (auto simp: prefix_prefix)
  next
    case False
    then obtain h where h: "handles s = [h]" and inv: "concat (arrived evs) =
        consumed evs @ undelivered view (wires s) h @ concat (pushing (rpc s))"
      using assms(1) free by (auto simp: received_in_order_def)
    have alive: "\<not> hung_up (view (inner_recv (wires s)))" if "\<not> race_over s"
      using W h that by (auto simp: wiring_ok_def)
    from assms(2) show ?thesis
    proof cases
      case (step_write msg r w)
      with h inv poll_write_frame show ?thesis by (fastforce simp: undelivered_def)
    next
      case (step_read i buf p buf' w h')
      with h inv received_read[of "wires s" h buf p buf' w h'] show ?thesis by auto
    next
      case (send_sink msg ok w pc)
      with h inv send_loop_step_hung_up(2)[OF send_sink(5)] show ?thesis
        by (simp add: undelivered_def)
    next
      case (send_other ok w pc)
      with h inv send_loop_step_hung_up(2)[OF send_other(5)] show ?thesis
        by (simp add: undelivered_def)
    next
      case (recv_item item w pc)
      with h inv received_loop[OF recv_item(5) alive, of h] show ?thesis by simp
    next
      case (recv_other item w pc)
      with h inv received_loop[OF recv_other(5) alive, of h] show ?thesis by simp
    qed (use h inv free in \<open>auto simp: undelivered_def pipe_op_defs view_hang_up fifo_hang_up_def append_eq_Cons_conv Cons_eq_append_conv\<close>)
  qed
  with W' show ?thesis by (simp add: received_in_order_def)
qed

end

text \<open>A read gives its caller bytes, or drops some, never both.\<close>

lemma step_read_exclusive: "pipe_step api s (EvRead d l) s' \<Longrightarrow> d = [] \<or> l = []"
  by (erule pipe_step.cases; simp) (auto simp: read_loss_def split: poll.splits)

lemma run_read_exclusive:
  "run (pipe_step api) s evs s' \<Longrightarrow> \<forall>d l. EvRead d l \<in> set evs \<longrightarrow> d = [] \<or> l = []"
  by (induction rule: run.induct) (use step_read_exclusive in fastforce)+

sublocale pipe_channel \<subseteq> wiring: history_invariant "pipe_step api"
  "\<lambda>s. \<exists>url md. s = start_pipe api url md" "\<lambda>evs s. wiring_ok view s"
  by unfold_locales (auto intro: wiring_start wiring_step)

sublocale pipe_channel \<subseteq> sending: history_invariant "pipe_step api"
  "\<lambda>s. \<exists>url md. s = start_pipe api url md" "sent_in_order view"
  by unfold_locales (auto intro: sent_start sent_step)

sublocale pipe_channel \<subseteq> receiving: history_invariant "pipe_step api"
  "\<lambda>s. \<exists>url md. s = start_pipe api url md" "received_in_order view"
  by unfold_locales (auto intro: received_start received_step)


text \<open>How many messages the send loop can still hand over once the flag is set.\<close>

fun sends_left :: "send_pc \<Rightarrow> nat" where
  "sends_left SendRecv = 1"
| "sends_left (SendWs m) = 1"
| "sends_left _ = 0"

lemma closed_loop_sends_left:
  "send_loop_step api ok w pc = Some (w', pc') \<Longrightarrow> closed w \<Longrightarrow>
   (case pc of SendWs m \<Rightarrow> 1 | _ \<Rightarrow> 0) + sends_left pc' \<le> sends_left pc"
  by (cases pc) (auto split: poll.splits sum.splits if_splits)

lemma closed_pipe_step:
  assumes "pipe_step api s e s'" and "closed (wires s)"
  shows "closed (wires s') \<and> accepted1 e = [] \<and>
     length (handed_over1 e) + sends_left (spc s') \<le> sends_left (spc s)"
  using assms(1)
proof cases
  case (step_write msg r w)
  with assms(2) show ?thesis by (auto simp: poll_write_def write_taken_def)
next
  case (step_read i buf p buf' w h)
  with assms(2) poll_read_frame[OF step_read(4)] show ?thesis by simp
next
  case (send_sink msg ok w pc)
  with assms(2) closed_loop_sends_left[OF send_sink(5)] send_loop_step_closed[OF send_sink(5)]
  show ?thesis by simp
next
  case (send_other ok w pc)
  with assms(2) closed_loop_sends_left[OF send_other(5)] send_loop_step_closed[OF send_other(5)]
  show ?thesis by (auto split: send_pc.splits)
next
  case (recv_item item w pc)
  with assms(2) recv_loop_step_closed[OF recv_item(5)] show ?thesis by simp
next
  case (recv_other item w pc)
  with assms(2) recv_loop_step_closed[OF recv_other(5)] show ?thesis by simp
qed (use assms(2) in \<open>auto simp: pipe_op_defs\<close>)

definition closing_inv :: "event list \<Rightarrow> 'c pipe_sys \<Rightarrow> bool" where
  "closing_inv evs s \<longleftrightarrow>
     closed (wires s) \<and> accepted evs = [] \<and> length (handed_over evs) + sends_left (spc s) \<le> 1"

interpretation closing: history_invariant "pipe_step api" "\<lambda>s. closed (wires s)" closing_inv
  for api :: "('c, bytes) chan_api"
proof unfold_locales
  fix s :: "'c pipe_sys"
  assume "closed (wires s)"
  then show "closing_inv [] s"
    by (cases "spc s") (auto simp: closing_inv_def)
next
  fix evs e and s s' :: "'c pipe_sys"
  assume "closing_inv evs s" and "pipe_step api s e s'"
  then show "closing_inv (evs @ [e]) s'"
    using closed_pipe_step by (fastforce simp: closing_inv_def)
qed

text \<open>Both loops are waiting, for a message to send and for the websocket, and the flag is
  set.\<close>

definition parked :: "('c \<Rightarrow> bytes fifo) \<Rightarrow> 'c pipe_sys \<Rightarrow> bool" where
  "parked view s \<longleftrightarrow>
     closed (wires s) \<and> spc s = SendRecv \<and> rpc s = RecvNext \<and> \<not> task_gone s \<and>
     queue (view (inner_send (wires s))) = [] \<and> \<not> hung_up (view (inner_send (wires s)))"

definition parked_inv :: "('c \<Rightarrow> bytes fifo) \<Rightarrow> event list \<Rightarrow> 'c pipe_sys \<Rightarrow> bool" where
  "parked_inv view evs s \<longleftrightarrow>
     ((\<forall>item. EvItem item \<notin> set evs) \<and> EvDrop \<notin> set evs \<longrightarrow> parked view s)"

context pipe_channel
begin

lemma parked_recv_pending:
  assumes "parked view s"
  shows "recv_await api (inner_send (wires s)) = Pending"
proof -
  have "map_poll (map_sum id (map_prod id view)) (recv_await api (inner_send (wires s))) = Pending"
    using assms by (simp add: view_recv_await parked_def fifo_recv_await_def fifo_try_recv_def)
  then show ?thesis by (cases "recv_await api (inner_send (wires s))") auto
qed

lemma parked_step:
  assumes "parked view s" and "pipe_step api s e s'" and "\<forall>item. e \<noteq> EvItem item" and "e \<noteq> EvDrop"
  shows "parked view s'"
  using assms(2)
proof cases
  case (step_write msg r w)
  with assms(1) show ?thesis by (auto simp: parked_def poll_write_def)
next
  case (step_read i buf p buf' w h)
  with assms(1) poll_read_frame[OF step_read(4)] show ?thesis by (simp add: parked_def)
qed (use assms parked_recv_pending[OF assms(1)] in \<open>auto simp: parked_def pipe_op_defs\<close>)

end

sublocale pipe_channel \<subseteq> parking: history_invariant "pipe_step api" "parked view" "parked_inv view"
  by unfold_locales (auto simp: parked_inv_def intro: parked_step)


context pipe_channel
begin

lemma run_wiring: "run (pipe_step api) (start_pipe api url md) evs s \<Longrightarrow> wiring_ok view s"
  by (rule wiring.inv_run) auto

lemma run_sent: "run (pipe_step api) (start_pipe api url md) evs s \<Longrightarrow> sent_in_order view evs s"
  by (rule sending.inv_run) auto

lemma run_received:
  "run (pipe_step api) (start_pipe api url md) evs s \<Longrightarrow> received_in_order view evs s"
  by (rule receiving.inv_run) auto

lemma run_parked: "run (pipe_step api) s evs s' \<Longrightarrow> parked view s \<Longrightarrow> parked_inv view evs s'"
  by (rule parking.inv_run)

end


section \<open>What a pipe guarantees\<close>

lemmas start_defs = start_pipe_def new_pipe_def bounded_def fifo_api_def fifo_defs

text \<open>A run on the queue itself: one message out, one message in and read in two parts, then
  the end of the stream. It serves the witnesses below.\<close>

definition demo_start :: "bytes fifo pipe_sys" where
  "demo_start = start_pipe fifo_api ''ws://a/'' ''k''"

definition demo_sys ::
  "bytes list \<Rightarrow> bytes list \<Rightarrow> bytes \<Rightarrow> bool \<Rightarrow> send_pc \<Rightarrow> recv_pc \<Rightarrow> bytes fifo pipe_sys" where
  "demo_sys out inq kept flag pc pc' =
     \<lparr>wires = \<lparr>inner_send = (bounded 100000)\<lparr>queue := out\<rparr>,
               inner_recv = (bounded 100000)\<lparr>queue := inq\<rparr>, closed = flag\<rparr>,
      handles = [\<lparr>recv_buf = kept, peer_url = ''ws://a/#k''\<rparr>],
      spc = pc, rpc = pc', task_gone = False\<rparr>"

lemmas demo_sys_defs = demo_sys_def start_defs

lemma demo_start_sys: "demo_start = demo_sys [] [] [] False SendCheck RecvCheck"
  by (simp add: demo_start_def demo_sys_defs)

lemma demo_write:
  "pipe_step fifo_api (demo_sys out inq kept False pc pc') (EvWrite m True (Ready (Inr n)))
     (demo_sys (out @ [m]) inq kept False pc pc')"
  if "length out < 100000" and "n = length m"
  using step_write[of "demo_sys out inq kept False pc pc'" fifo_api m "Ready (Inr (length m))"
      "wires (demo_sys (out @ [m]) inq kept False pc pc')"] that
  by (simp add: demo_sys_defs poll_write_def write_taken_def)


lemma demo_check:
  "pipe_step fifo_api (demo_sys out inq kept False SendCheck pc') EvInternal
     (demo_sys out inq kept False SendRecv pc')" if "\<not> recv_over pc'"
  using send_other[of "demo_sys out inq kept False SendCheck pc'" fifo_api True
      "wires (demo_sys out inq kept False SendRecv pc')" SendRecv] that
  by (simp add: demo_sys_defs race_over_def send_over_def)

lemma demo_take:
  "pipe_step fifo_api (demo_sys (m # out) inq kept False SendRecv pc') EvInternal
     (demo_sys out inq kept False (SendWs m) pc')" if "\<not> recv_over pc'"
  using send_other[of "demo_sys (m # out) inq kept False SendRecv pc'" fifo_api True
      "wires (demo_sys out inq kept False (SendWs m) pc')" "SendWs m"] that
  by (simp add: demo_sys_defs race_over_def send_over_def)

lemma demo_sink:
  "pipe_step fifo_api (demo_sys out inq kept False (SendWs m) pc') (EvSink m True)
     (demo_sys out inq kept False SendCheck pc')" if "\<not> recv_over pc'"
  using send_sink[of "demo_sys out inq kept False (SendWs m) pc'" m fifo_api True
      "wires (demo_sys out inq kept False SendCheck pc')" SendCheck] that
  by (simp add: demo_sys_defs race_over_def send_over_def)

lemma demo_recv_check:
  "pipe_step fifo_api (demo_sys out inq kept False pc RecvCheck) EvInternal
     (demo_sys out inq kept False pc RecvNext)" if "\<not> send_over pc"
  using recv_other[of "demo_sys out inq kept False pc RecvCheck" fifo_api EndOfStream
      "wires (demo_sys out inq kept False pc RecvNext)" RecvNext] that
  by (simp add: demo_sys_defs race_over_def recv_over_def)

lemma demo_item:
  "pipe_step fifo_api (demo_sys out inq kept False pc RecvNext) (EvItem (Item (Binary m)))
     (demo_sys out inq kept False pc (RecvPush m))" if "\<not> send_over pc"
  using recv_item[of "demo_sys out inq kept False pc RecvNext" fifo_api "Item (Binary m)"
      "wires (demo_sys out inq kept False pc (RecvPush m))" "RecvPush m"] that
  by (simp add: demo_sys_defs race_over_def recv_over_def trace_preview_in_bounds)

lemma demo_push:
  "pipe_step fifo_api (demo_sys out inq kept False pc (RecvPush m)) EvInternal
     (demo_sys out (inq @ [m]) kept False pc RecvCheck)"
  if "\<not> send_over pc" and "length inq < 100000"
  using recv_other[of "demo_sys out inq kept False pc (RecvPush m)" fifo_api EndOfStream
      "wires (demo_sys out (inq @ [m]) kept False pc RecvCheck)" RecvCheck] that
  by (simp add: demo_sys_defs race_over_def recv_over_def)

lemma demo_read:
  fixes buf :: bytes
  assumes "length kept \<le> length buf"
  shows "pipe_step fifo_api (demo_sys out (m # inq) kept flag pc pc')
     (EvRead (take (length buf) (kept @ m)) [])
     (demo_sys out inq (drop (length buf) (kept @ m)) flag pc pc')"
proof -
  let ?s = "demo_sys out (m # inq) kept flag pc pc'"
  let ?s' = "demo_sys out inq (drop (length buf) (kept @ m)) flag pc pc'"
  have "poll_read fifo_api (wires ?s) (handles ?s ! 0) buf =
      Ok (Ready (min (length buf) (length (kept @ m))),
          take (length buf) (kept @ m) @ drop (length (kept @ m)) buf, wires ?s', handles ?s' ! 0)"
    using assms by (simp add: poll_read_message demo_sys_defs)
  from step_read[OF _ this] show ?thesis
    by (simp add: demo_sys_defs read_loss_def min_def split: if_splits)
qed

lemma demo_read_pending:
  "pipe_step fifo_api (demo_sys out [] kept flag pc pc') (EvRead [] kept)
     (demo_sys out [] [] flag pc pc')"
proof -
  let ?s = "demo_sys out [] kept flag pc pc'"
  have "poll_read fifo_api (wires ?s) (handles ?s ! 0) kept =
      Ok (Pending, kept, wires ?s, \<lparr>recv_buf = [], peer_url = ''ws://a/#k''\<rparr>)"
    by (simp add: poll_read_pending demo_sys_defs)
  from step_read[OF _ this] show ?thesis
    by (simp add: demo_sys_defs read_loss_def)
qed

lemma demo_close:
  "pipe_step fifo_api (demo_sys out inq kept flag pc pc') EvClose
     (demo_sys out inq kept True pc pc')"
  using step_close[of "demo_sys out inq kept flag pc pc'" "Ready (Inr ())"
      "wires (demo_sys out inq kept True pc pc')" fifo_api]
  by (simp add: demo_sys_defs poll_close_def)

lemma demo_end_of_stream:
  "pipe_step fifo_api (demo_sys out inq kept False pc RecvNext) (EvItem EndOfStream)
     (demo_sys out inq kept True pc (RecvDone BrokenPipeErr))" if "\<not> send_over pc"
  using recv_item[of "demo_sys out inq kept False pc RecvNext" fifo_api EndOfStream
      "wires (demo_sys out inq kept True pc (RecvDone BrokenPipeErr))" "RecvDone BrokenPipeErr"] that
  by (simp add: demo_sys_defs race_over_def recv_over_def)

lemmas demo_steps =
  demo_write demo_check demo_take demo_sink demo_recv_check demo_item demo_push demo_read
  demo_read_pending demo_close demo_end_of_stream

lemma demo_send_run:
  "run (pipe_step fifo_api) demo_start
     [EvWrite [1, 2] True (Ready (Inr 2)), EvInternal, EvInternal, EvSink [1, 2] True,
      EvWrite [3] True (Ready (Inr 1))]
     (demo_sys [[3]] [] [] False SendCheck RecvCheck)"
  unfolding demo_start_sys
  by (rule run_cons, rule demo_write, simp, simp,
      rule run_cons, rule demo_check, simp add: recv_over_def,
      unfold append_Nil, rule run_cons, rule demo_take, simp add: recv_over_def,
      rule run_cons, rule demo_sink, simp add: recv_over_def,
      rule run_cons, rule demo_write, simp, simp, unfold append_Nil, rule run_start)


lemma demo_recv_run:
  "run (pipe_step fifo_api) demo_start
     [EvInternal, EvItem (Item (Binary [1, 2, 3])), EvInternal, EvRead [1, 2] [], EvRead [] [3]]
     (demo_sys [] [] [] False SendCheck RecvCheck)"
  unfolding demo_start_sys
  by (rule run_cons, rule demo_recv_check, simp add: send_over_def,
      rule run_cons, rule demo_item, simp add: send_over_def,
      rule run_cons, rule demo_push, simp add: send_over_def, simp, unfold append_Nil,
      rule run_cons, rule demo_read [of "[]" "[0, 0]" _ "[1, 2, 3]", simplified],
      rule run_cons, rule demo_read_pending, rule run_start)

lemma demo_end_run:
  "run (pipe_step fifo_api) demo_start [EvInternal, EvItem EndOfStream]
     (demo_sys [] [] [] True SendCheck (RecvDone BrokenPipeErr))"
  unfolding demo_start_sys
  by (rule run_cons, rule demo_recv_check, simp add: send_over_def,
      rule run_cons, rule demo_end_of_stream, simp add: send_over_def, rule run_start)

lemma demo_parked_run:
  "run (pipe_step fifo_api) demo_start [EvInternal, EvInternal, EvClose]
     (demo_sys [] [] [] True SendRecv RecvNext)"
  unfolding demo_start_sys
  by (rule run_cons, rule demo_check, simp add: recv_over_def,
      rule run_cons, rule demo_recv_check, simp add: send_over_def,
      rule run_cons, rule demo_close, rule run_start)

text \<open>
  Property C5. In every interleaving of callers, background task and websocket, the
  messages the send channel took are, in order, those handed to the websocket, then the one
  the loop holds, then those still queued: none is lost, duplicated or overtaken.
\<close>

theorem pipe_sends_in_order:
  assumes "pipe_channel api view" and "run (pipe_step api) (start_pipe api url md) evs s"
  shows "accepted evs = handed_over evs @ sending (spc s) @ queue (view (inner_send (wires s)))"
  using pipe_channel.run_sent [OF assms] by (simp add: sent_in_order_def)

theorem pipe_sends_in_order_witness:
  "\<exists>evs s. run (pipe_step fifo_api) demo_start evs s \<and> accepted evs = [[1, 2], [3]] \<and>
     handed_over evs @ sending (spc s) @ queue (inner_send (wires s)) = [[1, 2], [3]]"
  using pipe_sends_in_order [OF fifo_pipe.pipe_channel_axioms
      demo_send_run [unfolded demo_start_def]] demo_send_run
  by (force simp: accepted_def)

text \<open>
  Property C6. As long as the pipe is not cloned: the bytes that reads have consumed are an
  interleaving of those their callers got and those that pending polls dropped, each read
  doing only one of the two. While the one handle lives, the binary messages that arrived
  are, in order and byte for byte, the consumed bytes, then what is kept, queued or held by
  the loop; once it is dropped, the consumed bytes are the beginning of what arrived. A clone
  copies the kept bytes, so with clones they can be read twice.
\<close>

theorem pipe_receives_in_order:
  assumes "pipe_channel api view" and "run (pipe_step api) (start_pipe api url md) evs s"
    and "EvClone \<notin> set evs"
  shows "consumed evs \<in> shuffles (reader_got evs) (reader_lost evs) \<and>
     (\<forall>d l. EvRead d l \<in> set evs \<longrightarrow> d = [] \<or> l = []) \<and>
     (case handles s of
        [h] \<Rightarrow> concat (arrived evs) = consumed evs @ undelivered view (wires s) h @ concat (pushing (rpc s))
      | hs \<Rightarrow> hs = [] \<and> prefix (consumed evs) (concat (arrived evs)))"
  using pipe_channel.run_received [OF assms(1,2)] assms(3) consumed_shuffles [of evs] run_read_exclusive [OF assms(2)]
  by (auto simp: received_in_order_def)

theorem pipe_receives_in_order_witness:
  "\<exists>evs s. run (pipe_step fifo_api) demo_start evs s \<and>
     arrived evs = [[1, 2, 3]] \<and> reader_got evs = [1, 2] \<and> reader_lost evs = [3] \<and>
     prefix (consumed evs) (concat (arrived evs))"
proof -
  let ?evs = "[EvInternal, EvItem (Item (Binary [1, 2, 3])), EvInternal, EvRead [1, 2] [],
    EvRead [] [3]]"
  have "arrived ?evs = [[1, 2, 3]]" and "reader_got ?evs = [1, 2]" and "reader_lost ?evs = [3]"
    by (simp_all add: arrived_def reader_got_def reader_lost_def)
  moreover have "prefix (consumed ?evs) (concat (arrived ?evs))"
    using pipe_receives_in_order [OF fifo_pipe.pipe_channel_axioms
      demo_recv_run [unfolded demo_start_def]] by (auto simp: demo_sys_def)
  ultimately show ?thesis using demo_recv_run by blast
qed

text \<open>
  As soon as one of the two loops has returned, a pipe that still has a handle
  is closed: every caller sees it, since writes and flushes answer \<open>BrokenPipe\<close> and the
  remote address is gone.
\<close>

theorem pipe_end_is_visible:
  assumes "pipe_channel api view" and "run (pipe_step api) (start_pipe api url md) evs s"
    and "race_over s" and "h \<in> set (handles s)"
  shows "is_closed (wires s) \<and> remote_addr (wires s) h = None \<and>
     poll_write api (wires s) msg = (Ready (Inl BrokenPipe), wires s) \<and>
     poll_flush (wires s) = Ready (Inl BrokenPipe)"
proof -
  have "closed (wires s)"
    using pipe_channel.run_wiring [OF assms(1,2)] assms(3,4) by (auto simp: wiring_ok_def)
  then show ?thesis
    by (simp add: is_closed_def remote_addr_def poll_write_def poll_flush_def)
qed

theorem pipe_end_is_visible_witness:
  "is_closed (wires (demo_sys [] [] [] True SendCheck (RecvDone BrokenPipeErr)))"
  using pipe_end_is_visible [OF fifo_pipe.pipe_channel_axioms demo_end_run [unfolded demo_start_def]]
  by (force simp: race_over_def recv_over_def demo_sys_def)

text \<open>
  Property C11. After the flag is set, it stays set, no write is taken any more, and at
  most one message still reaches the websocket: whatever else was queued is never sent.
\<close>

theorem closed_pipe_sends_one_more:
  assumes "run (pipe_step api) s evs s'" and "closed (wires s)"
  shows "closed (wires s') \<and> accepted evs = [] \<and> length (handed_over evs) \<le> 1"
  using closing.inv_run [OF assms] by (simp add: closing_inv_def)

text \<open>The witness closes a pipe with two queued messages while the loop waits: the first of
  them is still handed over, the second one stays.\<close>

theorem closed_pipe_sends_one_more_witness:
  "\<exists>evs s'. run (pipe_step fifo_api) (demo_sys [[1], [2]] [] [] True SendRecv RecvNext) evs s' \<and>
     handed_over evs = [[1]] \<and> length (handed_over evs) \<le> 1"
proof -
  let ?s = "\<lambda>q pc. demo_sys q [] [] True pc RecvNext"
  have s1: "pipe_step fifo_api (?s [[1], [2]] SendRecv) EvInternal (?s [[2]] (SendWs [1]))"
    using send_other[of "?s [[1], [2]] SendRecv" fifo_api True "wires (?s [[2]] (SendWs [1]))"
        "SendWs [1]"]
    by (simp add: demo_sys_defs race_over_def send_over_def recv_over_def)
  have s2: "pipe_step fifo_api (?s [[2]] (SendWs [1])) (EvSink [1] True) (?s [[2]] SendCheck)"
    using send_sink[of "?s [[2]] (SendWs [1])" "[1]" fifo_api True "wires (?s [[2]] SendCheck)"
        SendCheck]
    by (simp add: demo_sys_defs race_over_def send_over_def recv_over_def)
  have r: "run (pipe_step fifo_api) (?s [[1], [2]] SendRecv)
      [EvInternal, EvSink [1] True] (?s [[2]] SendCheck)"
    by (rule run_cons, rule s1, rule run_cons, rule s2, rule run_start)
  then show ?thesis
    using closed_pipe_sends_one_more [OF r] by (force simp: handed_over_def demo_sys_def)
qed

text \<open>
  Closing a pipe does not stop its background task: once both loops are
  waiting, no call on the pipe makes them return or sends anything, so the websocket stays
  open until the peer sends or the last handle is dropped.
\<close>

theorem close_leaves_task_waiting:
  assumes "pipe_channel api view" and "run (pipe_step api) s evs s'" and "parked view s"
    and "\<forall>item. EvItem item \<notin> set evs" and "EvDrop \<notin> set evs"
  shows "\<not> race_over s' \<and> \<not> task_gone s' \<and> spc s' = SendRecv \<and> rpc s' = RecvNext"
proof -
  have "parked view s'"
    using pipe_channel.run_parked [OF assms(1-3)] assms(4,5) by (simp add: parked_inv_def)
  then show ?thesis by (simp add: parked_def race_over_def send_over_def recv_over_def)
qed

text \<open>The witness reaches such a state from a fresh pipe by a close.\<close>

theorem close_leaves_task_waiting_witness:
  "\<exists>s s'. run (pipe_step fifo_api) demo_start [EvInternal, EvInternal, EvClose] s \<and>
     run (pipe_step fifo_api) s [EvClose] s' \<and> \<not> race_over s' \<and> \<not> task_gone s'"
proof -
  let ?s = "demo_sys [] [] [] True SendRecv RecvNext"
  have r: "run (pipe_step fifo_api) ?s [EvClose] ?s"
    by (rule run_cons, rule demo_close, rule run_start)
  have "parked id ?s" by (simp add: parked_def demo_sys_def bounded_def)
  from close_leaves_task_waiting [OF fifo_pipe.pipe_channel_axioms r this] r demo_parked_run
  show ?thesis by auto
qed

end
