(* ===== verification/PipeSpec.thy ===== *)
theory PipeSpec
  imports PipeTask
begin

text \<open>
  What a pipe is, on a page: the byte queue behind \<open>poll_read\<close> as a reference definition
  that the code equals, the shape every reachable pipe has, and the way out for every
  message that a pipe has taken.
\<close>


section \<open>Reading, by its reference\<close>

text \<open>
  A reader sees the bytes it has kept and the messages that wait. A read of at most \<open>n\<close>
  bytes is answered from the kept bytes while they are more than fit; otherwise the next
  message is joined to them, and with no message the kept bytes are given up.
\<close>

fun read_ref :: "nat \<Rightarrow> bytes \<times> bytes list \<Rightarrow> bytes option \<times> bytes \<times> bytes list" where
  "read_ref n (kept, []) =
     (if n < length kept then (Some (take n kept), drop n kept, []) else (None, [], []))"
| "read_ref n (kept, m # ms) =
     (if n < length kept then (Some (take n kept), drop n kept, m # ms)
      else (Some (take n (kept @ m)), drop n (kept @ m), ms))"

fun answer :: "nat poll \<Rightarrow> bytes \<Rightarrow> bytes option" where
  "answer (Ready n) buf = Some (take n buf)"
| "answer Pending buf = None"

text \<open>The abstraction: what of a pipe a reader depends on.\<close>

definition reader_view :: "('c \<Rightarrow> bytes fifo) \<Rightarrow> 'c wires \<Rightarrow> pipe_handle \<Rightarrow> bytes \<times> bytes list" where
  "reader_view view w h = (recv_buf h, queue (view (inner_recv w)))"

lemma read_ref_kept:
  "n < length kept \<Longrightarrow> read_ref n (kept, q) = (Some (take n kept), drop n kept, q)"
  by (cases q) simp_all

lemma read_ref_bytes:
  "read_ref n (kept, q) = (a, kept', q') \<Longrightarrow>
   (case a of Some d \<Rightarrow> kept @ concat q = d @ kept' @ concat q' | None \<Rightarrow> q = [] \<and> kept' = [] \<and> q' = [])"
  by (cases q) (auto split: if_splits)

context pipe_channel
begin

lemma read_by_reference:
  "\<exists>p buf' w' h'. poll_read api w h buf = Ok (p, buf', w', h') \<and>
     read_ref (length buf) (reader_view view w h) = (answer p buf', reader_view view w' h') \<and>
     length buf' = length buf \<and>
     (\<forall>n. p = Ready n \<longrightarrow> n \<le> length buf \<and> drop n buf' = drop n buf)"
proof (cases "length buf < length (recv_buf h)")
  case True
  then show ?thesis by (simp add: poll_read_leftover reader_view_def read_ref_kept)
next
  case False
  show ?thesis
  proof (cases "try_recv api (inner_recv w)")
    case (Inl e)
    from try_recv_Inl(1) [OF Inl] False show ?thesis
      by (simp add: poll_read_pending [OF _ Inl] reader_view_def)
  next
    case (Inr r)
    obtain m c where r: "r = (m, c)" by fastforce
    from try_recv_Inr(1) [OF Inr [unfolded r]] False show ?thesis
      by (auto simp: poll_read_message [OF _ Inr [unfolded r]] reader_view_def min_def)
  qed
qed

end

text \<open>
  Property C4. \<open>poll_read\<close> is the reference definition: for every buffer it ends without a
  panic (all its slices are within bounds), the caller's bytes and what the pipe keeps for
  later are those of \<open>read_ref\<close> on the kept bytes and the queued messages, the rest of the
  buffer is left alone, and the sending side, the flag and the address do not change.
\<close>

theorem poll_read_equals_reference:
  assumes "pipe_channel api view"
  shows "\<exists>p buf' w' h'. poll_read api w h buf = Ok (p, buf', w', h') \<and>
     read_ref (length buf) (reader_view view w h) = (answer p buf', reader_view view w' h') \<and>
     length buf' = length buf \<and> (\<forall>n. p = Ready n \<longrightarrow> n \<le> length buf \<and> drop n buf' = drop n buf) \<and>
     closed w' = closed w \<and> inner_send w' = inner_send w \<and> peer_url h' = peer_url h"
proof -
  obtain p buf' w' h' where r: "poll_read api w h buf = Ok (p, buf', w', h')"
    and spec: "read_ref (length buf) (reader_view view w h) = (answer p buf', reader_view view w' h')"
      "length buf' = length buf" "\<forall>n. p = Ready n \<longrightarrow> n \<le> length buf \<and> drop n buf' = drop n buf"
    using pipe_channel.read_by_reference [OF assms] by blast
  with poll_read_frame [OF r] show ?thesis by blast
qed

theorem poll_read_equals_reference_witness:
  "\<exists>p buf' w' h'. poll_read fifo_api (demo_wires [[3, 4, 5]]) (demo_handle [1, 2]) [0, 0, 0] =
       Ok (p, buf', w', h') \<and> answer p buf' = Some [1, 2, 3] \<and>
     reader_view id w' h' = ([4, 5], [])"
  using poll_read_equals_reference [OF fifo_pipe.pipe_channel_axioms,
      where w = "demo_wires [[3, 4, 5]]" and h = "demo_handle [1, 2]" and buf = "[0, 0, 0]"]
  by (force simp: reader_view_def demo_defs)


section \<open>The shape of a pipe\<close>

text \<open>
  Both channels keep their capacity and never hold more, every handle carries the one
  address the pipe was made with, and hang-ups, loops and flag agree (\<open>wiring_ok\<close>).
\<close>

definition within_bounds :: "bytes fifo \<Rightarrow> bool" where
  "within_bounds f \<longleftrightarrow> capacity f = Some 100000 \<and> length (queue f) \<le> 100000"

definition pipe_ok :: "('c \<Rightarrow> bytes fifo) \<Rightarrow> string \<Rightarrow> 'c pipe_sys \<Rightarrow> bool" where
  "pipe_ok view addr s \<longleftrightarrow>
     within_bounds (view (inner_send (wires s))) \<and> within_bounds (view (inner_recv (wires s))) \<and>
     (\<forall>h \<in> set (handles s). peer_url h = addr) \<and> wiring_ok view s"

lemma within_bounds_push [intro]:
  "within_bounds f \<Longrightarrow> \<not> fifo_full f \<Longrightarrow> within_bounds (fifo_push f x)"
  by (simp add: within_bounds_def fifo_full_def fifo_push_def)

lemma within_bounds_pop:
  "within_bounds f \<Longrightarrow> queue f = x # queue f' \<Longrightarrow> f' = f\<lparr>queue := queue f'\<rparr> \<Longrightarrow> within_bounds f'"
  by (simp add: within_bounds_def)
     (metis Suc_leD fifo.select_convs(2) fifo.surjective fifo.update_convs(1) length_Cons)

lemma within_bounds_hang_up [simp]: "within_bounds (fifo_hang_up f) = within_bounds f"
  by (simp add: within_bounds_def fifo_hang_up_def)

context pipe_channel
begin

lemma chan_bounds:
  "try_recv api c = Inr (x, c1) \<Longrightarrow> within_bounds (view c) \<Longrightarrow> within_bounds (view c1)"
  "recv_await api c = Ready (Inr (x, c2)) \<Longrightarrow> within_bounds (view c) \<Longrightarrow> within_bounds (view c2)"
  "send_await api c x = Ready (Inr c3) \<Longrightarrow> within_bounds (view c) \<Longrightarrow> within_bounds (view c3)"
  by (blast intro: within_bounds_pop dest: try_recv_Inr, blast intro: within_bounds_pop dest: recv_await_Inr,
      simp add: send_await_Inr within_bounds_push)

lemma poll_write_bounds:
  assumes "poll_write api w msg = (r, w')" and "within_bounds (view (inner_send w))"
  shows "within_bounds (view (inner_send w'))"
  using write_outcome [OF assms(1)] assms(2) by (auto split: if_splits)

lemma poll_read_bounds:
  assumes "poll_read api w h buf = Ok (p, buf', w', h')" and "within_bounds (view (inner_recv w))"
  shows "within_bounds (view (inner_recv w'))"
proof (cases "length buf < length (recv_buf h)")
  case True
  with assms show ?thesis by (auto simp: poll_read_leftover)
next
  case False
  with assms show ?thesis
    by (cases "try_recv api (inner_recv w)")
      (auto simp: poll_read_cases chan_bounds(1))
qed

lemma send_loop_bounds:
  assumes "send_loop_step api ok w pc = Some (w', pc')" and "within_bounds (view (inner_send w))"
  shows "within_bounds (view (inner_send w'))"
  using assms by (cases pc)
    (auto simp: chan_bounds(2) split: poll.splits sum.splits if_splits)

lemma recv_loop_bounds:
  assumes "recv_loop_step api item w pc = Some (w', pc')" and "within_bounds (view (inner_recv w))"
  shows "within_bounds (view (inner_recv w'))"
  using assms by (cases pc)
    (auto simp: chan_bounds(3) split: poll.splits sum.splits if_splits ws_item.splits ws_message.splits)

lemma pipe_ok_start: "pipe_ok view (url @ ''#'' @ md) (start_pipe api url md)"
  using wiring_start [of url md]
  by (simp add: pipe_ok_def start_pipe_def new_pipe_def view_bounded bounded_def within_bounds_def)

lemma pipe_ok_step:
  assumes ok: "pipe_ok view addr s" and st: "pipe_step api s e s'"
  shows "pipe_ok view addr s'"
proof -
  have W: "wiring_ok view s'" using ok wiring_step [OF _ st] by (simp add: pipe_ok_def)
  from st show ?thesis
  proof cases
    case (step_write msg r w)
    with ok W poll_write_bounds [of "wires s" msg r w] poll_write_frame [of api "wires s" msg r w]
    show ?thesis by (simp add: pipe_ok_def)
  next
    case (step_read i buf p buf' w h)
    then have "peer_url (handles s ! i) = addr" using ok by (simp add: pipe_ok_def)
    with step_read ok W poll_read_bounds [OF step_read(4)] poll_read_frame [OF step_read(4)]
    show ?thesis by (auto simp: pipe_ok_def dest!: set_update_subset_insert [THEN subsetD])
  next
    case (send_sink msg ok' w pc)
    with ok W send_loop_bounds [OF send_sink(5)] send_loop_step_hung_up(2) [OF send_sink(5)]
    show ?thesis by (simp add: pipe_ok_def)
  next
    case (send_other ok' w pc)
    with ok W send_loop_bounds [OF send_other(5)] send_loop_step_hung_up(2) [OF send_other(5)]
    show ?thesis by (simp add: pipe_ok_def)
  next
    case (recv_item item w pc)
    with ok W recv_loop_bounds [OF recv_item(5)] recv_loop_step_hung_up(2) [OF recv_item(5)]
    show ?thesis by (simp add: pipe_ok_def)
  next
    case (recv_other item w pc)
    with ok W recv_loop_bounds [OF recv_other(5)] recv_loop_step_hung_up(2) [OF recv_other(5)]
    show ?thesis by (simp add: pipe_ok_def)
  qed (use ok W in \<open>auto simp: pipe_ok_def clone_pipe_def poll_close_def hang_up_both_def view_hang_up\<close>)
qed

end

sublocale pipe_channel \<subseteq> shape: history_invariant "pipe_step api"
  "\<lambda>s. \<exists>url md. addr = url @ ''#'' @ md \<and> s = start_pipe api url md" "\<lambda>evs s. pipe_ok view addr s"
  for addr
  by unfold_locales (use pipe_ok_start in \<open>auto intro: pipe_ok_step\<close>)

context pipe_channel
begin

lemma run_shape:
  "run (pipe_step api) (start_pipe api url md) evs s \<Longrightarrow> pipe_ok view (url @ ''#'' @ md) s"
  by (rule shape.inv_run) auto

end

text \<open>
  Property C9. Every pipe, at every moment of every run, is well-formed: both channels keep
  their capacity of 100000 and never hold more, all handles (clones included) carry the URL
  and the metadata the pipe was made with, a channel is hung up only when the task or the
  handles are gone, and a loop that has returned has set the flag. What a handle answers
  about its peer depends on the flag alone.
\<close>

theorem pipe_stays_well_formed:
  assumes "pipe_channel api view" and "run (pipe_step api) (start_pipe api url md) evs s"
  shows "pipe_ok view (url @ ''#'' @ md) s \<and>
     (\<forall>h \<in> set (handles s). remote_addr (wires s) h =
        (if is_closed (wires s) then None else Some (url @ ''#'' @ md)))"
  using pipe_channel.run_shape [OF assms] by (auto simp: pipe_ok_def remote_addr_def)

theorem pipe_stays_well_formed_witness:
  "\<exists>evs s. run (pipe_step fifo_api) demo_start evs s \<and> evs \<noteq> [] \<and> pipe_ok id ''ws://a/#k'' s"
  using pipe_stays_well_formed [OF fifo_pipe.pipe_channel_axioms
      demo_recv_run [unfolded demo_start_def]] demo_recv_run
  by (force simp: demo_start_def)


section \<open>The way out\<close>

text \<open>Steps of the task alone, with a websocket that accepts what it is given.\<close>

definition task_only :: "event list \<Rightarrow> bool" where
  "task_only evs \<longleftrightarrow> (\<forall>e \<in> set evs. e = EvInternal \<or> (\<exists>m. e = EvSink m True))"

lemma task_only_simps [simp]: "task_only []" "task_only (evs @ [e]) \<longleftrightarrow> task_only evs \<and> task_only [e]"
  by (auto simp: task_only_def)

lemma accepted_append: "accepted (evs @ evs') = accepted evs @ accepted evs'"
  by (simp add: accepted_def)

text \<open>How many such steps a pipe can still take: three for every queued message, and those
  that the message being sent and the message being received need.\<close>

fun send_left :: "send_pc \<Rightarrow> nat" where
  "send_left SendCheck = 1"
| "send_left (SendWs m) = 2"
| "send_left _ = 0"

fun recv_left :: "recv_pc \<Rightarrow> nat" where
  "recv_left RecvCheck = 1"
| "recv_left (RecvPush m) = 2"
| "recv_left _ = 0"

definition steps_left :: "('c \<Rightarrow> bytes fifo) \<Rightarrow> 'c pipe_sys \<Rightarrow> nat" where
  "steps_left view s = 3 * length (queue (view (inner_send (wires s)))) + send_left (spc s) + recv_left (rpc s)"

text \<open>An open pipe whose task is at work.\<close>

definition at_work :: "('c \<Rightarrow> bytes fifo) \<Rightarrow> 'c pipe_sys \<Rightarrow> bool" where
  "at_work view s \<longleftrightarrow> \<not> race_over s \<and> \<not> closed (wires s) \<and>
     \<not> hung_up (view (inner_send (wires s))) \<and> \<not> hung_up (view (inner_recv (wires s)))"

lemma at_work_pcs: "at_work view s \<Longrightarrow> \<not> send_over (spc s) \<and> \<not> recv_over (rpc s)"
  by (simp add: at_work_def race_over_def)

context pipe_channel
begin

lemma open_at_work:
  assumes "wiring_ok view s" and "handles s \<noteq> []" and "\<not> closed (wires s)"
  shows "at_work view s"
  using assms by (auto simp: wiring_ok_def at_work_def)

lemma send_step_works:
  assumes "at_work view s" and "send_loop_step api True (wires s) (spc s) = Some (w, pc)"
  shows "at_work view (s\<lparr>wires := w, spc := pc\<rparr>) \<and>
     3 * length (queue (view (inner_send w))) + send_left pc <
     3 * length (queue (view (inner_send (wires s)))) + send_left (spc s)"
proof (cases "spc s")
  case SendRecv
  have "recv_await api (inner_send (wires s)) \<noteq> Ready (Inl e)" for e
    using recv_await_Inl(1) [of "inner_send (wires s)" e] assms(1) by (auto simp: at_work_def)
  with SendRecv assms(2) obtain m c where "recv_await api (inner_send (wires s)) = Ready (Inr (m, c))"
    "w = (wires s)\<lparr>inner_send := c\<rparr>" "pc = SendWs m"
    by (auto split: poll.splits sum.splits)
  with assms(1) show ?thesis
    using recv_await_Inr(1) hung_up_kept(4)
    by (auto simp: at_work_def race_over_def send_over_def)
qed (use assms in \<open>auto simp: at_work_def race_over_def send_over_def\<close>)

lemma recv_step_works:
  assumes "at_work view s" and "rpc s \<noteq> RecvNext"
    and "recv_loop_step api item (wires s) (rpc s) = Some (w, pc)"
  shows "at_work view (s\<lparr>wires := w, rpc := pc\<rparr>) \<and> recv_left pc < recv_left (rpc s) \<and>
     inner_send w = inner_send (wires s)"
  using assms hung_up_kept
  by (cases "rpc s") (auto simp: at_work_def race_over_def recv_over_def dest!: send_await_Inl
      split: poll.splits sum.splits)

lemma task_step_works:
  assumes "at_work view s" and "pipe_step api s e s'" and "task_only [e]"
  shows "at_work view s' \<and> steps_left view s' < steps_left view s \<and> accepted1 e = []"
  using assms(2)
proof cases
  case (send_sink msg ok w pc)
  with assms(3) have "ok" by (simp add: task_only_def)
  with send_step_works [OF assms(1)] send_sink show ?thesis by (fastforce simp: steps_left_def)
next
  case (send_other ok w pc)
  then have "send_loop_step api True (wires s) (spc s) = Some (w, pc)" by (cases "spc s") auto
  with send_step_works [OF assms(1)] send_other show ?thesis by (fastforce simp: steps_left_def)
next
  case (recv_other item w pc)
  with recv_step_works [OF assms(1)] show ?thesis by (fastforce simp: steps_left_def)
next
  case task_ends
  with assms(1) show ?thesis by (simp add: at_work_def)
qed (use assms(3) in \<open>simp_all add: task_only_def\<close>)

lemma task_run_works:
  assumes "run (pipe_step api) s evs s'" and "at_work view s" and "task_only evs"
  shows "at_work view s' \<and> length evs + steps_left view s' \<le> steps_left view s \<and> accepted evs = []"
  using assms
proof (induction rule: run.induct)
  case (run_step s evs s' e s'')
  then have "at_work view s'" "length evs + steps_left view s' \<le> steps_left view s" "accepted evs = []" by simp_all
  with task_step_works [OF this(1) run_step(2)] run_step(5) show ?case by simp
qed simp

text \<open>The task of an open pipe stops only where nothing is left to send.\<close>

lemma work_left:
  assumes "at_work view s" and "sending (spc s) @ queue (view (inner_send (wires s))) \<noteq> []"
  shows "\<exists>e s'. pipe_step api s e s' \<and> task_only [e]"
proof -
  have step: "\<exists>w pc. send_loop_step api True (wires s) (spc s) = Some (w, pc)"
  proof (cases "spc s")
    case SendRecv
    with assms(2) obtain m ms where "queue (view (inner_send (wires s))) = m # ms"
      by (cases "queue (view (inner_send (wires s)))") auto
    then obtain c where "recv_await api (inner_send (wires s)) = Ready (Inr (m, c))" by (rule recv_await_Cons)
    with SendRecv show ?thesis by simp
  qed (use at_work_pcs [OF assms(1)] in \<open>simp_all add: send_over_def\<close>)
  then obtain w pc where st: "send_loop_step api True (wires s) (spc s) = Some (w, pc)" by blast
  have "\<not> race_over s" using assms(1) by (simp add: at_work_def)
  then show ?thesis
    using send_sink [OF _ _ st] send_other [OF _ _ st]
    by (cases "\<exists>m. spc s = SendWs m") (fastforce simp: task_only_def)+
qed

end

text \<open>
  Property C8. The background task of an open pipe, with a websocket that accepts what it is
  given and no call of a handle in between, sends everything the pipe has taken. Whatever
  order its two loops run in, the pipe stays open, the task takes at most three steps for
  every queued message and four more, and it comes to rest only when every message that was
  taken has been handed over, in order, and the channel is empty.
\<close>

theorem open_pipe_drains:
  assumes "pipe_channel api view" and "run (pipe_step api) (start_pipe api url md) evs s"
    and "handles s \<noteq> []" and "\<not> closed (wires s)"
    and "run (pipe_step api) s evs' s'" and "task_only evs'"
  shows "\<not> closed (wires s') \<and>
     length evs' \<le> 3 * length (queue (view (inner_send (wires s)))) + 4 \<and>
     prefix (handed_over (evs @ evs')) (accepted evs) \<and>
     ((\<forall>e s''. pipe_step api s' e s'' \<longrightarrow> \<not> task_only [e]) \<longrightarrow>
        handed_over (evs @ evs') = accepted evs \<and> queue (view (inner_send (wires s'))) = [])"
proof -
  have "at_work view s"
    by (rule pipe_channel.open_at_work [OF assms(1) _ assms(3,4)])
      (rule pipe_channel.run_wiring [OF assms(1,2)])
  from pipe_channel.task_run_works [OF assms(1,5) this assms(6)]
  have work: "at_work view s'" "length evs' \<le> steps_left view s" "accepted evs' = []" by simp_all
  have "send_left (spc s) \<le> 2 \<and> recv_left (rpc s) \<le> 2" by (cases "spc s"; cases "rpc s") simp_all
  moreover have "accepted evs = handed_over (evs @ evs') @ sending (spc s') @ queue (view (inner_send (wires s')))"
    using pipe_channel.run_sent [OF assms(1) run_trans [OF assms(2,5)]] work(3)
    by (simp add: sent_in_order_def accepted_append)
  moreover have "sending (spc s') @ queue (view (inner_send (wires s'))) = []"
    if "\<forall>e s''. pipe_step api s' e s'' \<longrightarrow> \<not> task_only [e]"
    using pipe_channel.work_left [OF assms(1) work(1)] that by blast
  ultimately show ?thesis using work by (auto simp: at_work_def steps_left_def)
qed

text \<open>The witness lets the task send the one message that waits; then no step is left.\<close>

lemma demo_rest:
  "pipe_step fifo_api (demo_sys [] [] [] False SendRecv RecvNext) e s'' \<Longrightarrow> \<not> task_only [e]"
  by (erule pipe_step.cases) (auto simp: task_only_def demo_sys_defs race_over_def send_over_def recv_over_def)

theorem open_pipe_drains_witness:
  "\<exists>evs s evs' s'. run (pipe_step fifo_api) demo_start evs s \<and> accepted evs = [[1, 2], [3]] \<and>
     handed_over evs = [[1, 2]] \<and> run (pipe_step fifo_api) s evs' s' \<and> task_only evs' \<and>
     handed_over (evs @ evs') = [[1, 2], [3]]"
proof -
  let ?evs = "[EvWrite [1, 2] True (Ready (Inr 2)), EvInternal, EvInternal, EvSink [1, 2] True,
    EvWrite [3] True (Ready (Inr 1))]"
  let ?evs' = "[EvInternal, EvInternal, EvSink [3] True, EvInternal, EvInternal]"
  let ?s = "demo_sys [[3]] [] [] False SendCheck RecvCheck" and ?s' = "demo_sys [] [] [] False SendRecv RecvNext"
  have r: "run (pipe_step fifo_api) ?s ?evs' ?s'"
    by (rule run_cons, rule demo_check, simp add: recv_over_def,
        rule run_cons, rule demo_take, simp add: recv_over_def,
        rule run_cons, rule demo_sink, simp add: recv_over_def,
        rule run_cons, rule demo_check, simp add: recv_over_def,
        rule run_cons, rule demo_recv_check, simp add: send_over_def, rule run_start)
  have "handed_over (?evs @ ?evs') = accepted ?evs"
    using open_pipe_drains [OF fifo_pipe.pipe_channel_axioms demo_send_run [unfolded demo_start_def] _ _ r] demo_rest
    by (force simp: demo_sys_def task_only_def)
  moreover have "accepted ?evs = [[1, 2], [3]]" "handed_over ?evs = [[1, 2]]" "task_only ?evs'"
    by (simp_all add: accepted_def handed_over_def task_only_def)
  ultimately show ?thesis using demo_send_run r
    by (intro exI [of _ ?evs] exI [of _ ?s] exI [of _ ?evs'] exI [of _ ?s']) simp
qed

end
