(* ===== verification/Wake.thy ===== *)
theory Wake
  imports PipeTask
begin

text \<open>
  Who is woken when. A future that is not ready has to leave its waker where the event it
  waits for will find it; an executor polls a task again only when one of its wakers was
  used. This theory puts the pipe of theory \<open>PipeTask\<close> (\<open>src/pipe.rs\<close>, one handle) under
  such an executor, with two tasks that can sleep: the background task, which awaits the
  channels and the websocket, and a reader of the handle, which is polled through
  \<open>poll_read\<close>. The other operations of a handle never wait.
\<close>


section \<open>Polls with their wakers\<close>

datatype waker = TaskWaker | ReaderWaker

text \<open>The waiters are those at \<open>inner_send\<close> and at \<open>inner_recv\<close> for a message, and at
  \<open>inner_recv\<close> for room. The channel uses them when a message is queued, one is taken, or
  it is closed (\<open>smol::channel\<close>).\<close>

record 'c sched =
  pipe :: "'c pipe_sys"
  awake :: "waker set"
  msg_waiters :: "waker set"
  data_waiters :: "waker set"
  room_waiters :: "waker set"

definition wake_msg :: "'c sched \<Rightarrow> 'c sched" where
  "wake_msg x = x\<lparr>awake := awake x \<union> msg_waiters x, msg_waiters := {}\<rparr>"

definition wake_data :: "'c sched \<Rightarrow> 'c sched" where
  "wake_data x = x\<lparr>awake := awake x \<union> data_waiters x, data_waiters := {}\<rparr>"

definition wake_room :: "'c sched \<Rightarrow> 'c sched" where
  "wake_room x = x\<lparr>awake := awake x \<union> room_waiters x, room_waiters := {}\<rparr>"

text \<open>\<open>poll_read\<close> with its context: it asks the channel by \<open>try_recv\<close>, which leaves no waker,
  and does not use \<open>_ctx\<close>. The second result is who waits for data afterwards.\<close>

definition poll_read_ctx ::
  "('c, bytes) chan_api \<Rightarrow> waker \<Rightarrow> waker set \<Rightarrow> 'c wires \<Rightarrow> pipe_handle \<Rightarrow> bytes \<Rightarrow>
   (io_error_kind, nat poll \<times> bytes \<times> 'c wires \<times> pipe_handle) outcome \<times> waker set" where
  "poll_read_ctx api ctx waiters w h buf = (poll_read api w h buf, waiters)"

text \<open>\<open>inner_send_rx.recv().await\<close> in \<open>send_loop\<close> and \<open>inner_recv_tx.send(..).await\<close> in
  \<open>recv_loop\<close>: a future of the channel that is not ready leaves the waker there. The
  websocket keeps the waker of its own futures.\<close>

definition send_loop_waits ::
  "('c, bytes) chan_api \<Rightarrow> waker \<Rightarrow> waker set \<Rightarrow> 'c wires \<Rightarrow> send_pc \<Rightarrow> (waker set) option" where
  "send_loop_waits api ctx waiters w pc =
     (case pc of
        SendRecv \<Rightarrow> (case recv_await api (inner_send w) of Pending \<Rightarrow> Some (insert ctx waiters) | Ready r \<Rightarrow> None)
      | SendWs msg \<Rightarrow> Some waiters
      | _ \<Rightarrow> None)"

definition recv_loop_waits ::
  "('c, bytes) chan_api \<Rightarrow> waker \<Rightarrow> waker set \<Rightarrow> 'c wires \<Rightarrow> recv_pc \<Rightarrow> (waker set) option" where
  "recv_loop_waits api ctx waiters w pc =
     (case pc of
        RecvNext \<Rightarrow> Some waiters
      | RecvPush msg \<Rightarrow>
          (case send_await api (inner_recv w) msg of Pending \<Rightarrow> Some (insert ctx waiters) | Ready r \<Rightarrow> None)
      | _ \<Rightarrow> None)"


section \<open>The executor\<close>

text \<open>Whether a step of the pipe queues a message for readers, or takes one from the queue.\<close>

definition pushes :: "'c pipe_sys \<Rightarrow> 'c pipe_sys \<Rightarrow> bool" where
  "pushes p p' \<longleftrightarrow> (\<exists>msg. rpc p = RecvPush msg) \<and> rpc p' = RecvCheck"

definition takes :: "('c, bytes) chan_api \<Rightarrow> 'c wires \<Rightarrow> pipe_handle \<Rightarrow> bytes \<Rightarrow> bool" where
  "takes api w h buf \<longleftrightarrow>
     length (recv_buf h) \<le> length buf \<and> (case try_recv api (inner_recv w) of Inl e \<Rightarrow> False | Inr r \<Rightarrow> True)"

definition wake_all :: "'c sched \<Rightarrow> 'c sched" where
  "wake_all x = wake_msg (wake_data (wake_room x))"

datatype sched_event =
    SPipe event | SReady bytes | SPending bytes | SPark | SSocketWakes | SOtherWakes

fun of_closer :: "event \<Rightarrow> bool" where
  "of_closer (EvFlush r) = True"
| "of_closer EvClose = True"
| "of_closer _ = False"

text \<open>A poll of the reader carries the bytes it got, or those it lost. \<open>SOtherWakes\<close> is any wake-up
  of the reader that does not come from the pipe, such as a timer it races the read with.\<close>

inductive sched_step :: "('c, bytes) chan_api \<Rightarrow> 'c sched \<Rightarrow> sched_event \<Rightarrow> 'c sched \<Rightarrow> bool"
  for api :: "('c, bytes) chan_api" where
  sched_write:
    "pipe_step api (pipe x) (EvWrite msg taken r) p \<Longrightarrow>
     sched_step api x (SPipe (EvWrite msg taken r))
       (if taken then wake_msg (x\<lparr>pipe := p\<rparr>) else x\<lparr>pipe := p\<rparr>)"
| sched_closer:
    "of_closer e \<Longrightarrow> pipe_step api (pipe x) e p \<Longrightarrow> sched_step api x (SPipe e) (x\<lparr>pipe := p\<rparr>)"
| sched_drop:
    "pipe_step api (pipe x) EvDrop p \<Longrightarrow> sched_step api x (SPipe EvDrop) (wake_all (x\<lparr>pipe := p\<rparr>))"
| sched_task:
    "TaskWaker \<in> awake x \<Longrightarrow> of_task e \<Longrightarrow> pipe_step api (pipe x) e p \<Longrightarrow>
     y = x\<lparr>pipe := p\<rparr> \<Longrightarrow>
     sched_step api x (SPipe e)
       (if task_gone p then wake_all y else if pushes (pipe x) p then wake_data y else y)"
| sched_park:
    "TaskWaker \<in> awake x \<Longrightarrow> \<not> race_over (pipe x) \<Longrightarrow>
     send_loop_waits api TaskWaker (msg_waiters x) (wires (pipe x)) (spc (pipe x)) = Some ms \<Longrightarrow>
     recv_loop_waits api TaskWaker (room_waiters x) (wires (pipe x)) (rpc (pipe x)) = Some rs \<Longrightarrow>
     sched_step api x SPark
       (x\<lparr>awake := awake x - {TaskWaker}, msg_waiters := ms, room_waiters := rs\<rparr>)"
| sched_socket:
    "(\<exists>msg. spc (pipe x) = SendWs msg) \<or> rpc (pipe x) = RecvNext \<Longrightarrow>
     sched_step api x SSocketWakes (x\<lparr>awake := insert TaskWaker (awake x)\<rparr>)"
| sched_read_ready:
    "ReaderWaker \<in> awake x \<Longrightarrow> handles (pipe x) = [h] \<Longrightarrow>
     poll_read_ctx api ReaderWaker (data_waiters x) (wires (pipe x)) h buf = (Ok (Ready n, buf', w, h'), ds) \<Longrightarrow>
     y = x\<lparr>pipe := (pipe x)\<lparr>wires := w, handles := [h']\<rparr>, data_waiters := ds\<rparr> \<Longrightarrow>
     sched_step api x (SReady (take n buf'))
       (if takes api (wires (pipe x)) h buf then wake_room y else y)"
| sched_read_pending:
    "ReaderWaker \<in> awake x \<Longrightarrow> handles (pipe x) = [h] \<Longrightarrow>
     poll_read_ctx api ReaderWaker (data_waiters x) (wires (pipe x)) h buf = (Ok (Pending, buf', w, h'), ds) \<Longrightarrow>
     sched_step api x (SPending (recv_buf h))
       (x\<lparr>pipe := (pipe x)\<lparr>wires := w, handles := [h']\<rparr>, data_waiters := ds, awake := awake x - {ReaderWaker}\<rparr>)"
| sched_other:
    "sched_step api x SOtherWakes (x\<lparr>awake := insert ReaderWaker (awake x)\<rparr>)"

definition start_sched :: "('c, bytes) chan_api \<Rightarrow> string \<Rightarrow> string \<Rightarrow> 'c sched" where
  "start_sched api url md =
     \<lparr>pipe = start_pipe api url md, awake = {TaskWaker, ReaderWaker}, msg_waiters = {}, data_waiters = {},
      room_waiters = {}\<rparr>"

text \<open>What happens at the pipe.\<close>

fun pipe_view1 :: "sched_event \<Rightarrow> event list" where
  "pipe_view1 (SPipe e) = [e]"
| "pipe_view1 (SReady d) = [EvRead d []]"
| "pipe_view1 (SPending l) = [EvRead [] l]"
| "pipe_view1 _ = []"

definition pipe_view :: "sched_event list \<Rightarrow> event list" where
  "pipe_view evs = concat (map pipe_view1 evs)"

lemma pipe_view_simps [simp]: "pipe_view [] = []" "pipe_view (evs @ [e]) = pipe_view evs @ pipe_view1 e"
  by (simp_all add: pipe_view_def)

lemma wake_simps [simp]:
  "pipe (wake_msg x) = pipe x" "pipe (wake_data x) = pipe x" "pipe (wake_room x) = pipe x" "pipe (wake_all x) = pipe x"
  by (simp_all add: wake_msg_def wake_data_def wake_room_def wake_all_def)

lemmas wake_defs = wake_all_def wake_msg_def wake_data_def wake_room_def

text \<open>A run under the executor is a run of the pipe: scheduling only takes steps away.\<close>

lemma sched_step_pipe:
  assumes "sched_step api x e y"
  shows "run (pipe_step api) (pipe x) (pipe_view1 e) (pipe y)"
proof -
  have one: "pipe_step api p ev p' \<Longrightarrow> run (pipe_step api) p [ev] p'" for p ev p'
    by (rule run_cons [OF _ run_start])
  from assms show ?thesis
  proof cases
    case (sched_read_ready h buf n buf' w h' ds z)
    have "pipe_step api (pipe x) (EvRead (received (Ready n) buf') (read_loss (Ready n) (handles (pipe x) ! 0)))
        ((pipe x)\<lparr>wires := w, handles := (handles (pipe x))[0 := h']\<rparr>)"
      by (rule step_read) (use sched_read_ready(4,5) in \<open>auto simp: poll_read_ctx_def\<close>)
    with sched_read_ready show ?thesis by (simp add: one read_loss_def)
  next
    case (sched_read_pending h buf buf' w h' ds)
    have "pipe_step api (pipe x) (EvRead (received Pending buf') (read_loss Pending (handles (pipe x) ! 0)))
        ((pipe x)\<lparr>wires := w, handles := (handles (pipe x))[0 := h']\<rparr>)"
      by (rule step_read) (use sched_read_pending(4,5) in \<open>auto simp: poll_read_ctx_def\<close>)
    with sched_read_pending show ?thesis by (simp add: one read_loss_def)
  qed (auto simp: one run_start)
qed

lemma sched_run_pipe:
  "run (sched_step api) x evs y \<Longrightarrow> run (pipe_step api) (pipe x) (pipe_view evs) (pipe y)"
proof (induction rule: run.induct)
  case (run_step x evs y e z)
  from run_trans [OF run_step(3) sched_step_pipe [OF run_step(2)]] show ?case by simp
qed (simp add: run_start)


section \<open>Who sleeps, and who is woken\<close>

text \<open>The task sleeps only where nothing of the channels can move, and where its waker will be
  found; the reader's waker is nowhere.\<close>

definition send_asleep :: "('c \<Rightarrow> bytes fifo) \<Rightarrow> waker set \<Rightarrow> 'c \<Rightarrow> send_pc \<Rightarrow> bool" where
  "send_asleep view waiters c pc \<longleftrightarrow>
     (case pc of
        SendRecv \<Rightarrow> TaskWaker \<in> waiters \<and> queue (view c) = [] \<and> \<not> hung_up (view c)
      | SendWs msg \<Rightarrow> True
      | _ \<Rightarrow> False)"

definition recv_asleep :: "('c \<Rightarrow> bytes fifo) \<Rightarrow> waker set \<Rightarrow> 'c \<Rightarrow> recv_pc \<Rightarrow> bool" where
  "recv_asleep view waiters c pc \<longleftrightarrow>
     (case pc of
        RecvNext \<Rightarrow> True
      | RecvPush msg \<Rightarrow> TaskWaker \<in> waiters \<and> fifo_full (view c) \<and> \<not> hung_up (view c)
      | _ \<Rightarrow> False)"

definition sched_ok :: "('c \<Rightarrow> bytes fifo) \<Rightarrow> 'c sched \<Rightarrow> bool" where
  "sched_ok view x \<longleftrightarrow>
     (TaskWaker \<notin> awake x \<longrightarrow>
        send_asleep view (msg_waiters x) (inner_send (wires (pipe x))) (spc (pipe x)) \<and>
        recv_asleep view (room_waiters x) (inner_recv (wires (pipe x))) (rpc (pipe x))) \<and>
     ReaderWaker \<notin> msg_waiters x \<and> ReaderWaker \<notin> data_waiters x \<and> ReaderWaker \<notin> room_waiters x"

text \<open>A loop that nobody has to wake waits for the websocket.\<close>

lemma asleep_unwoken:
  "TaskWaker \<notin> waiters \<Longrightarrow> send_asleep view waiters c pc \<longleftrightarrow> (\<exists>msg. pc = SendWs msg)"
  "TaskWaker \<notin> waiters \<Longrightarrow> recv_asleep view waiters c pc' \<longleftrightarrow> pc' = RecvNext"
  by (auto simp: send_asleep_def recv_asleep_def split: send_pc.splits recv_pc.splits)

lemma asleep_ws:
  "send_asleep view waiters c (SendWs msg)" "recv_asleep view waiters c RecvNext"
  by (simp_all add: send_asleep_def recv_asleep_def)

lemma wake_memb [simp]:
  "w \<in> awake (wake_msg x) \<longleftrightarrow> w \<in> awake x \<or> w \<in> msg_waiters x"
  "w \<in> awake (wake_data x) \<longleftrightarrow> w \<in> awake x \<or> w \<in> data_waiters x"
  "w \<in> awake (wake_room x) \<longleftrightarrow> w \<in> awake x \<or> w \<in> room_waiters x"
  "w \<in> awake (wake_all x) \<longleftrightarrow> w \<in> awake x \<or> w \<in> msg_waiters x \<or> w \<in> data_waiters x \<or> w \<in> room_waiters x"
  by (auto simp: wake_defs)

lemma wake_waiters [simp]:
  "msg_waiters (wake_msg x) = {}" "data_waiters (wake_msg x) = data_waiters x" "room_waiters (wake_msg x) = room_waiters x"
  "msg_waiters (wake_data x) = msg_waiters x" "data_waiters (wake_data x) = {}" "room_waiters (wake_data x) = room_waiters x"
  "msg_waiters (wake_room x) = msg_waiters x" "data_waiters (wake_room x) = data_waiters x" "room_waiters (wake_room x) = {}"
  "msg_waiters (wake_all x) = {}" "data_waiters (wake_all x) = {}" "room_waiters (wake_all x) = {}"
  by (simp_all add: wake_defs)

lemma write_not_taken:
  "poll_write api w msg = (r, w') \<Longrightarrow> \<not> write_taken api w msg \<Longrightarrow> w' = w"
  by (auto simp: poll_write_def write_taken_def split: sum.splits if_splits)

lemma read_not_taken:
  assumes "poll_read api w h buf = Ok (p, buf', w', h')" and "\<not> takes api w h buf"
  shows "w' = w"
proof (cases "length buf < length (recv_buf h)")
  case True
  with assms show ?thesis by (simp add: poll_read_leftover)
next
  case False
  with assms show ?thesis by (cases "try_recv api (inner_recv w)") (auto simp: takes_def poll_read_cases)
qed

lemma pending_takes_nothing:
  "poll_read api w h buf = Ok (Pending, buf', w', h') \<Longrightarrow> \<not> takes api w h buf"
  by (cases "try_recv api (inner_recv w)") (auto simp: takes_def poll_read_cases)

context pipe_channel
begin

lemma recv_pending_iff: "recv_await api c = Pending \<longleftrightarrow> queue (view c) = [] \<and> \<not> hung_up (view c)"
proof (cases "queue (view c)")
  case Nil
  then show ?thesis by (simp add: recv_await_Nil)
next
  case (Cons y ys)
  then obtain c' where "recv_await api c = Ready (Inr (y, c'))" by (rule recv_await_Cons)
  with Cons show ?thesis by simp
qed

lemma send_pending_iff: "send_await api c m = Pending \<longleftrightarrow> fifo_full (view c) \<and> \<not> hung_up (view c)"
proof (cases "hung_up (view c)")
  case True
  then show ?thesis by (simp add: send_await_closed)
next
  case open_c: False
  show ?thesis
  proof (cases "fifo_full (view c)")
    case True
    then show ?thesis
      using open_c send_await_Inr(3) [of c m] send_await_Inl [of c m] by (cases "send_await api c m") (auto, metis sum.exhaust)
  next
    case False
    with open_c obtain c' where "send_await api c m = Ready (Inr c')" by (rule send_await_open)
    with False show ?thesis by simp
  qed
qed

lemma sched_start: "sched_ok view (start_sched api url md)"
  by (simp add: sched_ok_def start_sched_def)

lemma sched_write_ok:
  assumes ok: "sched_ok view x" and st: "pipe_step api (pipe x) (EvWrite msg taken r) p"
  shows "sched_ok view (if taken then wake_msg (x\<lparr>pipe := p\<rparr>) else x\<lparr>pipe := p\<rparr>)"
  using st
proof (rule pipe_step_writeE)
  fix w
  assume p: "p = (pipe x)\<lparr>wires := w\<rparr>" and taken: "taken = write_taken api (wires (pipe x)) msg"
    and w: "poll_write api (wires (pipe x)) msg = (r, w)"
  with ok poll_write_frame [OF w] write_not_taken [OF w] show ?thesis
    by (cases taken) (auto simp: sched_ok_def asleep_unwoken asleep_ws)
qed

lemma sched_closer_ok:
  assumes "sched_ok view x" and "pipe_step api (pipe x) e p" and "of_closer e"
  shows "sched_ok view (x\<lparr>pipe := p\<rparr>)"
  using assms(2,1,3) by cases (auto simp: sched_ok_def poll_close_def)

lemma sched_drop_ok:
  assumes "sched_ok view x" and "pipe_step api (pipe x) EvDrop p"
  shows "sched_ok view (wake_all (x\<lparr>pipe := p\<rparr>))"
  using assms(2,1) by cases (auto simp: sched_ok_def asleep_unwoken asleep_ws)

lemma sched_park_ok:
  assumes "sched_ok view x"
    and "send_loop_waits api TaskWaker (msg_waiters x) (wires (pipe x)) (spc (pipe x)) = Some ms"
    and "recv_loop_waits api TaskWaker (room_waiters x) (wires (pipe x)) (rpc (pipe x)) = Some rs"
  shows "sched_ok view (x\<lparr>awake := awake x - {TaskWaker}, msg_waiters := ms, room_waiters := rs\<rparr>)"
  using assms
  by (auto simp: sched_ok_def send_asleep_def recv_asleep_def send_loop_waits_def recv_loop_waits_def
      recv_pending_iff send_pending_iff split: send_pc.splits recv_pc.splits poll.splits)

lemma sched_step_ok:
  assumes ok: "sched_ok view x" and st: "sched_step api x e y"
  shows "sched_ok view y"
  using st
proof cases
  case (sched_read_ready h buf n buf' w h' ds z)
  then have rd: "poll_read api (wires (pipe x)) h buf = Ok (Ready n, buf', w, h')" and ds: "ds = data_waiters x"
    by (auto simp: poll_read_ctx_def)
  from sched_read_ready ok poll_read_frame [OF rd] read_not_taken [OF rd] ds show ?thesis
    by (cases "takes api (wires (pipe x)) h buf") (auto simp: sched_ok_def asleep_unwoken asleep_ws)
next
  case (sched_read_pending h buf buf' w h' ds)
  then have rd: "poll_read api (wires (pipe x)) h buf = Ok (Pending, buf', w, h')" and ds: "ds = data_waiters x"
    by (auto simp: poll_read_ctx_def)
  from sched_read_pending ok read_not_taken [OF rd pending_takes_nothing [OF rd]] ds show ?thesis
    by (auto simp: sched_ok_def)
next
  case (sched_task e' p z)
  then show ?thesis using ok by (auto simp: sched_ok_def)
next
  case (sched_write msg taken r p)
  with sched_write_ok [OF ok] show ?thesis by simp
next
  case (sched_closer e' p)
  with sched_closer_ok [OF ok] show ?thesis by simp
next
  case (sched_drop p)
  with sched_drop_ok [OF ok] show ?thesis by simp
next
  case (sched_park ms rs)
  with sched_park_ok [OF ok] show ?thesis by simp
qed (use ok in \<open>simp_all add: sched_ok_def\<close>)

end

sublocale pipe_channel \<subseteq> scheduling: history_invariant "sched_step api"
  "\<lambda>x. x = start_sched api url md" "\<lambda>evs. sched_ok view" for url md
  by unfold_locales (use sched_start sched_step_ok in \<open>blast+\<close>)

context pipe_channel
begin

lemma run_sched: "run (sched_step api) (start_sched api url md) evs x \<Longrightarrow> sched_ok view x"
  by (rule scheduling.inv_run) auto

text \<open>Where a sleeping task stands, no step of its own is possible.\<close>

lemma asleep_no_step:
  assumes ok: "sched_ok view x" and sleeps: "TaskWaker \<notin> awake x"
  shows "\<not> pipe_step api (pipe x) EvInternal p"
proof
  assume "pipe_step api (pipe x) EvInternal p"
  then show False
  proof cases
    case (send_other ok' w pc)
    with ok sleeps recv_pending_iff [of "inner_send (wires (pipe x))"] show False
      by (cases "spc (pipe x)") (auto simp: sched_ok_def send_asleep_def)
  next
    case (recv_other item w pc)
    with ok sleeps send_pending_iff [of "inner_recv (wires (pipe x))"] show False
      by (cases "rpc (pipe x)") (auto simp: sched_ok_def recv_asleep_def)
  next
    case task_ends
    with ok sleeps show False
      by (cases "spc (pipe x)"; cases "rpc (pipe x)")
        (auto simp: sched_ok_def send_asleep_def recv_asleep_def pipe_op_defs)
  qed
qed

lemma reader_sleeps_step:
  assumes "sched_ok view x" and "ReaderWaker \<notin> awake x" and "sched_step api x e y" and "e \<noteq> SOtherWakes"
  shows "ReaderWaker \<notin> awake y \<and> (\<forall>d. e \<noteq> SReady d \<and> e \<noteq> SPending d) \<and> consumed (pipe_view1 e) = []"
  using assms(3,1,2,4)
proof cases
  case (sched_task e' p z)
  with assms(1,2) show ?thesis by (cases e') (auto simp: sched_ok_def consumed_def)
next
  case (sched_closer e' p)
  with assms(2) show ?thesis by (cases e') (auto simp: consumed_def)
qed (use assms(1,2,4) in \<open>auto simp: sched_ok_def consumed_def\<close>)

lemma reader_sleeps_run:
  assumes "run (sched_step api) x evs y" and "sched_ok view x" and "ReaderWaker \<notin> awake x"
    and "SOtherWakes \<notin> set evs"
  shows "ReaderWaker \<notin> awake y \<and> sched_ok view y \<and> (\<forall>d. SReady d \<notin> set evs \<and> SPending d \<notin> set evs) \<and>
     consumed (pipe_view evs) = []"
  using assms
proof (induction rule: run.induct)
  case (run_step x evs y e z)
  then have "ReaderWaker \<notin> awake y" "sched_ok view y" by auto
  with reader_sleeps_step [OF this(2,1) run_step(2)] sched_step_ok [OF this(2) run_step(2)] run_step show ?case
    by (auto simp: consumed_def)
qed simp

end


section \<open>What the wakers guarantee\<close>

text \<open>
  Property C12. No wake-up of the background task is lost. In every reachable state in which it
  sleeps, it has no step of its own: each loop waits for the websocket, whose wake-up it
  gets, or for its channel. \<open>send_loop\<close> sleeps over an empty channel only, and a message that
  a write then queues wakes the task; while it waits for the websocket to take a message,
  others may wait behind that one. \<open>recv_loop\<close> waits only for room in a full channel, and a
  read that takes a message wakes the task.
\<close>

theorem task_misses_no_wakeup:
  assumes "pipe_channel api view"
    and "run (sched_step api) (start_sched api url md) evs x" and "TaskWaker \<notin> awake x"
  shows "(\<forall>p. \<not> pipe_step api (pipe x) EvInternal p) \<and>
     (case spc (pipe x) of
        SendRecv \<Rightarrow> queue (view (inner_send (wires (pipe x)))) = [] \<and>
          (\<forall>msg r y. sched_step api x (SPipe (EvWrite msg True r)) y \<longrightarrow> TaskWaker \<in> awake y)
      | SendWs msg \<Rightarrow> (\<exists>y. sched_step api x SSocketWakes y \<and> TaskWaker \<in> awake y)
      | pc \<Rightarrow> False) \<and>
     (case rpc (pipe x) of
        RecvNext \<Rightarrow> (\<exists>y. sched_step api x SSocketWakes y \<and> TaskWaker \<in> awake y)
      | RecvPush msg \<Rightarrow> fifo_full (view (inner_recv (wires (pipe x)))) \<and>
          (\<forall>d y. sched_step api x (SReady d) y \<longrightarrow>
             queue (view (inner_recv (wires (pipe y)))) \<noteq> queue (view (inner_recv (wires (pipe x)))) \<longrightarrow>
             TaskWaker \<in> awake y)
      | pc \<Rightarrow> False)"
proof -
  have ok: "sched_ok view x" by (rule pipe_channel.run_sched [OF assms(1,2)])
  with assms(3) have asleep: "send_asleep view (msg_waiters x) (inner_send (wires (pipe x))) (spc (pipe x))"
    "recv_asleep view (room_waiters x) (inner_recv (wires (pipe x))) (rpc (pipe x))"
    by (simp_all add: sched_ok_def)
  have socket: "\<exists>y. sched_step api x SSocketWakes y \<and> TaskWaker \<in> awake y"
    if "(\<exists>msg. spc (pipe x) = SendWs msg) \<or> rpc (pipe x) = RecvNext"
    using sched_socket [OF that] by (intro exI conjI) (assumption, simp)
  have writing: "TaskWaker \<in> awake y"
    if "sched_step api x (SPipe (EvWrite msg True r)) y" and "TaskWaker \<in> msg_waiters x" for msg r y
    using that by cases auto
  have read: "TaskWaker \<in> awake y"
    if "sched_step api x (SReady d) y" and "TaskWaker \<in> room_waiters x"
      and "queue (view (inner_recv (wires (pipe y)))) \<noteq> queue (view (inner_recv (wires (pipe x))))" for d y
    using that(1)
  proof cases
    case (sched_read_ready h buf n buf' w h' ds z)
    then have "poll_read api (wires (pipe x)) h buf = Ok (Ready n, buf', w, h')"
      by (simp add: poll_read_ctx_def)
    from read_not_taken [OF this] sched_read_ready that(2,3) show ?thesis
      by (cases "takes api (wires (pipe x)) h buf") auto
  qed
  have "case spc (pipe x) of
        SendRecv \<Rightarrow> queue (view (inner_send (wires (pipe x)))) = [] \<and>
          (\<forall>msg r y. sched_step api x (SPipe (EvWrite msg True r)) y \<longrightarrow> TaskWaker \<in> awake y)
      | SendWs msg \<Rightarrow> (\<exists>y. sched_step api x SSocketWakes y \<and> TaskWaker \<in> awake y)
      | pc \<Rightarrow> False"
    using asleep(1) socket writing by (cases "spc (pipe x)") (auto simp: send_asleep_def)
  moreover have "case rpc (pipe x) of
        RecvNext \<Rightarrow> (\<exists>y. sched_step api x SSocketWakes y \<and> TaskWaker \<in> awake y)
      | RecvPush msg \<Rightarrow> fifo_full (view (inner_recv (wires (pipe x)))) \<and>
          (\<forall>d y. sched_step api x (SReady d) y \<longrightarrow>
             queue (view (inner_recv (wires (pipe y)))) \<noteq> queue (view (inner_recv (wires (pipe x)))) \<longrightarrow>
             TaskWaker \<in> awake y)
      | pc \<Rightarrow> False"
    using asleep(2) socket read by (cases "rpc (pipe x)") (auto simp: recv_asleep_def)
  ultimately show ?thesis using pipe_channel.asleep_no_step [OF assms(1) ok assms(3)] by blast
qed

text \<open>
  Property C38. A reader that was told \<open>Pending\<close> is never woken by the pipe. Until something else polls
  its task, it does not read again and gets nothing, however many messages arrive and
  whether or not the pipe ends.
\<close>

theorem pending_reader_is_not_woken:
  assumes "pipe_channel api view"
    and "run (sched_step api) (start_sched api url md) (evs @ SPending l # evs') x"
    and "SOtherWakes \<notin> set evs'"
  shows "ReaderWaker \<notin> awake x \<and> (\<forall>d. SReady d \<notin> set evs' \<and> SPending d \<notin> set evs') \<and>
     consumed (pipe_view (evs @ SPending l # evs')) = consumed (pipe_view evs) @ l"
proof -
  have "run (sched_step api) (start_sched api url md) ((evs @ [SPending l]) @ evs') x" using assms(2) by simp
  from run_split [OF this] obtain z where
    z: "run (sched_step api) (start_sched api url md) (evs @ [SPending l]) z" "run (sched_step api) z evs' x" by blast
  from z(1) obtain y where "sched_step api y (SPending l) z" by (cases rule: run.cases) auto
  then have "ReaderWaker \<notin> awake z" by cases auto
  from pipe_channel.reader_sleeps_run [OF assms(1) z(2) pipe_channel.run_sched [OF assms(1) z(1)] this assms(3)]
  show ?thesis by (auto simp: consumed_def pipe_view_def)
qed

text \<open>The executor with the pipe of the queues: the task goes to sleep and a write wakes it; a
  reader comes too early and sleeps over a message.\<close>

definition demo_sched :: "bytes fifo pipe_sys \<Rightarrow> waker set \<Rightarrow> bytes fifo sched" where
  "demo_sched p ws = \<lparr>pipe = p, awake = ws, msg_waiters = {}, data_waiters = {}, room_waiters = {}\<rparr>"

lemma demo_start_sched: "start_sched fifo_api ''ws://a/'' ''k'' = demo_sched demo_start {TaskWaker, ReaderWaker}"
  by (simp add: start_sched_def demo_sched_def demo_start_def)

lemma demo_sched_task:
  assumes "pipe_step fifo_api p e p'" and "of_task e" and "\<not> task_gone p'" and "TaskWaker \<in> ws"
  shows "sched_step fifo_api (demo_sched p ws) (SPipe e) (demo_sched p' ws)"
proof -
  have "wake_data (demo_sched p' ws) = demo_sched p' ws" by (simp add: demo_sched_def wake_defs)
  moreover have "pipe (demo_sched p ws) = p" "awake (demo_sched p ws) = ws"
    "demo_sched p' ws = (demo_sched p ws)\<lparr>pipe := p'\<rparr>" by (simp_all add: demo_sched_def)
  ultimately show ?thesis
    using sched_task [of "demo_sched p ws" e fifo_api p' "demo_sched p' ws"] assms by (auto split: if_splits)
qed

lemma demo_awake: "\<not> task_gone (demo_sys out inq kept flag pc pc')"
  by (simp add: demo_sys_def)

lemma demo_sleep_run:
  "run (sched_step fifo_api) (demo_sched demo_start {TaskWaker, ReaderWaker})
     [SPipe EvInternal, SPipe EvInternal, SPark]
     ((demo_sched (demo_sys [] [] [] False SendRecv RecvNext) {ReaderWaker})\<lparr>msg_waiters := {TaskWaker}\<rparr>)"
proof -
  let ?p = "demo_sys [] [] [] False SendRecv RecvNext"
  have "sched_step fifo_api (demo_sched ?p {TaskWaker, ReaderWaker}) SPark
      ((demo_sched ?p {TaskWaker, ReaderWaker})\<lparr>awake := {TaskWaker, ReaderWaker} - {TaskWaker},
         msg_waiters := {TaskWaker}, room_waiters := {}\<rparr>)"
    using sched_park [of "demo_sched ?p {TaskWaker, ReaderWaker}" fifo_api "{TaskWaker}" "{}"]
    by (simp add: demo_sched_def demo_sys_defs race_over_def send_over_def recv_over_def send_loop_waits_def
        recv_loop_waits_def)
  moreover have "(demo_sched ?p {TaskWaker, ReaderWaker})\<lparr>awake := {TaskWaker, ReaderWaker} - {TaskWaker},
      msg_waiters := {TaskWaker}, room_waiters := {}\<rparr> =
      (demo_sched ?p {ReaderWaker})\<lparr>msg_waiters := {TaskWaker}\<rparr>"
    by (simp add: demo_sched_def insert_Diff_if)
  ultimately have park: "sched_step fifo_api (demo_sched ?p {TaskWaker, ReaderWaker}) SPark
      ((demo_sched ?p {ReaderWaker})\<lparr>msg_waiters := {TaskWaker}\<rparr>)" by simp
  show ?thesis
    unfolding demo_start_sys
    by (rule run_cons, rule demo_sched_task, rule demo_check, simp add: recv_over_def, simp, rule demo_awake, simp,
        rule run_cons, rule demo_sched_task, rule demo_recv_check, simp add: send_over_def, simp, rule demo_awake, simp,
        rule run_cons, rule park, rule run_start)
qed

theorem task_misses_no_wakeup_witness:
  "\<exists>x y. run (sched_step fifo_api) (start_sched fifo_api ''ws://a/'' ''k'') [SPipe EvInternal, SPipe EvInternal, SPark] x \<and>
     TaskWaker \<notin> awake x \<and> sched_step fifo_api x (SPipe (EvWrite [1] True (Ready (Inr 1)))) y \<and> TaskWaker \<in> awake y"
proof -
  let ?p = "demo_sys [] [] [] False SendRecv RecvNext"
  let ?x = "(demo_sched ?p {ReaderWaker})\<lparr>msg_waiters := {TaskWaker}\<rparr>"
  have sleeps: "TaskWaker \<notin> awake ?x" and spc: "spc (pipe ?x) = SendRecv"
    by (simp_all add: demo_sched_def demo_sys_def)
  have "pipe_step fifo_api (pipe ?x) (EvWrite [1] True (Ready (Inr 1))) (demo_sys ([] @ [[1]]) [] [] False SendRecv RecvNext)"
    unfolding demo_sched_def sched.simps by (rule demo_write) simp_all
  from sched_write [OF this] have st: "sched_step fifo_api ?x (SPipe (EvWrite [1] True (Ready (Inr 1))))
      (wake_msg (?x\<lparr>pipe := demo_sys ([] @ [[1]]) [] [] False SendRecv RecvNext\<rparr>))" by simp
  from task_misses_no_wakeup [OF fifo_pipe.pipe_channel_axioms demo_sleep_run [folded demo_start_sched] sleeps,
      unfolded spc, simplified] st
  have "TaskWaker \<in> awake (wake_msg (?x\<lparr>pipe := demo_sys ([] @ [[1]]) [] [] False SendRecv RecvNext\<rparr>))" by blast
  with demo_sleep_run [folded demo_start_sched] sleeps st show ?thesis by blast
qed

lemma demo_early_run:
  "run (sched_step fifo_api) (demo_sched demo_start {TaskWaker, ReaderWaker})
     ([] @ SPending [] # [SPipe EvInternal, SPipe (EvItem (Item (Binary [5]))), SPipe EvInternal])
     (demo_sched (demo_sys [] [[5]] [] False SendCheck RecvCheck) {TaskWaker})"
proof -
  let ?p = "demo_sys [] [] [] False SendCheck RecvCheck" and ?h = "\<lparr>recv_buf = [], peer_url = ''ws://a/#k''\<rparr>"
  have "poll_read_ctx fifo_api ReaderWaker {} (wires ?p) ?h [0] = (Ok (Pending, [0], wires ?p, ?h), {})"
    by (simp add: poll_read_ctx_def poll_read_pending demo_sys_defs)
  then have "sched_step fifo_api (demo_sched ?p {TaskWaker, ReaderWaker}) (SPending (recv_buf ?h))
      ((demo_sched ?p {TaskWaker, ReaderWaker})\<lparr>pipe := ?p\<lparr>wires := wires ?p, handles := [?h]\<rparr>, data_waiters := {},
         awake := {TaskWaker, ReaderWaker} - {ReaderWaker}\<rparr>)"
    using sched_read_pending [of "demo_sched ?p {TaskWaker, ReaderWaker}" ?h fifo_api "[0]" "[0]" "wires ?p" ?h "{}"]
    by (simp add: demo_sched_def demo_sys_def)
  moreover have "(demo_sched ?p {TaskWaker, ReaderWaker})\<lparr>pipe := ?p\<lparr>wires := wires ?p, handles := [?h]\<rparr>,
      data_waiters := {}, awake := {TaskWaker, ReaderWaker} - {ReaderWaker}\<rparr> = demo_sched ?p {TaskWaker}"
    by (auto simp: demo_sched_def demo_sys_def)
  ultimately have pending: "sched_step fifo_api (demo_sched ?p {TaskWaker, ReaderWaker}) (SPending []) (demo_sched ?p {TaskWaker})"
    by simp
  show ?thesis
    unfolding demo_start_sys append_Nil
    by (rule run_cons, rule pending,
        rule run_cons, rule demo_sched_task, rule demo_recv_check, simp add: send_over_def, simp, rule demo_awake, simp,
        rule run_cons, rule demo_sched_task, rule demo_item, simp add: send_over_def, simp, rule demo_awake, simp,
        rule run_cons, rule demo_sched_task, rule demo_push [of _ "[]", unfolded append_Nil], simp add: send_over_def,
        simp, simp, rule demo_awake, simp, rule run_start)
qed

theorem pending_reader_is_not_woken_witness:
  "\<exists>x. run (sched_step fifo_api) (start_sched fifo_api ''ws://a/'' ''k'')
      ([] @ SPending [] # [SPipe EvInternal, SPipe (EvItem (Item (Binary [5]))), SPipe EvInternal]) x \<and>
     queue (inner_recv (wires (pipe x))) = [[5]] \<and> ReaderWaker \<notin> awake x"
  using pending_reader_is_not_woken [OF fifo_pipe.pipe_channel_axioms demo_early_run [folded demo_start_sched]]
    demo_early_run [folded demo_start_sched]
  by (intro exI [of _ "demo_sched (demo_sys [] [[5]] [] False SendCheck RecvCheck) {TaskWaker}"] conjI)
    (simp_all add: demo_sched_def demo_sys_def)

end
