(* ===== verification/Frame.thy ===== *)
theory Frame
  imports Prelude
begin

text \<open>
  The protocol between wsocks client and server (\<open>src/bin.todo/wsocks.rs\<close>): network errors
  and their SOCKS status codes, the protocol messages, frames with padding, and
  \<open>Frame::send\<close> / \<open>Frame::recv\<close>. The serializer (\<open>bincode\<close>) and the byte stream are
  dependencies with the contracts \<open>bincode_codec\<close> and \<open>byte_stream\<close>.
\<close>


section \<open>Network errors\<close>

datatype network_error =
    NetServerFailure | NetConnectionNotAllowed | NetNetworkUnreachable | NetHostUnreachable
  | NetConnectionRefused | NetTtlExpired | NetOther string

datatype socks_v4_status = V4Granted | V4Failed

datatype socks_v5_status =
    V5Success | V5ServerFailure | V5ConnectionNotAllowed | V5NetworkUnreachable
  | V5HostUnreachable | V5ConnectionRefused | V5TtlExpired

definition network_to_v4 :: "network_error \<Rightarrow> socks_v4_status" where
  "network_to_v4 val = V4Failed"

fun network_to_v5 :: "network_error \<Rightarrow> socks_v5_status" where
  "network_to_v5 NetServerFailure = V5ServerFailure"
| "network_to_v5 NetConnectionNotAllowed = V5ConnectionNotAllowed"
| "network_to_v5 NetNetworkUnreachable = V5NetworkUnreachable"
| "network_to_v5 NetHostUnreachable = V5HostUnreachable"
| "network_to_v5 NetConnectionRefused = V5ConnectionRefused"
| "network_to_v5 NetTtlExpired = V5TtlExpired"
| "network_to_v5 (NetOther m) = V5ServerFailure"

text \<open>
  \<open>From<io::Error>\<close>. Two arms are compiled only under the cargo feature \<open>io_error_more\<close>,
  the first argument; \<open>debug\<close> is the error's debug text.
\<close>

definition io_to_network :: "bool \<Rightarrow> io_error_kind \<Rightarrow> string \<Rightarrow> network_error" where
  "io_to_network io_error_more kind debug =
     (if kind \<in> {ConnectionRefused, ConnectionReset, ConnectionAborted, BrokenPipe}
      then NetConnectionRefused
      else if kind = TimedOut then NetHostUnreachable
      else if kind = PermissionDenied then NetConnectionNotAllowed
      else if io_error_more \<and> (kind = NetworkDown \<or> kind = NetworkUnreachable)
      then NetNetworkUnreachable
      else NetOther debug)"


section \<open>Messages and frames\<close>

datatype offer_error = UnableConnect network_error

text \<open>\<open>Result<u128, OfferError>\<close> is a sum with the error on the left.\<close>

datatype protocol_msg =
    TcpConnect string u16
  | TcpOffer "offer_error + u128"
  | TcpData u128 bytes

record frame =
  frame_protocol :: protocol_msg
  frame_padding :: bytes

text \<open>\<open>From<Protocol>\<close>: \<open>pad\<close> is what \<open>fastrand::usize(1..=128)\<close> returned.\<close>

definition frame_from :: "nat \<Rightarrow> protocol_msg \<Rightarrow> frame" where
  "frame_from pad m = \<lparr>frame_protocol = m, frame_padding = replicate pad 0\<rparr>"

record bincode =
  serialize :: "frame \<Rightarrow> unit + bytes"
  deserialize :: "bytes \<Rightarrow> unit + frame"

datatype frame_error =
    SerializeError | DeserializeError | FrameTooLarge | StreamFailed io_error_kind

text \<open>The length check and the big-endian length of \<open>Frame::send\<close>; \<open>len as u16\<close> truncates.\<close>

definition frame_message :: "bytes \<Rightarrow> (frame_error, bytes) outcome" where
  "frame_message buf =
     (let len = length buf in
      if 65535 < len then Err FrameTooLarge
      else Ok (to_be_bytes 2 (of_nat len :: u16) @ buf))"

fun in_stream :: "io_error_kind + 'a \<Rightarrow> (frame_error, 'a) outcome" where
  "in_stream (Inl k) = Err (StreamFailed k)"
| "in_stream (Inr a) = Ok a"

definition frame_send ::
  "bincode \<Rightarrow> ('w \<Rightarrow> bytes \<Rightarrow> io_error_kind + 'w) \<Rightarrow> frame \<Rightarrow> 'w \<Rightarrow> (frame_error, 'w) outcome" where
  "frame_send bc write_all f relconn =
     (case serialize bc f of
        Inl e \<Rightarrow> Err SerializeError
      | Inr buf \<Rightarrow>
          and_then (frame_message buf) (\<lambda>msg. in_stream (write_all relconn msg)))"

definition frame_recv ::
  "bincode \<Rightarrow> ('r \<Rightarrow> nat \<Rightarrow> io_error_kind + bytes \<times> 'r) \<Rightarrow> 'r \<Rightarrow>
   (frame_error, frame \<times> 'r) outcome" where
  "frame_recv bc read_exact relconn =
     and_then (in_stream (read_exact relconn 2)) (\<lambda>(len, r1).
     and_then (in_stream (read_exact r1 (unat (from_be_bytes len :: u16)))) (\<lambda>(buf, r2).
       case deserialize bc buf of
         Inl e \<Rightarrow> Err DeserializeError
       | Inr this \<Rightarrow> Ok (this, r2)))"

lemma in_stream_iff [outcome_simps]:
  "in_stream r = Ok a \<longleftrightarrow> r = Inr a" "in_stream r = Err e \<longleftrightarrow> (\<exists>k. r = Inl k \<and> e = StreamFailed k)"
  "\<not> is_panic (in_stream r)"
  by (cases r; auto)+


section \<open>What a serializer and a stream have to do\<close>

text \<open>The size of a value in bincode's default encoding: variant tags of four bytes, lengths
  of eight, integers at their width.\<close>

fun network_error_size :: "network_error \<Rightarrow> nat" where
  "network_error_size (NetOther m) = 4 + 8 + length m"
| "network_error_size _ = 4"

fun offer_size :: "offer_error + u128 \<Rightarrow> nat" where
  "offer_size (Inl (UnableConnect e)) = 4 + 4 + network_error_size e"
| "offer_size (Inr i) = 4 + 16"

fun msg_size :: "protocol_msg \<Rightarrow> nat" where
  "msg_size (TcpConnect dst port) = 4 + 8 + length dst + 2"
| "msg_size (TcpOffer r) = 4 + offer_size r"
| "msg_size (TcpData i payload) = 4 + 16 + 8 + length payload"

definition frame_size :: "frame \<Rightarrow> nat" where
  "frame_size f = msg_size (frame_protocol f) + 8 + length (frame_padding f)"

locale bincode_codec =
  fixes bc :: bincode
  assumes deserialize_serialize: "serialize bc f = Inr b \<Longrightarrow> deserialize bc b = Inr f"
    and serialize_size: "serialize bc f = Inr b \<Longrightarrow> length b = frame_size f"
    and serialize_small: "frame_size f < 2 ^ 32 \<Longrightarrow> \<exists>b. serialize bc f = Inr b"

text \<open>\<open>written\<close> is what has gone into a stream, \<open>unread\<close> what can still come out of it.\<close>

locale byte_stream =
  fixes write_all :: "'w \<Rightarrow> bytes \<Rightarrow> io_error_kind + 'w" and written :: "'w \<Rightarrow> bytes"
    and read_exact :: "'r \<Rightarrow> nat \<Rightarrow> io_error_kind + bytes \<times> 'r" and unread :: "'r \<Rightarrow> bytes"
  assumes write_all_appends: "write_all w b = Inr w' \<Longrightarrow> written w' = written w @ b"
    and read_exact_enough: "n \<le> length (unread r) \<Longrightarrow>
      \<exists>r'. read_exact r n = Inr (take n (unread r), r') \<and> unread r' = drop n (unread r)"
    and read_exact_short: "length (unread r) < n \<Longrightarrow> read_exact r n = Inl UnexpectedEof"

text \<open>The stream that is nothing but its bytes.\<close>

definition list_write_all :: "bytes \<Rightarrow> bytes \<Rightarrow> io_error_kind + bytes" where
  "list_write_all w b = Inr (w @ b)"

definition list_read_exact :: "bytes \<Rightarrow> nat \<Rightarrow> io_error_kind + bytes \<times> bytes" where
  "list_read_exact r n = (if n \<le> length r then Inr (take n r, drop n r) else Inl UnexpectedEof)"

interpretation list_stream: byte_stream list_write_all id list_read_exact id
  by unfold_locales (auto simp: list_write_all_def list_read_exact_def)

text \<open>The interface of a codec for messages on a stream: encoding can refuse, decoding takes
  one message off the front of the bytes and leaves the rest.\<close>

fun decode_many :: "(bytes \<Rightarrow> ('m \<times> bytes) option) \<Rightarrow> nat \<Rightarrow> bytes \<Rightarrow> ('m list \<times> bytes) option" where
  "decode_many get 0 bs = Some ([], bs)"
| "decode_many get (Suc n) bs =
     (case get bs of
        None \<Rightarrow> None
      | Some (m, bs') \<Rightarrow> map_option (\<lambda>(ms, r). (m # ms, r)) (decode_many get n bs'))"

locale message_codec =
  fixes put :: "'m \<Rightarrow> bytes option" and get :: "bytes \<Rightarrow> ('m \<times> bytes) option"
  assumes get_put: "put m = Some b \<Longrightarrow> get (b @ rest) = Some (m, rest)"
begin

lemma put_inj: "put m = Some b \<Longrightarrow> put m' = Some b \<Longrightarrow> m = m'"
  using get_put[of m b "[]"] get_put[of m' b "[]"] by simp

lemma put_no_prefix: "put m = Some b \<Longrightarrow> put m' = Some (b @ x) \<Longrightarrow> x = []"
  using get_put[of m b x] get_put[of m' "b @ x" "[]"] by simp

lemma decode_many_put:
  assumes "list_all2 (\<lambda>m b. put m = Some b) ms bs"
  shows "decode_many get (length ms) (concat bs @ rest) = Some (ms, rest)"
  using assms by (induction rule: list_all2_induct) (auto simp: get_put)

lemma decode_many_of_put:
  assumes "list_all2 (\<lambda>m b. put m = Some b) ms bs" and "get [] = None"
    and "decode_many get k (concat bs) = Some (ns, r)"
  shows "k \<le> length ms \<and> ns = take k ms"
  using assms(1,3)
proof (induction arbitrary: k ns rule: list_all2_induct)
  case Nil
  with assms(2) show ?case by (cases k) auto
next
  case (Cons m ms b bs)
  then show ?case by (cases k) (auto simp: get_put split: option.splits)
qed

end

text \<open>The framing on its own: a body of at most 65535 bytes behind its length.\<close>

definition put_body :: "bytes \<Rightarrow> bytes option" where
  "put_body buf = (case frame_message buf of Ok msg \<Rightarrow> Some msg | _ \<Rightarrow> None)"

definition get_body :: "bytes \<Rightarrow> (bytes \<times> bytes) option" where
  "get_body bs =
     (let n = unat (from_be_bytes (take 2 bs) :: u16); rest = drop 2 bs in
      if length bs < 2 \<or> length rest < n then None else Some (take n rest, drop n rest))"

lemma frame_message_Ok_iff:
  "frame_message buf = Ok msg \<longleftrightarrow>
     length buf \<le> 65535 \<and> msg = to_be_bytes 2 (of_nat (length buf) :: u16) @ buf"
  by (auto simp: frame_message_def Let_def)

lemma unat_of_nat_u16: "n \<le> 65535 \<Longrightarrow> unat (of_nat n :: u16) = n"
  by (simp add: unat_of_nat)

interpretation framing: message_codec put_body get_body
proof unfold_locales
  fix buf msg rest :: bytes
  assume "put_body buf = Some msg"
  then have "length buf \<le> 65535" and "msg = to_be_bytes 2 (of_nat (length buf) :: u16) @ buf"
    by (auto simp: put_body_def frame_message_Ok_iff split: outcome.splits)
  then show "get_body (msg @ rest) = Some (buf, rest)"
    using be16.dec_enc[of "of_nat (length buf)"]
    by (simp add: get_body_def Let_def unat_of_nat_u16)
qed

text \<open>Frames on a stream: the framing around the serializer.\<close>

definition put_frame :: "bincode \<Rightarrow> frame \<Rightarrow> bytes option" where
  "put_frame bc f = (case serialize bc f of Inl e \<Rightarrow> None | Inr buf \<Rightarrow> put_body buf)"

definition get_frame :: "bincode \<Rightarrow> bytes \<Rightarrow> (frame \<times> bytes) option" where
  "get_frame bc bs =
     (case get_body bs of
        None \<Rightarrow> None
      | Some (buf, rest) \<Rightarrow>
          (case deserialize bc buf of Inl e \<Rightarrow> None | Inr f \<Rightarrow> Some (f, rest)))"

text \<open>What has been received of a frame stays right when more bytes arrive.\<close>

lemma get_body_append: "get_body bs = Some (b, r) \<Longrightarrow> get_body (bs @ x) = Some (b, r @ x)"
  by (auto simp: get_body_def Let_def split: if_splits)

lemma get_frame_append: "get_frame bc bs = Some (f, r) \<Longrightarrow> get_frame bc (bs @ x) = Some (f, r @ x)"
  by (auto simp: get_frame_def get_body_append split: option.splits sum.splits)

lemma get_frame_Nil [simp]: "get_frame bc [] = None"
  by (simp add: get_frame_def get_body_def)

lemma decode_many_append:
  assumes "decode_many (get_frame bc) n bs = Some (fs, r)"
  shows "decode_many (get_frame bc) n (bs @ x) = Some (fs, r @ x)"
  using assms
proof (induction n arbitrary: bs fs)
  case 0
  then show ?case by simp
next
  case (Suc n)
  then obtain f bs' where "get_frame bc bs = Some (f, bs')"
    by (auto split: option.splits)
  with Suc get_frame_append[OF this, of x] show ?case by auto
qed

sublocale bincode_codec \<subseteq> frames: message_codec "put_frame bc" "get_frame bc"
proof unfold_locales
  fix f b rest
  assume "put_frame bc f = Some b"
  then obtain buf where "serialize bc f = Inr buf" and "put_body buf = Some b"
    by (auto simp: put_frame_def split: sum.splits)
  then show "get_frame bc (b @ rest) = Some (f, rest)"
    by (simp add: get_frame_def framing.get_put deserialize_serialize)
qed

context bincode_codec
begin

lemma get_put_frame: "put_frame bc f = Some b \<Longrightarrow> get_frame bc (b @ rest) = Some (f, rest)"
  by (rule frames.get_put)

end

end
