(* ===== verification/Text.thy ===== *)
theory Text
  imports Prelude
begin

text \<open>
  What the program uses of the standard library's text functions: decimal and hexadecimal
  numbers, the display of IP addresses, and \<open>String::from_utf8_lossy\<close>. A \<open>String\<close> is the
  list of its UTF-8 bytes, as characters, so that its length is its length in Rust.
\<close>


section \<open>Bytes and characters\<close>

definition byte_of_char :: "char \<Rightarrow> byte" where
  "byte_of_char c = of_nat (of_char c)"

definition char_of_byte :: "byte \<Rightarrow> char" where
  "char_of_byte b = char_of (unat b)"

lemma char_of_byte_of_char [simp]: "char_of_byte (byte_of_char c) = c"
  by (simp add: char_of_byte_def byte_of_char_def unat_of_nat)

lemma byte_of_char_of_byte [simp]: "byte_of_char (char_of_byte b) = b"
  using unsigned_less[of b, where 'a = nat]
  by (simp add: char_of_byte_def byte_of_char_def word_unat_eq_iff unat_of_nat)


section \<open>Numbers\<close>

text \<open>\<open>to_string\<close> of an unsigned integer.\<close>

fun show_nat :: "nat \<Rightarrow> string" where
  "show_nat n =
     (if n < 10 then [char_of (48 + n)] else show_nat (n div 10) @ [char_of (48 + n mod 10)])"

declare show_nat.simps [simp del]

definition digit_value :: "char \<Rightarrow> nat" where
  "digit_value c = of_char c - 48"

definition read_nat :: "string \<Rightarrow> nat" where
  "read_nat = foldl (\<lambda>n c. 10 * n + digit_value c) 0"

definition is_digit :: "char \<Rightarrow> bool" where
  "is_digit c = (48 \<le> (of_char c :: nat) \<and> (of_char c :: nat) \<le> 57)"

lemma read_nat_snoc: "read_nat (s @ [c]) = 10 * read_nat s + digit_value c"
  by (simp add: read_nat_def)

lemma digit_value_char [simp]: "(d::nat) < 10 \<Longrightarrow> digit_value (char_of (48 + d)) = d"
  by (simp add: digit_value_def)

lemma is_digit_char [simp]: "(d::nat) < 10 \<Longrightarrow> is_digit (char_of (48 + d))"
  by (simp add: is_digit_def)

lemma read_show_nat: "read_nat (show_nat n) = n"
proof (induction n rule: show_nat.induct)
  case (1 n)
  show ?case
  proof (cases "n < 10")
    case True
    then show ?thesis
      using read_nat_snoc[of "[]" "char_of (48 + n)"]
      by (simp add: show_nat.simps[of n] read_nat_def)
  next
    case False
    with "1.IH" show ?thesis
      by (simp add: show_nat.simps[of n] read_nat_snoc)
  qed
qed

lemma show_nat_digits: "list_all is_digit (show_nat n)"
proof (induction n rule: show_nat.induct)
  case (1 n)
  then show ?case by (cases "n < 10") (simp_all add: show_nat.simps[of n])
qed

lemma show_nat_inj: "show_nat m = show_nat n \<longleftrightarrow> m = n"
  by (metis read_show_nat)

text \<open>\<open>{:x}\<close>.\<close>

definition hex_digit :: "nat \<Rightarrow> char" where
  "hex_digit n = (if n < 10 then char_of (48 + n) else char_of (87 + n))"

fun show_hex :: "nat \<Rightarrow> string" where
  "show_hex n = (if n < 16 then [hex_digit n] else show_hex (n div 16) @ [hex_digit (n mod 16)])"

declare show_hex.simps [simp del]


section \<open>Joining\<close>

text \<open>\<open>join\<close> of a slice of strings.\<close>

fun join :: "string \<Rightarrow> string list \<Rightarrow> string" where
  "join sep [] = []"
| "join sep [s] = s"
| "join sep (s # t # ts) = s @ sep @ join sep (t # ts)"

fun split_on :: "char \<Rightarrow> string \<Rightarrow> string list" where
  "split_on c [] = [[]]"
| "split_on c (x # xs) =
     (if x = c then [] # split_on c xs
      else (case split_on c xs of [] \<Rightarrow> [[x]] | y # ys \<Rightarrow> (x # y) # ys))"

lemma split_on_plain: "c \<notin> set s \<Longrightarrow> split_on c s = [s]"
  by (induction s) auto

lemma split_on_append: "c \<notin> set s \<Longrightarrow> split_on c (s @ c # t) = s # split_on c t"
  by (induction s) auto

lemma split_on_join:
  assumes "ss \<noteq> []" and "\<And>s. s \<in> set ss \<Longrightarrow> c \<notin> set s"
  shows "split_on c (join [c] ss) = ss"
  using assms by (induction "[c]" ss rule: join.induct) (auto simp: split_on_plain split_on_append)


section \<open>IP addresses\<close>

text \<open>\<open>Display\<close> of \<open>Ipv4Addr\<close>, from its four bytes.\<close>

definition ipv4_to_string :: "bytes \<Rightarrow> string" where
  "ipv4_to_string ip = join ''.'' (map (\<lambda>b. show_nat (unat b)) ip)"

lemma ipv4_reads_back:
  assumes "ip \<noteq> []"
  shows "map (\<lambda>s. of_nat (read_nat s)) (split_on (CHR ''.'') (ipv4_to_string ip)) = ip"
proof -
  have "CHR ''.'' \<notin> set (show_nat (unat b))" for b :: byte
    using show_nat_digits[of "unat b"] by (auto simp: list_all_iff is_digit_def)
  then have "split_on (CHR ''.'') (ipv4_to_string ip) = map (\<lambda>b. show_nat (unat b)) ip"
    unfolding ipv4_to_string_def using assms by (intro split_on_join) auto
  then show ?thesis by (simp add: read_show_nat comp_def)
qed

text \<open>
  \<open>Display\<close> of \<open>Ipv6Addr\<close>, from its sixteen bytes: the segments in lower-case hexadecimal,
  the first longest run of at least two zero segments replaced by \<open>::\<close>, and an
  IPv4-mapped address in its mixed form. \<open>zero_run\<close> scans for the run: position, current
  run, longest run, each run as start and length.
\<close>

fun segments :: "bytes \<Rightarrow> nat list" where
  "segments (a # b # bs) = (256 * unat a + unat b) # segments bs"
| "segments _ = []"

fun zero_run :: "nat \<Rightarrow> nat \<times> nat \<Rightarrow> nat \<times> nat \<Rightarrow> nat list \<Rightarrow> nat \<times> nat" where
  "zero_run i cur best [] = best"
| "zero_run i cur best (x # xs) =
     (if x = 0 then
        (let cur' = (if snd cur = 0 then i else fst cur, snd cur + 1);
             best' = (if snd best < snd cur' then cur' else best) in
         zero_run (i + 1) cur' best' xs)
      else zero_run (i + 1) (0, 0) best xs)"

definition fmt_segments :: "nat list \<Rightarrow> string" where
  "fmt_segments ss = join '':'' (map show_hex ss)"

definition ipv6_to_string :: "bytes \<Rightarrow> string" where
  "ipv6_to_string ip =
     (if take 12 ip = replicate 10 0 @ [0xff, 0xff]
      then ''::ffff:'' @ ipv4_to_string (drop 12 ip)
      else
        (let ss = segments ip; (start, len) = zero_run 0 (0, 0) (0, 0) ss in
         if 1 < len then fmt_segments (take start ss) @ ''::'' @ fmt_segments (drop (start + len) ss)
         else fmt_segments ss))"


section \<open>Lossy UTF-8\<close>

definition utf8_cont :: "byte \<Rightarrow> bool" where
  "utf8_cont c = (c AND 192 = 128)"

text \<open>Which second byte may follow a first byte of a sequence of three or four.\<close>

definition utf8_second :: "byte \<Rightarrow> byte \<Rightarrow> bool" where
  "utf8_second b c =
     (if b = 0xE0 then 0xA0 \<le> c \<and> c \<le> 0xBF
      else if b = 0xED then 0x80 \<le> c \<and> c \<le> 0x9F
      else if b = 0xF0 then 0x90 \<le> c \<and> c \<le> 0xBF
      else if b = 0xF4 then 0x80 \<le> c \<and> c \<le> 0x8F
      else 0x80 \<le> c \<and> c \<le> 0xBF)"

text \<open>The length of the sequence a first byte announces, or none.\<close>

definition utf8_width :: "byte \<Rightarrow> nat" where
  "utf8_width b =
     (if b < 0x80 then 1 else if 0xC2 \<le> b \<and> b \<le> 0xDF then 2
      else if 0xE0 \<le> b \<and> b \<le> 0xEF then 3 else if 0xF0 \<le> b \<and> b \<le> 0xF4 then 4 else 0)"

definition byte_at :: "nat \<Rightarrow> bytes \<Rightarrow> byte" where
  "byte_at i bs = (if i < length bs then bs ! i else 0)"

text \<open>Whether a sequence is complete, and how many of the following bytes it takes.\<close>

definition utf8_rest :: "byte \<Rightarrow> bytes \<Rightarrow> bool \<times> nat" where
  "utf8_rest b bs =
     (let w = utf8_width b in
      if w = 0 then (False, 0)
      else if w = 1 then (True, 0)
      else if w = 2 then (if utf8_cont (byte_at 0 bs) then (True, 1) else (False, 0))
      else if \<not> utf8_second b (byte_at 0 bs) then (False, 0)
      else if \<not> utf8_cont (byte_at 1 bs) then (False, 1)
      else if w = 3 then (True, 2)
      else if utf8_cont (byte_at 2 bs) then (True, 3) else (False, 2))"

function utf8_lossy :: "bytes \<Rightarrow> bytes" where
  "utf8_lossy [] = []"
| "utf8_lossy (b # bs) =
     (case utf8_rest b bs of
        (ok, n) \<Rightarrow> (if ok then b # take n bs else [0xEF, 0xBF, 0xBD]) @ utf8_lossy (drop n bs))"
  by pat_completeness auto

termination
  by (relation "measure length") auto

definition from_utf8_lossy :: "bytes \<Rightarrow> string" where
  "from_utf8_lossy bs = map char_of_byte (utf8_lossy bs)"

lemma utf8_lossy_ascii: "list_all (\<lambda>b. b < 0x80) bs \<Longrightarrow> utf8_lossy bs = bs"
  by (induction bs) (auto simp: utf8_rest_def utf8_width_def)

lemma from_utf8_lossy_ascii:
  "list_all (\<lambda>b. b < 0x80) bs \<Longrightarrow> from_utf8_lossy bs = map char_of_byte bs"
  by (simp add: from_utf8_lossy_def utf8_lossy_ascii)

end
