(* ===== verification/Bincode.thy ===== *)
theory Bincode
  imports Frame Text
begin

text \<open>
  An instance of the serializer's contract: bincode's default encoding of the frames of
  this program, little-endian at fixed width, with a parser for it. The program's own
  definitions take the serializer as an argument; this instance shows that the contract
  \<open>bincode_codec\<close> can be met, and the witnesses of the properties run on it.
\<close>

type_synonym 'a parser = "bytes \<Rightarrow> ('a \<times> bytes) option"

definition enc_word :: "nat \<Rightarrow> 'w::len word \<Rightarrow> bytes" where
  "enc_word n w = rev (to_be_bytes n w)"

definition p_word :: "nat \<Rightarrow> 'w::len word parser" where
  "p_word n bs = (if n \<le> length bs then Some (from_be_bytes (rev (take n bs)), drop n bs) else None)"

definition enc_tag :: "nat \<Rightarrow> bytes" where
  "enc_tag n = enc_word 4 (of_nat n :: 32 word)"

definition p_tag :: "nat parser" where
  "p_tag bs = map_option (map_prod unat id) (p_word 4 bs :: (32 word \<times> bytes) option)"

definition enc_bytes :: "bytes \<Rightarrow> bytes" where
  "enc_bytes bs = enc_word 8 (of_nat (length bs) :: u64) @ bs"

definition p_bytes :: "bytes parser" where
  "p_bytes bs =
     (case p_word 8 bs :: (u64 \<times> bytes) option of
        None \<Rightarrow> None
      | Some (n, r) \<Rightarrow>
          if unat n \<le> length r then Some (take (unat n) r, drop (unat n) r) else None)"

definition enc_string :: "string \<Rightarrow> bytes" where
  "enc_string s = enc_bytes (map byte_of_char s)"

definition p_string :: "string parser" where
  "p_string bs = map_option (map_prod (map char_of_byte) id) (p_bytes bs)"

fun enc_net :: "network_error \<Rightarrow> bytes" where
  "enc_net NetServerFailure = enc_tag 0"
| "enc_net NetConnectionNotAllowed = enc_tag 1"
| "enc_net NetNetworkUnreachable = enc_tag 2"
| "enc_net NetHostUnreachable = enc_tag 3"
| "enc_net NetConnectionRefused = enc_tag 4"
| "enc_net NetTtlExpired = enc_tag 5"
| "enc_net (NetOther m) = enc_tag 6 @ enc_string m"

definition p_net :: "network_error parser" where
  "p_net bs =
     (case p_tag bs of
        None \<Rightarrow> None
      | Some (t, r) \<Rightarrow>
          if t = 0 then Some (NetServerFailure, r)
          else if t = 1 then Some (NetConnectionNotAllowed, r)
          else if t = 2 then Some (NetNetworkUnreachable, r)
          else if t = 3 then Some (NetHostUnreachable, r)
          else if t = 4 then Some (NetConnectionRefused, r)
          else if t = 5 then Some (NetTtlExpired, r)
          else if t = 6 then map_option (map_prod NetOther id) (p_string r)
          else None)"

fun enc_offer :: "offer_error + u128 \<Rightarrow> bytes" where
  "enc_offer (Inr i) = enc_tag 0 @ enc_word 16 i"
| "enc_offer (Inl (UnableConnect e)) = enc_tag 1 @ enc_tag 0 @ enc_net e"

definition p_offer :: "(offer_error + u128) parser" where
  "p_offer bs =
     (case p_tag bs of
        None \<Rightarrow> None
      | Some (t, r) \<Rightarrow>
          if t = 0 then map_option (map_prod Inr id) (p_word 16 r)
          else if t = 1 then
            (case p_tag r of
               None \<Rightarrow> None
             | Some (t', r') \<Rightarrow>
                 if t' = 0 then map_option (map_prod (Inl \<circ> UnableConnect) id) (p_net r') else None)
          else None)"

fun enc_msg :: "protocol_msg \<Rightarrow> bytes" where
  "enc_msg (TcpConnect dst port) = enc_tag 0 @ enc_string dst @ enc_word 2 port"
| "enc_msg (TcpOffer r) = enc_tag 1 @ enc_offer r"
| "enc_msg (TcpData i payload) = enc_tag 2 @ enc_word 16 i @ enc_bytes payload"

definition p_msg :: "protocol_msg parser" where
  "p_msg bs =
     (case p_tag bs of
        None \<Rightarrow> None
      | Some (t, r) \<Rightarrow>
          if t = 0 then
            (case p_string r of
               None \<Rightarrow> None
             | Some (dst, r') \<Rightarrow> map_option (map_prod (TcpConnect dst) id) (p_word 2 r'))
          else if t = 1 then map_option (map_prod TcpOffer id) (p_offer r)
          else if t = 2 then
            (case p_word 16 r of
               None \<Rightarrow> None
             | Some (i, r') \<Rightarrow> map_option (map_prod (TcpData i) id) (p_bytes r'))
          else None)"

definition enc_frame :: "frame \<Rightarrow> bytes" where
  "enc_frame f = enc_msg (frame_protocol f) @ enc_bytes (frame_padding f)"

definition p_frame :: "frame parser" where
  "p_frame bs =
     (case p_msg bs of
        None \<Rightarrow> None
      | Some (m, r) \<Rightarrow>
          map_option (map_prod (\<lambda>pad. \<lparr>frame_protocol = m, frame_padding = pad\<rparr>) id) (p_bytes r))"

definition bincode_ref :: bincode where
  "bincode_ref =
     \<lparr>serialize = (\<lambda>f. if frame_size f < 2 ^ 63 then Inr (enc_frame f) else Inl ()),
      deserialize = (\<lambda>bs. case p_frame bs of Some (f, r) \<Rightarrow> Inr f | None \<Rightarrow> Inl ())\<rparr>"


section \<open>The parser undoes the encoding\<close>

lemma p_word_enc:
  assumes "2 ^ LENGTH('w::len) = (256::nat) ^ n"
  shows "p_word n (enc_word n (w :: 'w word) @ r) = Some (w, r)"
  using from_be_to_be[OF assms, of w] by (simp add: p_word_def enc_word_def)

lemma p_tag_enc [simp]: "n < 2 ^ 32 \<Longrightarrow> p_tag (enc_tag n @ r) = Some (n, r)"
  using p_word_enc[where 'w = 32 and n = 4, of "of_nat n" r]
  by (simp add: p_tag_def enc_tag_def unat_of_nat)

lemma p_tag_enc_last [simp]: "n < 2 ^ 32 \<Longrightarrow> p_tag (enc_tag n) = Some (n, [])"
  using p_tag_enc[of n "[]"] by simp

lemma p_u16 [simp]: "p_word 2 (enc_word 2 (w :: u16) @ r) = Some (w, r)"
  by (rule p_word_enc) simp

lemma p_u128 [simp]: "p_word 16 (enc_word 16 (w :: u128) @ r) = Some (w, r)"
  by (rule p_word_enc) simp

lemma p_bytes_enc [simp]:
  assumes "length bs < 2 ^ 63"
  shows "p_bytes (enc_bytes bs @ r) = Some (bs, r)"
proof -
  have "unat (of_nat (length bs) :: u64) = length bs"
    using assms by (simp add: unat_of_nat)
  then show ?thesis
    using p_word_enc[where 'w = 64 and n = 8, of "of_nat (length bs)" "bs @ r"]
    by (simp add: p_bytes_def enc_bytes_def)
qed

lemma p_string_enc [simp]: "length s < 2 ^ 63 \<Longrightarrow> p_string (enc_string s @ r) = Some (s, r)"
  by (simp add: p_string_def enc_string_def comp_def)

lemma p_net_enc [simp]:
  "network_error_size e < 2 ^ 63 \<Longrightarrow> p_net (enc_net e @ r) = Some (e, r)"
  by (cases e) (simp_all add: p_net_def)

lemma p_offer_enc [simp]:
  assumes "offer_size x < 2 ^ 63"
  shows "p_offer (enc_offer x @ r) = Some (x, r)"
proof (cases x)
  case (Inl oe)
  with assms show ?thesis by (cases oe) (simp add: p_offer_def)
next
  case (Inr i)
  then show ?thesis by (simp add: p_offer_def)
qed

lemma p_msg_enc [simp]: "msg_size m < 2 ^ 63 \<Longrightarrow> p_msg (enc_msg m @ r) = Some (m, r)"
  by (cases m) (simp_all add: p_msg_def)

lemma p_frame_enc: "frame_size f < 2 ^ 63 \<Longrightarrow> p_frame (enc_frame f @ r) = Some (f, r)"
  by (simp add: p_frame_def enc_frame_def frame_size_def)

lemma length_enc_word [simp]: "length (enc_word n w) = n"
  by (simp add: enc_word_def)

lemma length_enc_tag [simp]: "length (enc_tag n) = 4"
  by (simp add: enc_tag_def)

lemma length_enc_bytes [simp]: "length (enc_bytes bs) = 8 + length bs"
  by (simp add: enc_bytes_def)

lemma length_enc_string [simp]: "length (enc_string s) = 8 + length s"
  by (simp add: enc_string_def)

lemma length_enc_net [simp]: "length (enc_net e) = network_error_size e"
  by (cases e) simp_all

lemma length_enc_offer [simp]: "length (enc_offer x) = offer_size x"
  by (cases x rule: offer_size.cases) simp_all

lemma length_enc_msg [simp]: "length (enc_msg m) = msg_size m"
  by (cases m) simp_all

lemma length_enc_frame: "length (enc_frame f) = frame_size f"
  by (simp add: enc_frame_def frame_size_def)

interpretation bincode_ref: bincode_codec bincode_ref
proof unfold_locales
  fix f b
  assume "serialize bincode_ref f = Inr b"
  then have f: "frame_size f < 2 ^ 63" "b = enc_frame f"
    by (auto simp: bincode_ref_def split: if_splits)
  then show "deserialize bincode_ref b = Inr f"
    using p_frame_enc[of f "[]"] by (simp add: bincode_ref_def)
  show "length b = frame_size f"
    by (simp add: f length_enc_frame)
next
  fix f :: frame
  assume "frame_size f < 2 ^ 32"
  then show "\<exists>b. serialize bincode_ref f = Inr b"
    by (simp add: bincode_ref_def)
qed

end
