(* ===== verification/FrameStream.thy ===== *)
theory FrameStream
  imports Bincode
begin

text \<open>
  \<open>Frame::send\<close> and \<open>Frame::recv\<close> on a byte stream, for any serializer and any stream that
  meet their contracts: the two are inverse, frame by frame and for whole sequences, and
  every failure of either is accounted for.
\<close>

locale frame_stream =
  bincode_codec bc + byte_stream write_all written read_exact unread
  for bc :: bincode
    and write_all :: "'w \<Rightarrow> bytes \<Rightarrow> io_error_kind + 'w" and written :: "'w \<Rightarrow> bytes"
    and read_exact :: "'r \<Rightarrow> nat \<Rightarrow> io_error_kind + bytes \<times> 'r" and unread :: "'r \<Rightarrow> bytes"
begin

lemma put_frame_iff:
  "put_frame bc f = Some b \<longleftrightarrow>
     (\<exists>buf. serialize bc f = Inr buf \<and> frame_message buf = Ok b)"
  by (auto simp: put_frame_def put_body_def split: sum.splits outcome.splits)

lemma put_frame_size: "put_frame bc f = Some b \<Longrightarrow> length b = 2 + frame_size f \<and> frame_size f \<le> 65535"
  by (auto simp: put_frame_iff frame_message_Ok_iff serialize_size)

lemma put_frame_fits: "frame_size f \<le> 65535 \<Longrightarrow> \<exists>b. put_frame bc f = Some b"
proof -
  assume le: "frame_size f \<le> 65535"
  then obtain buf where "serialize bc f = Inr buf" using serialize_small[of f] by auto
  with le serialize_size[OF this] show ?thesis by (simp add: put_frame_iff frame_message_Ok_iff)
qed

lemma send_Ok:
  "frame_send bc write_all f w = Ok w' \<Longrightarrow>
   \<exists>b. put_frame bc f = Some b \<and> write_all w b = Inr w' \<and> written w' = written w @ b"
  by (auto simp: frame_send_def put_frame_iff outcome_simps write_all_appends split: sum.splits)

lemma send_put:
  "put_frame bc f = Some b \<Longrightarrow> frame_send bc write_all f w = in_stream (write_all w b)"
  by (auto simp: put_frame_iff frame_send_def)

lemma send_too_large:
  assumes "65535 < frame_size f" and "frame_size f < 2 ^ 32"
  shows "frame_send bc write_all f w = Err FrameTooLarge"
  using serialize_small[OF assms(2)] assms(1)
  by (auto simp: frame_send_def frame_message_def serialize_size)

lemma recv_get:
  assumes "get_frame bc (unread r) = Some (f, rest)"
  shows "\<exists>r'. frame_recv bc read_exact r = Ok (f, r') \<and> unread r' = rest"
proof -
  from assms obtain buf where buf: "get_body (unread r) = Some (buf, rest)"
    and f: "deserialize bc buf = Inr f"
    by (auto simp: get_frame_def split: option.splits sum.splits)
  let ?n = "unat (from_be_bytes (take 2 (unread r)) :: u16)"
  from buf have "2 \<le> length (unread r)" and "?n \<le> length (drop 2 (unread r))"
    and split: "buf = take ?n (drop 2 (unread r))" "rest = drop ?n (drop 2 (unread r))"
    by (auto simp: get_body_def Let_def split: if_splits)
  then obtain r1 r2 where "read_exact r 2 = Inr (take 2 (unread r), r1)"
    and "unread r1 = drop 2 (unread r)"
    and "read_exact r1 ?n = Inr (buf, r2)" and "unread r2 = rest"
    using read_exact_enough[of 2 r] read_exact_enough[of ?n] by metis
  then show ?thesis by (simp add: frame_recv_def f)
qed

lemma recv_none:
  assumes "get_frame bc (unread r) = None"
  shows "frame_recv bc read_exact r = Err (StreamFailed UnexpectedEof) \<or>
     frame_recv bc read_exact r = Err DeserializeError"
proof (cases "length (unread r) < 2")
  case True
  then show ?thesis by (simp add: frame_recv_def read_exact_short)
next
  case False
  let ?n = "unat (from_be_bytes (take 2 (unread r)) :: u16)"
  obtain r1 where r1: "read_exact r 2 = Inr (take 2 (unread r), r1)" "unread r1 = drop 2 (unread r)"
    using read_exact_enough[of 2 r] False by auto
  show ?thesis
  proof (cases "length (unread r1) < ?n")
    case True
    then show ?thesis by (simp add: frame_recv_def r1 read_exact_short)
  next
    case enough: False
    then obtain r2 where "read_exact r1 ?n = Inr (take ?n (drop 2 (unread r)), r2)"
      using read_exact_enough[of ?n r1] r1 by auto
    with assms False enough r1 show ?thesis
      by (auto simp: frame_recv_def get_frame_def get_body_def Let_def split: sum.splits)
  qed
qed

lemma recv_short:
  assumes "get_body (unread r) = None"
  shows "frame_recv bc read_exact r = Err (StreamFailed UnexpectedEof)"
proof (cases "length (unread r) < 2")
  case True
  then show ?thesis by (simp add: frame_recv_def read_exact_short)
next
  case False
  then obtain r1 where r1: "read_exact r 2 = Inr (take 2 (unread r), r1)" "unread r1 = drop 2 (unread r)"
    using read_exact_enough [of 2 r] by auto
  from False assms have "length (unread r1) < unat (from_be_bytes (take 2 (unread r)) :: u16)"
    by (simp add: r1 get_body_def Let_def split: if_splits)
  then show ?thesis by (simp add: frame_recv_def r1 read_exact_short)
qed

lemma recv_Ok:
  assumes "frame_recv bc read_exact r = Ok (f, r')"
  shows "get_frame bc (unread r) = Some (f, unread r')"
proof (cases "get_frame bc (unread r)")
  case None
  with assms recv_none[of r] show ?thesis by auto
next
  case (Some x)
  with assms recv_get[of r "fst x" "snd x"] show ?thesis by auto
qed

end

interpretation list_frames: frame_stream bincode_ref list_write_all id list_read_exact id
  by unfold_locales

text \<open>Receiving a number of frames one after another.\<close>

fun recv_many ::
  "bincode \<Rightarrow> ('r \<Rightarrow> nat \<Rightarrow> io_error_kind + bytes \<times> 'r) \<Rightarrow> nat \<Rightarrow> 'r \<Rightarrow>
   (frame_error, frame list \<times> 'r) outcome" where
  "recv_many bc read_exact 0 r = Ok ([], r)"
| "recv_many bc read_exact (Suc n) r =
     and_then (frame_recv bc read_exact r) (\<lambda>(f, r').
     and_then (recv_many bc read_exact n r') (\<lambda>(fs, r''). Ok (f # fs, r'')))"

fun send_many ::
  "bincode \<Rightarrow> ('w \<Rightarrow> bytes \<Rightarrow> io_error_kind + 'w) \<Rightarrow> frame list \<Rightarrow> 'w \<Rightarrow>
   (frame_error, 'w) outcome" where
  "send_many bc write_all [] w = Ok w"
| "send_many bc write_all (f # fs) w =
     and_then (frame_send bc write_all f w) (\<lambda>w'. send_many bc write_all fs w')"

context frame_stream
begin

lemma recv_many_decode:
  assumes "decode_many (get_frame bc) n (unread r) = Some (fs, rest)"
  shows "\<exists>r'. recv_many bc read_exact n r = Ok (fs, r') \<and> unread r' = rest"
  using assms
proof (induction n arbitrary: r fs)
  case 0
  then show ?case by simp
next
  case (Suc n)
  then obtain f bs gs where f: "get_frame bc (unread r) = Some (f, bs)"
    and g: "decode_many (get_frame bc) n bs = Some (gs, rest)" and fs: "fs = f # gs"
    by (auto split: option.splits)
  from recv_get[OF f] obtain r1 where "frame_recv bc read_exact r = Ok (f, r1)" "unread r1 = bs"
    by blast
  with Suc.IH[of r1 gs] g fs show ?case by auto
qed

lemma decode_many_of_frames:
  assumes "list_all2 (\<lambda>f b. put_frame bc f = Some b) fs bs"
    and "decode_many (get_frame bc) k (concat bs) = Some (gs, r)"
  shows "k \<le> length fs \<and> gs = take k fs"
  by (rule frames.decode_many_of_put [OF assms(1) get_frame_Nil assms(2)])

lemma send_many_put:
  assumes "send_many bc write_all fs w = Ok w'"
  shows "\<exists>bs. list_all2 (\<lambda>f b. put_frame bc f = Some b) fs bs \<and> written w' = written w @ concat bs"
  using assms
proof (induction fs arbitrary: w)
  case Nil
  then show ?case by simp
next
  case (Cons f fs)
  then obtain w1 where w1: "frame_send bc write_all f w = Ok w1"
    "send_many bc write_all fs w1 = Ok w'"
    by (auto simp: outcome_simps)
  from send_Ok[OF w1(1)] obtain b where "put_frame bc f = Some b" "written w1 = written w @ b"
    by blast
  moreover from Cons.IH[OF w1(2)] obtain bs where
    "list_all2 (\<lambda>f b. put_frame bc f = Some b) fs bs" "written w' = written w1 @ concat bs"
    by blast
  ultimately show ?case by (intro exI[of _ "b # bs"]) simp
qed

lemma send_recv_many:
  assumes "send_many bc write_all fs w = Ok w'" and "unread r = drop (length (written w)) (written w') @ rest"
  shows "\<exists>r'. recv_many bc read_exact (length fs) r = Ok (fs, r') \<and> unread r' = rest"
proof -
  obtain bs where "list_all2 (\<lambda>f b. put_frame bc f = Some b) fs bs"
    and "written w' = written w @ concat bs"
    using send_many_put[OF assms(1)] by blast
  with assms(2) frames.decode_many_put[of fs bs rest] show ?thesis
    by (intro recv_many_decode) simp
qed

end


section \<open>What sending and receiving guarantee\<close>

definition demo_frames :: "frame list" where
  "demo_frames =
     [frame_from 2 (TcpConnect ''a.b'' 443), frame_from 1 (TcpOffer (Inl (UnableConnect NetTtlExpired))),
      frame_from 3 (TcpData 7 [1, 2])]"

text \<open>
  Property C23. Whatever frames are sent on a stream, receiving as many frames from the
  bytes this wrote gives back the same frames in the same order and leaves exactly what
  follows them.
\<close>

theorem frames_roundtrip:
  assumes "frame_stream bc write_all written read_exact unread"
    and "send_many bc write_all fs w = Ok w'"
    and "unread r = drop (length (written w)) (written w') @ rest"
  shows "\<exists>r'. recv_many bc read_exact (length fs) r = Ok (fs, r') \<and> unread r' = rest"
  by (rule frame_stream.send_recv_many [OF assms])

theorem frames_roundtrip_witness:
  "\<exists>w'. send_many bincode_ref list_write_all demo_frames [] = Ok w' \<and>
     recv_many bincode_ref list_read_exact 3 (w' @ [9]) = Ok (demo_frames, [9])"
proof -
  have "\<forall>f \<in> set demo_frames. \<exists>b. put_frame bincode_ref f = Some b"
    by (auto simp: demo_frames_def frame_from_def frame_size_def intro!: list_frames.put_frame_fits)
  then obtain w' where w': "send_many bincode_ref list_write_all demo_frames [] = Ok w'"
    by (auto simp: demo_frames_def list_frames.send_put list_write_all_def)
  have "length demo_frames = 3" by (simp add: demo_frames_def)
  with w' frames_roundtrip [OF list_frames.frame_stream_axioms w', of "w' @ [9]" "[9]"] show ?thesis
    by simp
qed

text \<open>
  Property C25. Sending fails for size exactly when the serialized frame has more than
  65535 bytes, so that the \<open>u16\<close> length never truncates; a frame that fits goes out as its
  length, its bytes and nothing else.
\<close>

theorem frame_send_size:
  assumes "frame_stream bc write_all written read_exact unread" and "frame_size f < 2 ^ 32"
  shows "if 65535 < frame_size f then frame_send bc write_all f w = Err FrameTooLarge
     else \<exists>buf. serialize bc f = Inr buf \<and> length buf = frame_size f \<and>
       frame_send bc write_all f w = in_stream (write_all w (to_be_bytes 2 (of_nat (frame_size f) :: u16) @ buf)) \<and>
       unat (of_nat (frame_size f) :: u16) = frame_size f"
proof (cases "65535 < frame_size f")
  case True
  with frame_stream.send_too_large [OF assms(1)] assms(2) show ?thesis by simp
next
  case False
  with frame_stream.put_frame_fits [OF assms(1), of f] obtain b where
    b: "put_frame bc f = Some b" by auto
  then obtain buf where "serialize bc f = Inr buf" "frame_message buf = Ok b"
    using frame_stream.put_frame_iff [OF assms(1)] by blast
  with b frame_stream.send_put [OF assms(1) b, of w] False frame_stream.axioms(1) [OF assms(1)]
  show ?thesis
    by (auto simp: frame_message_Ok_iff bincode_codec.serialize_size unat_of_nat_u16)
qed

theorem frame_send_size_witness:
  "frame_send bincode_ref list_write_all (frame_from 1 (TcpData 7 (replicate 65499 0))) [] =
     Err FrameTooLarge"
  using frame_send_size [OF list_frames.frame_stream_axioms,
      of "frame_from 1 (TcpData 7 (replicate 65499 0))" "[]"]
  by (simp add: frame_from_def frame_size_def)

text \<open>
  Property C24. \<open>Frame::recv\<close> never panics. It succeeds exactly when the stream starts with
  a length, that many bytes, and these are a frame; it then consumes exactly those bytes.
  Otherwise it fails, for want of bytes or because they are no frame.
\<close>

theorem frame_recv_outcome:
  assumes "frame_stream bc write_all written read_exact unread"
  shows "case get_frame bc (unread r) of
     Some (f, rest) \<Rightarrow> \<exists>r'. frame_recv bc read_exact r = Ok (f, r') \<and> unread r' = rest
   | None \<Rightarrow> frame_recv bc read_exact r = Err (StreamFailed UnexpectedEof) \<or>
       frame_recv bc read_exact r = Err DeserializeError"
  using frame_stream.recv_get [OF assms] frame_stream.recv_none [OF assms]
  by (auto split: option.splits)

theorem frame_recv_outcome_witness:
  "frame_recv bincode_ref list_read_exact [0, 5, 1] = Err (StreamFailed UnexpectedEof) \<or>
   frame_recv bincode_ref list_read_exact [0, 5, 1] = Err DeserializeError"
  using frame_recv_outcome [OF list_frames.frame_stream_axioms, of "[0, 5, 1]"]
  by (simp add: get_frame_def get_body_def from_be_bytes_def)

text \<open>
  No I/O error of a connect becomes a network, TTL or server failure of its
  own: without the cargo feature \<open>io_error_more\<close>, which the crate does not declare, a SOCKS5
  client sees one of four statuses, and an unreachable network is reported to it as a
  general server failure.
\<close>

theorem socks5_status_of_io_error:
  "network_to_v5 (io_to_network False k d) \<in>
     {V5ConnectionRefused, V5HostUnreachable, V5ConnectionNotAllowed, V5ServerFailure} \<and>
   io_to_network False k d \<noteq> NetNetworkUnreachable \<and>
   network_to_v5 (io_to_network False NetworkUnreachable d) = V5ServerFailure \<and>
   network_to_v5 (io_to_network True NetworkUnreachable d) = V5NetworkUnreachable"
  by (simp add: io_to_network_def)
end
