(* ===== verification/Forward.thy ===== *)
theory Forward
  imports FrameStream Channel "HOL-Library.Sublist"
begin

text \<open>
  \<open>tcp_forward_loop\<close> of \<open>src/bin.todo/wsocks.rs\<close>: the two futures that carry a TCP
  connection through a stream of frames, raced against each other. One iteration of either
  is one turn, and a list of turns is an interleaving; the turns of the two futures touch
  different directions of the connection and of the stream, so an iteration is atomic.
  The socket is a dependency with the contract \<open>conn_stream\<close>.
\<close>


section \<open>The two futures\<close>

datatype forward_error = DeadlineReached | FrameFailed frame_error | ConnFailed io_error_kind

text \<open>\<open>if let Some(ref rx) = deadline_rx { if rx.try_recv().is_ok() { bail!(..) } }\<close>: whether
  the deadline was reached, and the channel afterwards.\<close>

definition check_deadline :: "('d, unit) chan_api \<Rightarrow> 'd option \<Rightarrow> bool \<times> 'd option" where
  "check_deadline dl_api dl =
     (case dl of
        None \<Rightarrow> (False, None)
      | Some c \<Rightarrow>
          (case try_recv dl_api c of
             Inl e \<Rightarrow> (False, Some c)
           | Inr (u, c') \<Rightarrow> (True, Some c')))"

text \<open>A number of such checks on the same channel, whoever makes them.\<close>

fun checks :: "('d, unit) chan_api \<Rightarrow> nat \<Rightarrow> 'd option \<Rightarrow> bool list" where
  "checks dl_api 0 dl = []"
| "checks dl_api (Suc n) dl =
     (case check_deadline dl_api dl of (hit, dl') \<Rightarrow> hit # checks dl_api n dl')"

record ('r, 'w, 'k) forward_ops =
  f_codec :: bincode
  f_read :: "'r \<Rightarrow> nat \<Rightarrow> io_error_kind + bytes \<times> 'r"
  f_write :: "'w \<Rightarrow> bytes \<Rightarrow> io_error_kind + 'w"
  conn_read :: "'k \<Rightarrow> nat \<Rightarrow> io_error_kind + bytes \<times> 'k"
  conn_write :: "'k \<Rightarrow> bytes \<Rightarrow> io_error_kind + 'k"

record ('d, 'r, 'w, 'k) forward =
  deadline :: "'d option"
  relconn_rx :: 'r
  relconn_tx :: 'w
  conn :: 'k

definition down_turn ::
  "('d, unit) chan_api \<Rightarrow> ('r, 'w, 'k) forward_ops \<Rightarrow> u128 \<Rightarrow> ('d, 'r, 'w, 'k) forward \<Rightarrow>
   'd option \<times> (forward_error, ('d, 'r, 'w, 'k) forward) outcome" where
  "down_turn dl_api ops offer_id st =
     (let (hit, dl) = check_deadline dl_api (deadline st) in
      if hit then (dl, Err DeadlineReached)
      else
        (dl, and_then (map_err FrameFailed (frame_recv (f_codec ops) (f_read ops) (relconn_rx st)))
               (\<lambda>(f, rx).
                 case frame_protocol f of
                   TcpData i payload \<Rightarrow>
                     if i \<noteq> offer_id then Panic ''assertion failed: id == offer_id''
                     else
                       (case conn_write ops (conn st) payload of
                          Inl k \<Rightarrow> Err (ConnFailed k)
                        | Inr c \<Rightarrow> Ok (st\<lparr>deadline := dl, relconn_rx := rx, conn := c\<rparr>))
                 | TcpConnect dst port \<Rightarrow> Panic ''not yet implemented''
                 | TcpOffer r \<Rightarrow> Panic ''not yet implemented'')))"

definition up_turn ::
  "('d, unit) chan_api \<Rightarrow> ('r, 'w, 'k) forward_ops \<Rightarrow> u128 \<Rightarrow> nat \<Rightarrow> ('d, 'r, 'w, 'k) forward \<Rightarrow>
   'd option \<times> (forward_error, ('d, 'r, 'w, 'k) forward) outcome" where
  "up_turn dl_api ops offer_id pad st =
     (let (hit, dl) = check_deadline dl_api (deadline st) in
      if hit then (dl, Err DeadlineReached)
      else
        (dl, case conn_read ops (conn st) 60000 of
               Inl k \<Rightarrow> Err (ConnFailed k)
             | Inr (payload, c) \<Rightarrow>
                 and_then
                   (map_err FrameFailed
                     (frame_send (f_codec ops) (f_write ops)
                        (frame_from pad (TcpData offer_id payload)) (relconn_tx st)))
                   (\<lambda>tx. Ok (st\<lparr>deadline := dl, relconn_tx := tx, conn := c\<rparr>))))"

text \<open>The race: turns in any order until one future returns; \<open>Up pad\<close> carries the length of
  the padding that was drawn.\<close>

datatype turn = Up nat | Down

fun tcp_forward_loop ::
  "('d, unit) chan_api \<Rightarrow> ('r, 'w, 'k) forward_ops \<Rightarrow> u128 \<Rightarrow> turn list \<Rightarrow>
   ('d, 'r, 'w, 'k) forward \<Rightarrow> (forward_error, ('d, 'r, 'w, 'k) forward) outcome" where
  "tcp_forward_loop dl_api ops offer_id [] st = Ok st"
| "tcp_forward_loop dl_api ops offer_id (Up pad # ts) st =
     and_then (snd (up_turn dl_api ops offer_id pad st)) (tcp_forward_loop dl_api ops offer_id ts)"
| "tcp_forward_loop dl_api ops offer_id (Down # ts) st =
     and_then (snd (down_turn dl_api ops offer_id st)) (tcp_forward_loop dl_api ops offer_id ts)"

fun ups :: "turn list \<Rightarrow> nat" where
  "ups [] = 0"
| "ups (Up pad # ts) = Suc (ups ts)"
| "ups (Down # ts) = ups ts"

fun downs :: "turn list \<Rightarrow> nat" where
  "downs [] = 0"
| "downs (Up pad # ts) = downs ts"
| "downs (Down # ts) = Suc (downs ts)"

fun padding_ok :: "turn \<Rightarrow> bool" where
  "padding_ok (Up pad) = (1 \<le> pad \<and> pad \<le> 128)"
| "padding_ok Down = True"


section \<open>What a turn does\<close>

text \<open>\<open>incoming\<close> is what can still be read from the connection, \<open>outgoing\<close> what has been
  written to it.\<close>

locale conn_stream =
  fixes conn_read :: "'k \<Rightarrow> nat \<Rightarrow> io_error_kind + bytes \<times> 'k"
    and conn_write :: "'k \<Rightarrow> bytes \<Rightarrow> io_error_kind + 'k"
    and incoming :: "'k \<Rightarrow> bytes" and outgoing :: "'k \<Rightarrow> bytes"
  assumes conn_read_front: "conn_read k n = Inr (d, k') \<Longrightarrow>
      incoming k = d @ incoming k' \<and> outgoing k' = outgoing k \<and> length d \<le> n"
    and conn_write_back: "conn_write k d = Inr k' \<Longrightarrow>
      outgoing k' = outgoing k @ d \<and> incoming k' = incoming k"

locale forwarding =
  frame_stream "f_codec ops" "f_write ops" written "f_read ops" unread +
  conn_stream "conn_read ops" "conn_write ops" incoming outgoing
  for ops :: "('r, 'w, 'k) forward_ops" and written :: "'w \<Rightarrow> bytes" and unread :: "'r \<Rightarrow> bytes"
    and incoming :: "'k \<Rightarrow> bytes" and outgoing :: "'k \<Rightarrow> bytes"
begin

lemma up_turn_Ok:
  assumes "snd (up_turn dl_api ops i pad st) = Ok st'"
  shows "\<exists>d b. incoming (conn st) = d @ incoming (conn st') \<and> length d \<le> 60000 \<and>
     put_frame (f_codec ops) (frame_from pad (TcpData i d)) = Some b \<and>
     written (relconn_tx st') = written (relconn_tx st) @ b \<and>
     outgoing (conn st') = outgoing (conn st) \<and> relconn_rx st' = relconn_rx st"
  using assms
  by (auto simp: up_turn_def Let_def outcome_simps dest!: send_Ok conn_read_front
      split: prod.splits if_splits sum.splits)

lemma down_turn_Ok:
  assumes "snd (down_turn dl_api ops i st) = Ok st'"
  shows "\<exists>f d. get_frame (f_codec ops) (unread (relconn_rx st)) = Some (f, unread (relconn_rx st')) \<and>
     frame_protocol f = TcpData i d \<and> outgoing (conn st') = outgoing (conn st) @ d \<and>
     incoming (conn st') = incoming (conn st) \<and> relconn_tx st' = relconn_tx st"
proof -
  obtain hit dl where cd: "check_deadline dl_api (deadline st) = (hit, dl)"
    by (cases "check_deadline dl_api (deadline st)")
  from assms cd have "\<not> hit" by (auto simp: down_turn_def)
  with assms cd obtain f rx where f: "frame_recv (f_codec ops) (f_read ops) (relconn_rx st) = Ok (f, rx)"
    and "(case frame_protocol f of
        TcpData j payload \<Rightarrow>
          if j \<noteq> i then Panic ''assertion failed: id == offer_id''
          else (case conn_write ops (conn st) payload of
                  Inl k \<Rightarrow> Err (ConnFailed k)
                | Inr c \<Rightarrow> Ok (st\<lparr>deadline := dl, relconn_rx := rx, conn := c\<rparr>))
      | TcpConnect dst port \<Rightarrow> Panic ''not yet implemented''
      | TcpOffer r \<Rightarrow> Panic ''not yet implemented'') = Ok st'"
    unfolding down_turn_def by (auto simp: outcome_simps)
  then obtain d c where d: "frame_protocol f = TcpData i d" "conn_write ops (conn st) d = Inr c"
    and st': "st' = st\<lparr>deadline := dl, relconn_rx := rx, conn := c\<rparr>"
    by (auto split: protocol_msg.splits if_splits sum.splits)
  with recv_Ok[OF f] d conn_write_back[OF d(2)] show ?thesis by auto
qed

text \<open>A whole run of the loop, in one formula: what it read from the connection went out in
  data frames, and what came in data frames was written to the connection.\<close>

definition carried ::
  "u128 \<Rightarrow> nat \<Rightarrow> nat \<Rightarrow> ('d, 'r, 'w, 'k) forward \<Rightarrow> ('d, 'r, 'w, 'k) forward \<Rightarrow>
   bytes list \<Rightarrow> frame list \<Rightarrow> bytes list \<Rightarrow> bytes list \<Rightarrow> frame list \<Rightarrow> bool" where
  "carried i n k st st' ds fs bs es gs \<longleftrightarrow>
     incoming (conn st) = concat ds @ incoming (conn st') \<and> length ds = n \<and>
     map frame_protocol fs = map (TcpData i) ds \<and>
     list_all2 (\<lambda>f b. put_frame (f_codec ops) f = Some b) fs bs \<and>
     written (relconn_tx st') = written (relconn_tx st) @ concat bs \<and>
     decode_many (get_frame (f_codec ops)) k (unread (relconn_rx st)) =
       Some (gs, unread (relconn_rx st')) \<and>
     map frame_protocol gs = map (TcpData i) es \<and>
     outgoing (conn st') = outgoing (conn st) @ concat es"

lemma carried_none: "carried i 0 0 st st [] [] [] [] []"
  by (simp add: carried_def)

lemma carried_up:
  assumes "snd (up_turn dl_api ops i pad st) = Ok st1" and "carried i n k st1 st' ds fs bs es gs"
  shows "\<exists>d b. carried i (Suc n) k st st' (d # ds) (frame_from pad (TcpData i d) # fs) (b # bs) es gs"
proof -
  from up_turn_Ok[OF assms(1)] obtain d b where u: "incoming (conn st) = d @ incoming (conn st1)"
    "put_frame (f_codec ops) (frame_from pad (TcpData i d)) = Some b"
    "written (relconn_tx st1) = written (relconn_tx st) @ b"
    "outgoing (conn st1) = outgoing (conn st)" "relconn_rx st1 = relconn_rx st"
    by blast
  moreover have "frame_protocol (frame_from pad (TcpData i d)) = TcpData i d"
    by (simp add: frame_from_def)
  ultimately show ?thesis
    using assms(2) by (intro exI[of _ d] exI[of _ b]) (simp add: carried_def)
qed

lemma carried_down:
  assumes "snd (down_turn dl_api ops i st) = Ok st1" and "carried i n k st1 st' ds fs bs es gs"
  shows "\<exists>d f. carried i n (Suc k) st st' ds fs bs (d # es) (f # gs)"
proof -
  from down_turn_Ok[OF assms(1)] obtain f d where
    "get_frame (f_codec ops) (unread (relconn_rx st)) = Some (f, unread (relconn_rx st1))"
    "frame_protocol f = TcpData i d" "outgoing (conn st1) = outgoing (conn st) @ d"
    "incoming (conn st1) = incoming (conn st)" "relconn_tx st1 = relconn_tx st"
    by blast
  with assms(2) show ?thesis
    by (intro exI[of _ d] exI[of _ f]) (simp add: carried_def)
qed

lemma forward_loop_Ok:
  assumes "tcp_forward_loop dl_api ops i ts st = Ok st'"
  shows "\<exists>ds fs bs es gs. carried i (ups ts) (downs ts) st st' ds fs bs es gs"
  using assms
proof (induction ts arbitrary: st)
  case Nil
  then show ?case using carried_none by fastforce
next
  case (Cons t ts)
  show ?case
  proof (cases t)
    case (Up pad)
    with Cons.prems obtain st1 where st1: "snd (up_turn dl_api ops i pad st) = Ok st1"
      and go: "tcp_forward_loop dl_api ops i ts st1 = Ok st'"
      by (auto simp: outcome_simps)
    from Cons.IH[OF go] carried_up[OF st1] show ?thesis unfolding Up ups.simps downs.simps by blast
  next
    case Down
    with Cons.prems obtain st1 where st1: "snd (down_turn dl_api ops i st) = Ok st1"
      and go: "tcp_forward_loop dl_api ops i ts st1 = Ok st'"
      by (auto simp: outcome_simps)
    from Cons.IH[OF go] carried_down[OF st1] show ?thesis unfolding Down ups.simps downs.simps by blast
  qed
qed

end

context forwarding
begin

lemma up_turn_total:
  assumes "1 \<le> pad" and "pad \<le> 128" and "\<And>k. conn_read ops (conn st) 60000 \<noteq> Inl k"
    and "\<not> fst (check_deadline dl_api (deadline st))"
  shows "\<exists>d c f b dl. conn_read ops (conn st) 60000 = Inr (d, c) \<and>
     f = frame_from pad (TcpData i d) \<and> put_frame (f_codec ops) f = Some b \<and>
     up_turn dl_api ops i pad st =
       (dl, and_then (map_err FrameFailed (in_stream (f_write ops (relconn_tx st) b)))
              (\<lambda>tx. Ok (st\<lparr>deadline := dl, relconn_tx := tx, conn := c\<rparr>)))"
proof -
  obtain d c where r: "conn_read ops (conn st) 60000 = Inr (d, c)"
    using assms(3) by (cases "conn_read ops (conn st) 60000") auto
  then have "length d \<le> 60000" using conn_read_front by blast
  then have "frame_size (frame_from pad (TcpData i d)) \<le> 65535"
    using assms(2) by (simp add: frame_size_def frame_from_def)
  then obtain b where b: "put_frame (f_codec ops) (frame_from pad (TcpData i d)) = Some b"
    using put_frame_fits by blast
  with assms(4) r send_put[OF b, of "relconn_tx st"] show ?thesis
    by (auto simp: up_turn_def split: prod.splits)
qed

lemma up_turn_cases:
  assumes "1 \<le> pad" and "pad \<le> 128"
  shows "case snd (up_turn dl_api ops i pad st) of
     Ok st' \<Rightarrow> \<exists>d. length d \<le> 60000 \<and> incoming (conn st) = d @ incoming (conn st') \<and>
       (\<exists>b. put_frame (f_codec ops) (frame_from pad (TcpData i d)) = Some b \<and>
          written (relconn_tx st') = written (relconn_tx st) @ b)
   | Err e \<Rightarrow> e = DeadlineReached \<or> (\<exists>k. e = ConnFailed k) \<or> (\<exists>k. e = FrameFailed (StreamFailed k))
   | Panic m \<Rightarrow> False"
proof (cases "fst (check_deadline dl_api (deadline st)) \<or> (\<exists>k. conn_read ops (conn st) 60000 = Inl k)")
  case True
  then show ?thesis by (auto simp: up_turn_def split: prod.splits)
next
  case False
  with up_turn_total [OF assms, of st dl_api i] obtain d c b dl where
    "up_turn dl_api ops i pad st =
       (dl, and_then (map_err FrameFailed (in_stream (f_write ops (relconn_tx st) b)))
              (\<lambda>tx. Ok (st\<lparr>deadline := dl, relconn_tx := tx, conn := c\<rparr>)))"
    by auto
  then show ?thesis
    using up_turn_Ok [of dl_api i pad st]
    by (cases "f_write ops (relconn_tx st) b") auto
qed

end


section \<open>What the loop guarantees\<close>

text \<open>A connection that is the bytes still to be read and the bytes written.\<close>

definition list_conn_read :: "bytes \<times> bytes \<Rightarrow> nat \<Rightarrow> io_error_kind + bytes \<times> (bytes \<times> bytes)" where
  "list_conn_read k n = Inr (take n (fst k), (drop n (fst k), snd k))"

definition list_conn_write :: "bytes \<times> bytes \<Rightarrow> bytes \<Rightarrow> io_error_kind + bytes \<times> bytes" where
  "list_conn_write k d = Inr (fst k, snd k @ d)"

definition list_ops :: "(bytes, bytes, bytes \<times> bytes) forward_ops" where
  "list_ops = \<lparr>f_codec = bincode_ref, f_read = list_read_exact, f_write = list_write_all,
     conn_read = list_conn_read, conn_write = list_conn_write\<rparr>"

interpretation list_conn: conn_stream list_conn_read list_conn_write fst snd
  by unfold_locales (auto simp: list_conn_read_def list_conn_write_def)

interpretation list_forward: forwarding list_ops id id fst snd
  by (intro forwarding.intro)
    (simp_all add: list_ops_def list_frames.frame_stream_axioms list_conn.conn_stream_axioms)

definition list_state :: "bytes \<Rightarrow> bytes \<Rightarrow> (unit fifo, bytes, bytes, bytes \<times> bytes) forward" where
  "list_state from_peer from_conn =
     \<lparr>deadline = None, relconn_rx = from_peer, relconn_tx = [], conn = (from_conn, [])\<rparr>"

lemma list_up_turn:
  assumes "length d \<le> 60000" and "put_frame bincode_ref (frame_from pad (TcpData i d)) = Some b"
  shows "tcp_forward_loop fifo_api list_ops i [Up pad]
       \<lparr>deadline = None, relconn_rx = r, relconn_tx = w, conn = (d, sent)\<rparr> =
     Ok \<lparr>deadline = None, relconn_rx = r, relconn_tx = w @ b, conn = ([], sent)\<rparr>"
  using assms list_frames.send_put[OF assms(2), of w]
  by (simp add: up_turn_def check_deadline_def list_ops_def list_conn_read_def list_write_all_def)

lemma list_down_turn:
  assumes "put_frame bincode_ref (frame_from pad (TcpData i d)) = Some b"
    and "\<not> fst (check_deadline fifo_api dl)"
  shows "tcp_forward_loop fifo_api list_ops i [Down]
       \<lparr>deadline = dl, relconn_rx = b @ r, relconn_tx = w, conn = (k, sent)\<rparr> =
     Ok \<lparr>deadline = snd (check_deadline fifo_api dl), relconn_rx = r, relconn_tx = w, conn = (k, sent @ d)\<rparr>"
proof -
  have "get_frame bincode_ref (id (b @ r)) = Some (frame_from pad (TcpData i d), r)"
    using bincode_ref.frames.get_put[OF assms(1), of r] by simp
  from list_frames.recv_get[OF this] assms(2) show ?thesis
    by (auto simp: down_turn_def list_ops_def list_conn_write_def frame_from_def split: prod.splits)
qed

lemma tunnel_in_order:
  assumes "forwarding opsA writtenA unreadA incomingA outgoingA"
    and "forwarding opsB writtenB unreadB incomingB outgoingB" and "f_codec opsA = f_codec opsB"
    and "tcp_forward_loop dlA opsA i tsA a = Ok a'" and "tcp_forward_loop dlB opsB i tsB b = Ok b'"
    and "writtenA (relconn_tx a') = writtenA (relconn_tx a) @ unreadB (relconn_rx b) @ in_flight"
  shows "\<exists>ds. incomingA (conn a) = concat ds @ incomingA (conn a') \<and> length ds = ups tsA \<and>
     downs tsB \<le> ups tsA \<and>
     outgoingB (conn b') = outgoingB (conn b) @ concat (take (downs tsB) ds)"
proof -
  from forwarding.forward_loop_Ok [OF assms(1) assms(4)] obtain ds fs bs where
    up: "incomingA (conn a) = concat ds @ incomingA (conn a')" "length ds = ups tsA"
      "map frame_protocol fs = map (TcpData i) ds"
      "list_all2 (\<lambda>f b. put_frame (f_codec opsA) f = Some b) fs bs"
      "writtenA (relconn_tx a') = writtenA (relconn_tx a) @ concat bs"
    unfolding forwarding.carried_def [OF assms(1)] by blast
  from forwarding.forward_loop_Ok [OF assms(2) assms(5)] obtain es gs where
    down: "decode_many (get_frame (f_codec opsB)) (downs tsB) (unreadB (relconn_rx b)) =
        Some (gs, unreadB (relconn_rx b'))"
      "map frame_protocol gs = map (TcpData i) es" "outgoingB (conn b') = outgoingB (conn b) @ concat es"
    unfolding forwarding.carried_def [OF assms(2)] by blast
  from up(5) assms(6) have "concat bs = unreadB (relconn_rx b) @ in_flight" by simp
  with decode_many_append [OF down(1), of in_flight] assms(3)
  have "decode_many (get_frame (f_codec opsA)) (downs tsB) (concat bs) =
      Some (gs, unreadB (relconn_rx b') @ in_flight)" by simp
  with up(4) forwarding.axioms(1) [OF assms(1)]
  have "downs tsB \<le> length fs \<and> gs = take (downs tsB) fs"
    by (intro frame_stream.decode_many_of_frames)
  moreover have "length fs = ups tsA" using up(2,3) by (metis length_map)
  ultimately have "downs tsB \<le> ups tsA" and "map (TcpData i) es = map (TcpData i) (take (downs tsB) ds)"
    using down(2) up(3) by (auto simp: take_map [symmetric])
  moreover have "inj (TcpData i)" by (auto simp: inj_def)
  ultimately show ?thesis using up down(3) by (auto simp: inj_map_eq_map)
qed

text \<open>
  The tunnel. Two loops run at the ends of a stream, each with its turns in
  any order, and part of what one has sent has reached the other. Then what the receiving
  end has written to its connection is, read by read, the beginning of what the sending end
  has taken from its own: nothing is lost, repeated, reordered or invented.
\<close>

theorem tunnel_carries_bytes_in_order:
  assumes "forwarding opsA writtenA unreadA incomingA outgoingA"
    and "forwarding opsB writtenB unreadB incomingB outgoingB" and "f_codec opsA = f_codec opsB"
    and "tcp_forward_loop dlA opsA i tsA a = Ok a'" and "tcp_forward_loop dlB opsB i tsB b = Ok b'"
    and "writtenA (relconn_tx a') = writtenA (relconn_tx a) @ unreadB (relconn_rx b) @ in_flight"
  shows "\<exists>ds. incomingA (conn a) = concat ds @ incomingA (conn a') \<and> length ds = ups tsA \<and>
     downs tsB \<le> ups tsA \<and>
     outgoingB (conn b') = outgoingB (conn b) @ concat (take (downs tsB) ds)"
  by (rule tunnel_in_order [OF assms])

theorem tunnel_carries_bytes_in_order_witness:
  "\<exists>a' b'. tcp_forward_loop fifo_api list_ops 7 [Up 1] (list_state [] [1, 2]) = Ok a' \<and>
     tcp_forward_loop fifo_api list_ops 7 [Down] (list_state (relconn_tx a') []) = Ok b' \<and>
     snd (conn b') = [1, 2]"
proof -
  obtain b where b: "put_frame bincode_ref (frame_from 1 (TcpData 7 [1, 2])) = Some b"
    using list_frames.put_frame_fits by (force simp: frame_from_def frame_size_def)
  define a' where "a' = (list_state [] [])\<lparr>relconn_tx := b\<rparr>"
  have a': "tcp_forward_loop fifo_api list_ops 7 [Up 1] (list_state [] [1, 2]) = Ok a'"
    "relconn_tx a' = b" "conn a' = ([], [])"
    using list_up_turn [OF _ b, of "[]" "[]" "[]"] by (simp_all add: a'_def list_state_def)
  from list_down_turn [OF b, of None "[]" "[]" "[]" "[]"] obtain b' where
    b': "tcp_forward_loop fifo_api list_ops 7 [Down] (list_state b []) = Ok b'"
    by (auto simp: list_state_def check_deadline_def)
  have "\<exists>ds. fst (conn (list_state [] [1, 2])) = concat ds @ fst (conn a') \<and> length ds = ups [Up 1] \<and>
     downs [Down] \<le> ups [Up 1] \<and>
     snd (conn b') = snd (conn (list_state b [])) @ concat (take (downs [Down]) ds)"
    by (rule tunnel_carries_bytes_in_order
        [OF list_forward.forwarding_axioms list_forward.forwarding_axioms refl a'(1) b', where in_flight = "[]"])
      (simp add: a'(2) list_state_def)
  with a' b' show ?thesis by (auto simp: list_state_def length_Suc_conv)
qed

text \<open>
  Property C32. One iteration of the upload side never panics and its frame is never too
  large: 60000 bytes of payload with at most 128 bytes of padding always fit. So it fails
  only at the deadline or with an I/O error of the connection or of the stream.
\<close>

theorem up_turn_outcome:
  assumes "forwarding ops written unread incoming outgoing" and "1 \<le> pad" and "pad \<le> 128"
  shows "case snd (up_turn dl_api ops i pad st) of
     Ok st' \<Rightarrow> \<exists>d. length d \<le> 60000 \<and> incoming (conn st) = d @ incoming (conn st') \<and>
       (\<exists>b. put_frame (f_codec ops) (frame_from pad (TcpData i d)) = Some b \<and>
          written (relconn_tx st') = written (relconn_tx st) @ b)
   | Err e \<Rightarrow> e = DeadlineReached \<or> (\<exists>k. e = ConnFailed k) \<or> (\<exists>k. e = FrameFailed (StreamFailed k))
   | Panic m \<Rightarrow> False"
  by (rule forwarding.up_turn_cases [OF assms])

theorem up_turn_outcome_witness:
  "\<exists>st'. snd (up_turn fifo_api list_ops 7 128 (list_state [] (replicate 60000 1))) = Ok st' \<or>
     (\<exists>e. snd (up_turn fifo_api list_ops 7 128 (list_state [] (replicate 60000 1))) = Err e)"
  using up_turn_outcome [OF list_forward.forwarding_axioms, where pad = 128 and
      st = "list_state [] (replicate 60000 1)" and dl_api = fifo_api and i = 7]
  by (auto split: outcome.splits)

text \<open>
  Property C31. One iteration of the download side, on every branch: a deadline that it sees
  ends it before it reads; bytes that end or decode as no frame are an error; a data frame of
  its own connection has its payload written to the connection and is taken from the stream,
  or fails exactly if that write fails; and any other frame the peer sends, a data frame of
  another connection or a message of the handshake, is a panic, so a peer can crash it.
\<close>

theorem down_turn_outcome:
  assumes "forwarding ops written unread incoming outgoing"
  shows "fst (down_turn dl_api ops i st) = snd (check_deadline dl_api (deadline st)) \<and>
     (let r = snd (down_turn dl_api ops i st) in
      if fst (check_deadline dl_api (deadline st)) then r = Err DeadlineReached
      else case get_frame (f_codec ops) (unread (relconn_rx st)) of
        None \<Rightarrow> r = Err (FrameFailed (StreamFailed UnexpectedEof)) \<or> r = Err (FrameFailed DeserializeError)
      | Some (f, rest) \<Rightarrow>
          (case frame_protocol f of
             TcpData j d \<Rightarrow>
               if j \<noteq> i then is_panic r
               else (case conn_write ops (conn st) d of
                       Inl k \<Rightarrow> r = Err (ConnFailed k)
                     | Inr c \<Rightarrow> (\<exists>st'. r = Ok st' \<and> conn st' = c \<and> outgoing c = outgoing (conn st) @ d \<and>
                         incoming c = incoming (conn st) \<and> unread (relconn_rx st') = rest \<and>
                         relconn_tx st' = relconn_tx st))
           | TcpConnect dst port \<Rightarrow> is_panic r
           | TcpOffer offer \<Rightarrow> is_panic r))"
proof -
  obtain hit dl where dl: "check_deadline dl_api (deadline st) = (hit, dl)"
    by (cases "check_deadline dl_api (deadline st)") auto
  note stream = forwarding.axioms(1) [OF assms]
  show ?thesis
  proof (cases "get_frame (f_codec ops) (unread (relconn_rx st))")
    case None
    with frame_stream.recv_none [OF stream, of "relconn_rx st"] dl
    show ?thesis by (auto simp: down_turn_def Let_def)
  next
    case (Some x)
    then obtain f rest where x: "get_frame (f_codec ops) (unread (relconn_rx st)) = Some (f, rest)"
      by (cases x) auto
    with frame_stream.recv_get [OF stream] obtain rx where
      rx: "frame_recv (f_codec ops) (f_read ops) (relconn_rx st) = Ok (f, rx)" "unread rx = rest"
      by blast
    show ?thesis
    proof (cases "frame_protocol f")
      case (TcpData j d)
      with dl rx x show ?thesis
        using conn_stream.conn_write_back [OF forwarding.axioms(2) [OF assms], of "conn st" d]
        by (cases "conn_write ops (conn st) d") (auto simp: down_turn_def Let_def)
    qed (use dl rx x in \<open>auto simp: down_turn_def Let_def\<close>)
  qed
qed

theorem down_turn_outcome_witness:
  "\<exists>b. is_panic (snd (down_turn fifo_api list_ops 7 (list_state b []))) \<and>
     put_frame bincode_ref (frame_from 1 (TcpData 8 [])) = Some b"
proof -
  obtain b where b: "put_frame bincode_ref (frame_from 1 (TcpData 8 [])) = Some b"
    using list_frames.put_frame_fits by (force simp: frame_from_def frame_size_def)
  with bincode_ref.frames.get_put [OF b, of "[]"]
    down_turn_outcome [OF list_forward.forwarding_axioms, where dl_api = fifo_api and i = 7
      and st = "list_state b []"]
  show ?thesis
    by (auto simp: check_deadline_def list_state_def list_ops_def frame_from_def)
qed

text \<open>
  Property C33. The upload side does not notice the end of its connection: \<open>read\<close> returning
  no bytes is the end of the input, but the loop goes round, however often, and each round
  sends the peer another frame with an empty payload, of at least 39 bytes.
\<close>

theorem upload_spins_at_end_of_input:
  assumes "forwarding ops written unread incoming outgoing" and "deadline st = None"
    and "conn_read ops (conn st) 60000 = Inr ([], conn st)"
    and "\<And>w b. \<exists>w'. f_write ops w b = Inr w'"
    and "\<forall>pad \<in> set pads. 1 \<le> pad \<and> pad \<le> 128"
  shows "\<exists>st' bs. tcp_forward_loop dl_api ops i (map Up pads) st = Ok st' \<and>
     conn st' = conn st \<and> written (relconn_tx st') = written (relconn_tx st) @ concat bs \<and>
     list_all2 (\<lambda>pad b. put_frame (f_codec ops) (frame_from pad (TcpData i [])) = Some b \<and>
       39 \<le> length b) pads bs"
  using assms(2,3,5)
proof (induction pads arbitrary: st)
  case Nil
  then show ?case by simp
next
  case (Cons pad pads)
  have "\<not> fst (check_deadline dl_api (deadline st))"
    using Cons.prems by (simp add: check_deadline_def)
  with forwarding.up_turn_total [OF assms(1), of pad st dl_api i] Cons.prems obtain b dl where
    b: "put_frame (f_codec ops) (frame_from pad (TcpData i [])) = Some b"
    and u: "up_turn dl_api ops i pad st =
       (dl, and_then (map_err FrameFailed (in_stream (f_write ops (relconn_tx st) b)))
              (\<lambda>tx. Ok (st\<lparr>deadline := dl, relconn_tx := tx\<rparr>)))" and "dl = None"
    by (auto simp: up_turn_def check_deadline_def)
  obtain w' where w': "f_write ops (relconn_tx st) b = Inr w'" using assms(4) by blast
  define st1 where "st1 = st\<lparr>deadline := dl, relconn_tx := w'\<rparr>"
  have st1: "snd (up_turn dl_api ops i pad st) = Ok st1" "conn st1 = conn st" "deadline st1 = None"
    by (simp_all add: u w' st1_def \<open>dl = None\<close>)
  have "written (relconn_tx st1) = written (relconn_tx st) @ b"
    using w' byte_stream.write_all_appends [OF frame_stream.axioms(2) [OF forwarding.axioms(1) [OF assms(1)]]]
    by (simp add: st1_def)
  moreover have "39 \<le> length b"
    using frame_stream.put_frame_size [OF forwarding.axioms(1) [OF assms(1)] b] Cons.prems
    by (simp add: frame_size_def frame_from_def)
  moreover obtain st' bs where "tcp_forward_loop dl_api ops i (map Up pads) st1 = Ok st'"
    "conn st' = conn st1" "written (relconn_tx st') = written (relconn_tx st1) @ concat bs"
    "list_all2 (\<lambda>pad b. put_frame (f_codec ops) (frame_from pad (TcpData i [])) = Some b \<and>
       39 \<le> length b) pads bs"
    using Cons.IH [of st1] Cons.prems st1 by auto
  ultimately show ?case using b st1 by (intro exI [of _ st'] exI [of _ "b # bs"]) simp
qed

theorem upload_spins_at_end_of_input_witness:
  "\<exists>st'. tcp_forward_loop fifo_api list_ops 7 (map Up (replicate 100 1)) (list_state [] []) = Ok st' \<and>
     conn st' = ([], [])"
  using upload_spins_at_end_of_input [OF list_forward.forwarding_axioms, where pads = "replicate 100 1"
      and st = "list_state [] []" and dl_api = fifo_api and i = 7]
  by (auto simp: list_state_def list_ops_def list_conn_read_def list_write_all_def)

text \<open>
  The deadline of a session is seen once. Its one message is queued on a
  channel that the session's accept loop and both sides of every connection poll: whoever
  looks first takes it, and every later look, by anyone, finds the channel empty and goes on.
\<close>

theorem deadline_seen_once:
  assumes "smol_channel dl_api view" and "queue (view c) = [()]"
  shows "checks dl_api (Suc n) (Some c) = True # replicate n False"
proof -
  have drained: "checks dl_api m (Some c') = replicate m False" if "queue (view c') = []" for c' m
  proof (induction m)
    case (Suc m)
    with that show ?case
      using smol_channel.try_recv_Inr(1) [OF assms(1), of c']
      by (cases "try_recv dl_api c'") (auto simp: check_deadline_def)
  qed simp
  from smol_channel.try_recv_Cons [OF assms] obtain c' where
    "try_recv dl_api c = Inr ((), c')" "queue (view c') = []"
    by (metis (no_types) fifo.select_convs(1) fifo.surjective fifo.update_convs(1))
  with drained [of c' n] show ?thesis by (simp add: check_deadline_def)
qed

theorem deadline_seen_once_witness:
  "checks fifo_api 3 (Some \<lparr>queue = [()], capacity = Some 1, hung_up = True\<rparr>) = [True, False, False]"
  using deadline_seen_once [OF fifo.smol_channel_axioms, of "\<lparr>queue = [()], capacity = Some 1, hung_up = True\<rparr>" 2]
  by (simp add: numeral_2_eq_2 numeral_3_eq_3)

end
