(* ===== verification/Tunnel.thy ===== *)
theory Tunnel
  imports Forward
begin

text \<open>
  Both ends of a proxied connection at once: the two forwarding loops of
  \<open>src/bin.todo/wsocks.rs\<close> and the stream between them as one relation. Here a loop waits
  where its code awaits: the download future for a whole frame, or the end of the stream.
  When one future returns, the race drops the other wherever it is in its turn, so that part
  of a frame may have been sent and part of a payload written.
\<close>


section \<open>Two ends and a stream\<close>

datatype side = ClientSide | ServerSide

fun peer_side :: "side \<Rightarrow> side" where
  "peer_side ClientSide = ServerSide"
| "peer_side ServerSide = ClientSide"

lemma peer_side_peer [simp]: "peer_side (peer_side s) = s" "peer_side s \<noteq> s" "s \<noteq> peer_side s"
  by (cases s; simp)+

datatype ('d, 'r, 'w, 'k) tunnel_end =
    Forwarding "('d, 'r, 'w, 'k) forward"
  | Returned forward_error
  | Crashed string

text \<open>\<open>sent_by\<close> is what an end has written to the stream, \<open>arrived_at\<close> what the stream has
  brought to it, \<open>stream_over\<close> whether the stream has told it that no more will come.\<close>

record ('d, 'r, 'w, 'k) tunnel =
  tunnel_ends :: "side \<Rightarrow> ('d, 'r, 'w, 'k) tunnel_end"
  sent_by :: "side \<Rightarrow> bytes"
  arrived_at :: "side \<Rightarrow> bytes"
  stream_over :: "side \<Rightarrow> bool"

text \<open>\<open>TunEnd s d q\<close>: the loop of \<open>s\<close> returns; \<open>d\<close> is the payload whose frame was being sent,
  if one was, and \<open>q\<close> what was written of the payload being delivered.\<close>

datatype 'd tunnel_event =
    TunUp side bytes
  | TunDown side bytes
  | TunCarry side bytes
  | TunOver side
  | TunDeadline side 'd
  | TunEnd side "bytes option" bytes

definition frame_arrived :: "bytes \<Rightarrow> bool" where
  "frame_arrived bs \<longleftrightarrow> get_body bs \<noteq> None"

text \<open>The future that sends, dropped in the middle of a turn.\<close>

definition up_dropped ::
  "('r, 'w, 'k) forward_ops \<Rightarrow> u128 \<Rightarrow> ('d, 'r, 'w, 'k) forward \<Rightarrow> bytes option \<Rightarrow> bytes \<Rightarrow> bool" where
  "up_dropped ops offer_id st d p \<longleftrightarrow>
     (case d of
        None \<Rightarrow> p = []
      | Some payload \<Rightarrow> (\<exists>c pad b. conn_read ops (conn st) 60000 = Inr (payload, c) \<and> 1 \<le> pad \<and> pad \<le> 128 \<and>
          put_frame (f_codec ops) (frame_from pad (TcpData offer_id payload)) = Some b \<and> prefix p b))"

text \<open>The future that delivers, dropped in the middle of a turn.\<close>

definition down_dropped ::
  "('r, 'w, 'k) forward_ops \<Rightarrow> u128 \<Rightarrow> ('d, 'r, 'w, 'k) forward \<Rightarrow> bytes \<Rightarrow> bool" where
  "down_dropped ops offer_id st q \<longleftrightarrow> q = [] \<or>
     (\<exists>f rx payload. frame_recv (f_codec ops) (f_read ops) (relconn_rx st) = Ok (f, rx) \<and>
        frame_protocol f = TcpData offer_id payload \<and> prefix q payload)"

text \<open>How the loop returns when one of its futures does.\<close>

fun end_of :: "(forward_error, ('d, 'r, 'w, 'k) forward) outcome \<Rightarrow> ('d, 'r, 'w, 'k) tunnel_end" where
  "end_of (Ok st) = Forwarding st"
| "end_of (Err e) = Returned e"
| "end_of (Panic m) = Crashed m"

fun end_receives :: "('r \<Rightarrow> bytes \<Rightarrow> 'r) \<Rightarrow> bytes \<Rightarrow> ('d, 'r, 'w, 'k) tunnel_end \<Rightarrow> ('d, 'r, 'w, 'k) tunnel_end" where
  "end_receives arrive b (Forwarding st) = Forwarding (st\<lparr>relconn_rx := arrive (relconn_rx st) b\<rparr>)"
| "end_receives arrive b e = e"

text \<open>What the end of the loop makes of the task that awaits it: the handlers of the client pass
  its error on (\<open>.await?\<close>), the task of a connection at the server unwraps it
  (\<open>.await.unwrap()\<close>).\<close>

fun awaiting_task :: "side \<Rightarrow> ('d, 'r, 'w, 'k) tunnel_end \<Rightarrow> (forward_error, unit) outcome option" where
  "awaiting_task s (Forwarding st) = None"
| "awaiting_task ClientSide (Returned e) = Some (Err e)"
| "awaiting_task ServerSide (Returned e) = Some (unwrap_outcome (Err e))"
| "awaiting_task s (Crashed m) = Some (Panic m)"

inductive tunnel_step ::
  "('d, unit) chan_api \<Rightarrow> ('r, 'w, 'k) forward_ops \<Rightarrow> ('w \<Rightarrow> bytes) \<Rightarrow> ('r \<Rightarrow> bytes) \<Rightarrow>
   ('r \<Rightarrow> bytes \<Rightarrow> 'r) \<Rightarrow> u128 \<Rightarrow> ('d, 'r, 'w, 'k) tunnel \<Rightarrow> 'd tunnel_event \<Rightarrow> ('d, 'r, 'w, 'k) tunnel \<Rightarrow> bool"
  for dl_api ops written unread arrive offer_id where
  tun_up: "tunnel_ends x s = Forwarding st \<Longrightarrow> 1 \<le> pad \<Longrightarrow> pad \<le> 128 \<Longrightarrow>
    conn_read ops (conn st) 60000 = Inr (payload, c) \<Longrightarrow>
    snd (up_turn dl_api ops offer_id pad st) = Ok st' \<Longrightarrow>
    written (relconn_tx st') = written (relconn_tx st) @ b \<Longrightarrow>
    tunnel_step dl_api ops written unread arrive offer_id x (TunUp s payload)
      (x\<lparr>tunnel_ends := (tunnel_ends x)(s := Forwarding st'), sent_by := (sent_by x)(s := sent_by x s @ b)\<rparr>)"
| tun_down: "tunnel_ends x s = Forwarding st \<Longrightarrow> frame_arrived (unread (relconn_rx st)) \<Longrightarrow>
    frame_recv (f_codec ops) (f_read ops) (relconn_rx st) = Ok (f, rx) \<Longrightarrow>
    frame_protocol f = TcpData offer_id payload \<Longrightarrow>
    snd (down_turn dl_api ops offer_id st) = Ok st' \<Longrightarrow>
    tunnel_step dl_api ops written unread arrive offer_id x (TunDown s payload)
      (x\<lparr>tunnel_ends := (tunnel_ends x)(s := Forwarding st')\<rparr>)"
| tun_carry: "\<not> stream_over x s \<Longrightarrow> prefix (arrived_at x s @ b) (sent_by x (peer_side s)) \<Longrightarrow>
    tunnel_step dl_api ops written unread arrive offer_id x (TunCarry s b)
      (x\<lparr>tunnel_ends := (tunnel_ends x)(s := end_receives arrive b (tunnel_ends x s)),
         arrived_at := (arrived_at x)(s := arrived_at x s @ b)\<rparr>)"
| tun_over: "tunnel_step dl_api ops written unread arrive offer_id x (TunOver s)
      (x\<lparr>stream_over := (stream_over x)(s := True)\<rparr>)"
| tun_deadline: "tunnel_ends x s = Forwarding st \<Longrightarrow> deadline st \<noteq> None \<Longrightarrow>
    tunnel_step dl_api ops written unread arrive offer_id x (TunDeadline s dl)
      (x\<lparr>tunnel_ends := (tunnel_ends x)(s := Forwarding (st\<lparr>deadline := Some dl\<rparr>))\<rparr>)"
| tun_end: "tunnel_ends x s = Forwarding st \<Longrightarrow>
    (\<exists>pad. 1 \<le> pad \<and> pad \<le> 128 \<and> snd (up_turn dl_api ops offer_id pad st) = r) \<or>
      (frame_arrived (unread (relconn_rx st)) \<or> stream_over x s \<or> fst (check_deadline dl_api (deadline st))) \<and>
        snd (down_turn dl_api ops offer_id st) = r \<Longrightarrow>
    \<forall>st'. r \<noteq> Ok st' \<Longrightarrow> up_dropped ops offer_id st d p \<Longrightarrow> down_dropped ops offer_id st q \<Longrightarrow>
    tunnel_step dl_api ops written unread arrive offer_id x (TunEnd s d q)
      (x\<lparr>tunnel_ends := (tunnel_ends x)(s := end_of r), sent_by := (sent_by x)(s := sent_by x s @ p)\<rparr>)"

text \<open>Both loops begin; the stream between them has nothing on the way.\<close>

definition tunnel_start ::
  "('d, 'r, 'w, 'k) forward \<Rightarrow> ('d, 'r, 'w, 'k) forward \<Rightarrow> ('d, 'r, 'w, 'k) tunnel" where
  "tunnel_start client server =
     \<lparr>tunnel_ends = (\<lambda>s. Forwarding (case s of ClientSide \<Rightarrow> client | ServerSide \<Rightarrow> server)),
      sent_by = (\<lambda>s. []), arrived_at = (\<lambda>s. []), stream_over = (\<lambda>s. False)\<rparr>"

text \<open>What the events tell: the payloads whose frames were sent whole, the payload whose frame
  was being sent when the loop ended, the payloads delivered, and the part of one more.\<close>

fun payloads_up :: "side \<Rightarrow> 'd tunnel_event list \<Rightarrow> bytes list" where
  "payloads_up s [] = []"
| "payloads_up s (TunUp s' d # evs) = (if s' = s then d # payloads_up s evs else payloads_up s evs)"
| "payloads_up s (_ # evs) = payloads_up s evs"

fun payloads_down :: "side \<Rightarrow> 'd tunnel_event list \<Rightarrow> bytes list" where
  "payloads_down s [] = []"
| "payloads_down s (TunDown s' d # evs) = (if s' = s then d # payloads_down s evs else payloads_down s evs)"
| "payloads_down s (_ # evs) = payloads_down s evs"

fun last_up :: "side \<Rightarrow> 'd tunnel_event list \<Rightarrow> bytes list" where
  "last_up s [] = []"
| "last_up s (TunEnd s' d q # evs) =
     (if s' = s then (case d of None \<Rightarrow> [] | Some payload \<Rightarrow> [payload]) @ last_up s evs else last_up s evs)"
| "last_up s (_ # evs) = last_up s evs"

fun last_down :: "side \<Rightarrow> 'd tunnel_event list \<Rightarrow> bytes" where
  "last_down s [] = []"
| "last_down s (TunEnd s' d q # evs) = (if s' = s then q @ last_down s evs else last_down s evs)"
| "last_down s (_ # evs) = last_down s evs"

lemma payloads_append [simp]:
  "payloads_up s (evs @ evs') = payloads_up s evs @ payloads_up s evs'"
  "payloads_down s (evs @ evs') = payloads_down s evs @ payloads_down s evs'"
  "last_up s (evs @ evs') = last_up s evs @ last_up s evs'"
  "last_down s (evs @ evs') = last_down s evs @ last_down s evs'"
  by (induction s evs rule: payloads_up.induct) auto

section \<open>What holds at every moment\<close>

definition data_frame :: "bincode \<Rightarrow> u128 \<Rightarrow> bytes \<Rightarrow> bytes \<Rightarrow> bool" where
  "data_frame bc offer_id d b \<longleftrightarrow> (\<exists>pad. put_frame bc (frame_from pad (TcpData offer_id d)) = Some b)"

context bincode_codec
begin

lemma get_data_frame:
  "data_frame bc i d b \<Longrightarrow> \<exists>f. get_frame bc (b @ rest) = Some (f, rest) \<and> frame_protocol f = TcpData i d"
  using get_put_frame by (fastforce simp: data_frame_def frame_from_def)

lemma decode_data_frames:
  assumes "list_all2 (data_frame bc i) ds bs" and "decode_many (get_frame bc) k (concat bs) = Some (fs, r)"
  shows "k \<le> length ds \<and> map frame_protocol fs = map (TcpData i) (take k ds) \<and> r = concat (drop k bs)"
  using assms
proof (induction arbitrary: k fs rule: list_all2_induct)
  case Nil
  then show ?case by (cases k) auto
next
  case (Cons d ds b bs)
  show ?case
  proof (cases k)
    case 0
    with Cons.prems show ?thesis by simp
  next
    case (Suc n)
    from get_data_frame [OF Cons.hyps(1), of "concat bs"] obtain f where
      "get_frame bc (b @ concat bs) = Some (f, concat bs)" "frame_protocol f = TcpData i d" by blast
    with Cons.prems Cons.IH Suc show ?thesis by (auto split: option.splits)
  qed
qed

text \<open>A whole frame at the front of what has arrived is the next data frame.\<close>

lemma next_data_frame:
  assumes "list_all2 (data_frame bc i) ds bs" and "arr @ rest = concat bs" and "frame_arrived arr"
  shows "\<exists>d ds' f arr'. ds = d # ds' \<and> get_frame bc arr = Some (f, arr') \<and> frame_protocol f = TcpData i d"
proof -
  from assms(3) obtain buf arr' where arr: "get_body arr = Some (buf, arr')" by (auto simp: frame_arrived_def)
  with get_body_append [of arr buf arr' rest] assms(2) have all: "get_body (concat bs) = Some (buf, arr' @ rest)"
    by simp
  from assms(1) all obtain d ds' b bs' where ds: "ds = d # ds'" and bs: "bs = b # bs'" "data_frame bc i d b"
    by (cases ds; cases bs) (auto simp: get_body_def)
  from get_data_frame [OF bs(2), of "concat bs'"] all obtain f where
    "deserialize bc buf = Inr f" "frame_protocol f = TcpData i d"
    by (auto simp: bs(1) get_frame_def split: sum.splits)
  with arr ds show ?thesis by (auto simp: get_frame_def)
qed

end

text \<open>
  What one end has sent, \<open>sends\<close> whole frames and perhaps part of a last one; what it has
  received, \<open>gets\<close> whole payloads written and perhaps part of another; what it has taken
  from its connection and written to it; and how it may have ended.
\<close>

definition sent_ok ::
  "bincode \<Rightarrow> u128 \<Rightarrow> ('d, 'r, 'w, 'k) tunnel_end \<Rightarrow> bytes \<Rightarrow> bytes list \<Rightarrow> bytes list \<Rightarrow> bool" where
  "sent_ok bc i e out sends cutoff \<longleftrightarrow>
     (\<exists>bs p. list_all2 (data_frame bc i) sends bs \<and> out = concat bs @ p \<and>
        (cutoff = [] \<and> p = [] \<or>
         (\<forall>st. e \<noteq> Forwarding st) \<and> (\<exists>d b. cutoff = [d] \<and> data_frame bc i d b \<and> prefix p b)))"

definition received_ok ::
  "bincode \<Rightarrow> u128 \<Rightarrow> ('r \<Rightarrow> bytes) \<Rightarrow> ('d, 'r, 'w, 'k) tunnel_end \<Rightarrow> bytes \<Rightarrow> bytes list \<Rightarrow> bytes \<Rightarrow> bool" where
  "received_ok bc i unread e arr gets piece \<longleftrightarrow>
     (\<exists>fs rest. decode_many (get_frame bc) (length gets) arr = Some (fs, rest) \<and>
        map frame_protocol fs = map (TcpData i) gets \<and>
        (\<forall>st. e = Forwarding st \<longrightarrow> unread (relconn_rx st) = rest \<and> piece = []) \<and>
        (piece = [] \<or> (\<exists>f rest' d. get_frame bc rest = Some (f, rest') \<and> frame_protocol f = TcpData i d \<and>
           prefix piece d)))"

definition conn_ok ::
  "('k \<Rightarrow> bytes) \<Rightarrow> ('k \<Rightarrow> bytes) \<Rightarrow> 'k \<Rightarrow> ('d, 'r, 'w, 'k) tunnel_end \<Rightarrow> bytes list \<Rightarrow> bytes list \<Rightarrow> bool" where
  "conn_ok incoming outgoing c e sends gets \<longleftrightarrow>
     (\<forall>st. e = Forwarding st \<longrightarrow> incoming c = concat sends @ incoming (conn st) \<and>
        outgoing (conn st) = outgoing c @ concat gets)"

fun end_ok :: "('d, 'r, 'w, 'k) tunnel_end \<Rightarrow> bool" where
  "end_ok (Forwarding st) \<longleftrightarrow> True"
| "end_ok (Returned e) \<longleftrightarrow> e = DeadlineReached \<or> (\<exists>k. e = ConnFailed k) \<or> (\<exists>k. e = FrameFailed (StreamFailed k))"
| "end_ok (Crashed m) \<longleftrightarrow> False"

definition tunnel_ok ::
  "('r, 'w, 'k) forward_ops \<Rightarrow> ('r \<Rightarrow> bytes) \<Rightarrow> ('k \<Rightarrow> bytes) \<Rightarrow> ('k \<Rightarrow> bytes) \<Rightarrow> u128 \<Rightarrow> (side \<Rightarrow> 'k) \<Rightarrow>
   'd tunnel_event list \<Rightarrow> ('d, 'r, 'w, 'k) tunnel \<Rightarrow> bool" where
  "tunnel_ok ops unread incoming outgoing i conns evs x \<longleftrightarrow>
     (\<forall>s. prefix (arrived_at x s) (sent_by x (peer_side s)) \<and>
        sent_ok (f_codec ops) i (tunnel_ends x s) (sent_by x s) (payloads_up s evs) (last_up s evs) \<and>
        received_ok (f_codec ops) i unread (tunnel_ends x s) (arrived_at x s) (payloads_down s evs) (last_down s evs) \<and>
        conn_ok incoming outgoing (conns s) (tunnel_ends x s) (payloads_up s evs) (payloads_down s evs) \<and>
        end_ok (tunnel_ends x s))"

lemma sent_ok_frames:
  assumes "sent_ok bc i e out sends cutoff"
  shows "\<exists>bs. list_all2 (data_frame bc i) (sends @ cutoff) bs \<and> prefix out (concat bs)"
proof -
  from assms obtain bs p where bs: "list_all2 (data_frame bc i) sends bs" "out = concat bs @ p"
    and p: "cutoff = [] \<and> p = [] \<or> (\<exists>d b. cutoff = [d] \<and> data_frame bc i d b \<and> prefix p b)"
    by (auto simp: sent_ok_def)
  from p show ?thesis
  proof
    assume "cutoff = [] \<and> p = []"
    with bs show ?thesis by auto
  next
    assume "\<exists>d b. cutoff = [d] \<and> data_frame bc i d b \<and> prefix p b"
    then obtain d b where "cutoff = [d]" "data_frame bc i d b" "prefix p b" by blast
    with bs show ?thesis by (intro exI [of _ "bs @ [b]"]) (auto intro: list_all2_appendI)
  qed
qed

context bincode_codec
begin

text \<open>What was received is the beginning of what the peer sent, and so is what is to come.\<close>

lemma received_frames:
  assumes "decode_many (get_frame bc) (length gets) arr = Some (fs, rest)"
    and "map frame_protocol fs = map (TcpData i) gets"
    and "sent_ok bc i e out sends cutoff" and "prefix arr out"
  shows "gets = take (length gets) (sends @ cutoff) \<and>
     (\<exists>bs y. list_all2 (data_frame bc i) (drop (length gets) (sends @ cutoff)) bs \<and> rest @ y = concat bs)"
proof -
  from sent_ok_frames [OF assms(3)] assms(4) obtain bs y where
    bs: "list_all2 (data_frame bc i) (sends @ cutoff) bs" "concat bs = arr @ y"
    by (metis prefix_order.trans prefixE)
  from decode_data_frames [OF bs(1), unfolded bs(2), OF decode_many_append [OF assms(1)]] assms(2)
  have k: "map (TcpData i) gets = map (TcpData i) (take (length gets) (sends @ cutoff))"
    "rest @ y = concat (drop (length gets) bs)" by auto
  have "inj (TcpData i)" by (auto simp: inj_def)
  with k list_all2_dropI [OF bs(1)] show ?thesis by (simp only: inj_map_eq_map) blast
qed

lemma received_prefix:
  assumes "received_ok bc i unread e arr gets piece" and "sent_ok bc i e' out sends cutoff" and "prefix arr out"
  shows "prefix (concat gets @ piece) (concat (sends @ cutoff))"
proof -
  let ?k = "length gets" and ?ds = "sends @ cutoff"
  from assms(1) obtain fs rest where fs: "decode_many (get_frame bc) ?k arr = Some (fs, rest)"
      "map frame_protocol fs = map (TcpData i) gets"
    and l: "piece = [] \<or> (\<exists>f rest' d. get_frame bc rest = Some (f, rest') \<and> frame_protocol f = TcpData i d \<and>
       prefix piece d)" unfolding received_ok_def by blast
  from received_frames [OF fs assms(2,3)] obtain bs y where gets: "gets = take ?k ?ds"
    and bs: "list_all2 (data_frame bc i) (drop ?k ?ds) bs" "rest @ y = concat bs" by blast
  have "prefix piece (concat (drop ?k ?ds))"
    using l
  proof
    assume "\<exists>f rest' d. get_frame bc rest = Some (f, rest') \<and> frame_protocol f = TcpData i d \<and> prefix piece d"
    then obtain f rest' d where f: "get_frame bc rest = Some (f, rest')" "frame_protocol f = TcpData i d" "prefix piece d"
      by blast
    then have "frame_arrived rest" by (auto simp: frame_arrived_def get_frame_def split: option.splits)
    from next_data_frame [OF bs this] f obtain ds' where "drop ?k ?ds = d # ds'" by auto
    with f(3) show ?thesis by (simp only: concat.simps prefix_prefix)
  qed simp
  then have "prefix (concat (take ?k ?ds) @ piece) (concat (take ?k ?ds) @ concat (drop ?k ?ds))" by simp
  then show ?thesis using gets by (metis append_take_drop_id concat_append)
qed

text \<open>Where no whole frame is left, every frame was received.\<close>

lemma none_left:
  assumes "list_all2 (data_frame bc i) ds bs" and "decode_many (get_frame bc) k (concat bs @ p) = Some (fs, rest)"
    and "\<not> frame_arrived rest"
  shows "length ds \<le> k"
  using assms(1,2)
proof (induction arbitrary: k fs rule: list_all2_induct)
  case (Cons d ds b bs)
  from get_data_frame [OF Cons.hyps(1), of "concat bs @ p"] obtain f where
    f: "get_frame bc (b @ concat bs @ p) = Some (f, concat bs @ p)" by blast
  then have "frame_arrived (b @ concat bs @ p)"
    by (auto simp: frame_arrived_def get_frame_def split: option.splits)
  with assms(3) Cons.prems obtain n where "k = Suc n" by (cases k) auto
  with f Cons.prems Cons.IH show ?case by (auto split: option.splits)
qed simp

end


section \<open>Every step keeps it\<close>

locale live_tunnel =
  forwarding ops written unread incoming outgoing
  for ops :: "('r, 'w, 'k) forward_ops" and written :: "'w \<Rightarrow> bytes" and unread :: "'r \<Rightarrow> bytes"
    and incoming :: "'k \<Rightarrow> bytes" and outgoing :: "'k \<Rightarrow> bytes" +
  fixes arrive :: "'r \<Rightarrow> bytes \<Rightarrow> 'r"
  assumes unread_arrive: "unread (arrive r b) = unread r @ b"
begin

lemma received_unread:
  assumes "received_ok (f_codec ops) i unread (Forwarding st) arr gets piece"
    and "sent_ok (f_codec ops) i e out sends cutoff" and "prefix arr out"
    and "frame_arrived (unread (relconn_rx st))"
  shows "\<exists>f rx' d. get_frame (f_codec ops) (unread (relconn_rx st)) = Some (f, rx') \<and> frame_protocol f = TcpData i d"
proof -
  from assms(1) obtain fs where
    "decode_many (get_frame (f_codec ops)) (length gets) arr = Some (fs, unread (relconn_rx st))"
    "map frame_protocol fs = map (TcpData i) gets" by (auto simp: received_ok_def)
  from received_frames [OF this assms(2,3)] next_data_frame assms(4) show ?thesis by blast
qed

text \<open>A turn of the download future, against an honest peer, does not fail in the peer's hands.\<close>

lemma honest_down_turn:
  assumes "frame_arrived (unread (relconn_rx st)) \<Longrightarrow>
      \<exists>f rx' d. get_frame (f_codec ops) (unread (relconn_rx st)) = Some (f, rx') \<and> frame_protocol f = TcpData i d"
  shows "end_ok (end_of (snd (down_turn dl_api ops i st)))"
proof (cases "check_deadline dl_api (deadline st)")
  case (Pair hit dl)
  show ?thesis
  proof (cases "hit \<or> \<not> frame_arrived (unread (relconn_rx st))")
    case True
    with Pair show ?thesis
      using recv_short [of "relconn_rx st"]
      by (cases "get_body (unread (relconn_rx st))") (auto simp: down_turn_def frame_arrived_def)
  next
    case False
    with assms obtain f rx' d where
      "get_frame (f_codec ops) (unread (relconn_rx st)) = Some (f, rx')" "frame_protocol f = TcpData i d" by blast
    with recv_get False Pair show ?thesis by (fastforce simp: down_turn_def split: sum.splits)
  qed
qed

lemma honest_up_turn:
  assumes "1 \<le> pad" and "pad \<le> 128"
  shows "end_ok (end_of (snd (up_turn dl_api ops i pad st)))"
  using up_turn_cases [OF assms, where dl_api = dl_api and i = i and st = st] by (cases "snd (up_turn dl_api ops i pad st)") auto

lemma decode_many_snoc:
  "decode_many get n bs = Some (fs, rest) \<Longrightarrow> get rest = Some (f, rest') \<Longrightarrow>
   decode_many get (Suc n) bs = Some (fs @ [f], rest')"
proof (induction n arbitrary: bs fs)
  case (Suc n)
  from Suc.prems(1) obtain m bs' gs where "get bs = Some (m, bs')" "decode_many get n bs' = Some (gs, rest)" "fs = m # gs"
    by (auto split: option.splits)
  with Suc.IH [OF this(2) Suc.prems(2)] show ?case by (simp del: decode_many.simps(2) add: decode_many.simps(2) [of get "Suc n"])
qed simp

lemma received_more:
  assumes "received_ok (f_codec ops) i unread (Forwarding st) arr gets piece"
    and "frame_recv (f_codec ops) (f_read ops) (relconn_rx st) = Ok (f, rx)" and "frame_protocol f = TcpData i d"
    and "unread (relconn_rx st') = unread rx"
  shows "received_ok (f_codec ops) i unread (Forwarding st') arr (gets @ [d]) piece"
proof -
  from assms(1) obtain fs where fs: "decode_many (get_frame (f_codec ops)) (length gets) arr = Some (fs, unread (relconn_rx st))"
    "map frame_protocol fs = map (TcpData i) gets" "piece = []" by (auto simp: received_ok_def)
  with decode_many_snoc [OF fs(1) recv_Ok [OF assms(2)]] assms(3,4) show ?thesis
    unfolding received_ok_def by (intro exI [of _ "fs @ [f]"] exI [of _ "unread rx"]) simp
qed

lemma received_arrive:
  assumes "received_ok (f_codec ops) i unread e arr gets piece"
  shows "received_ok (f_codec ops) i unread (end_receives arrive b e) (arr @ b) gets piece"
proof -
  from assms obtain fs rest where fs: "decode_many (get_frame (f_codec ops)) (length gets) arr = Some (fs, rest)"
      "map frame_protocol fs = map (TcpData i) gets"
    and e: "\<forall>st. e = Forwarding st \<longrightarrow> unread (relconn_rx st) = rest \<and> piece = []"
    and l: "piece = [] \<or> (\<exists>f rest' d. get_frame (f_codec ops) rest = Some (f, rest') \<and> frame_protocol f = TcpData i d \<and>
       prefix piece d)" unfolding received_ok_def by blast
  from l have "piece = [] \<or> (\<exists>f rest' d. get_frame (f_codec ops) (rest @ b) = Some (f, rest') \<and>
      frame_protocol f = TcpData i d \<and> prefix piece d)" using get_frame_append by blast
  moreover have "\<forall>st. end_receives arrive b e = Forwarding st \<longrightarrow> unread (relconn_rx st) = rest @ b \<and> piece = []"
    using e by (cases e) (auto simp: unread_arrive)
  ultimately show ?thesis
    using decode_many_append [OF fs(1), of b] fs(2) unfolding received_ok_def by blast
qed

lemma received_end:
  assumes "received_ok (f_codec ops) i unread (Forwarding st) arr gets piece" and "down_dropped ops i st q"
    and "\<And>st'. e \<noteq> Forwarding st'"
  shows "received_ok (f_codec ops) i unread e arr gets (piece @ q)"
  using assms recv_Ok unfolding received_ok_def down_dropped_def by fastforce

lemma sent_end:
  assumes "sent_ok (f_codec ops) i (Forwarding st) out sends cutoff" and "up_dropped ops i st d p"
    and "\<And>st'. e \<noteq> Forwarding st'"
  shows "sent_ok (f_codec ops) i e (out @ p) sends (cutoff @ (case d of None \<Rightarrow> [] | Some payload \<Rightarrow> [payload]))"
  using assms unfolding sent_ok_def up_dropped_def data_frame_def by (cases d) auto

end

lemma other_side: "s' \<noteq> s \<Longrightarrow> peer_side s' = s"
  by (cases s; cases s') auto

lemma tunnel_okD:
  assumes "tunnel_ok ops unread incoming outgoing i conns evs x"
  shows "prefix (arrived_at x s) (sent_by x (peer_side s))"
    and "sent_ok (f_codec ops) i (tunnel_ends x s) (sent_by x s) (payloads_up s evs) (last_up s evs)"
    and "received_ok (f_codec ops) i unread (tunnel_ends x s) (arrived_at x s) (payloads_down s evs) (last_down s evs)"
    and "conn_ok incoming outgoing (conns s) (tunnel_ends x s) (payloads_up s evs) (payloads_down s evs)"
    and "end_ok (tunnel_ends x s)"
  using assms by (auto simp: tunnel_ok_def)

text \<open>A step of one side: what it leaves of the other side's conditions.\<close>

lemma tunnel_ok_update:
  assumes ok: "tunnel_ok ops unread incoming outgoing i conns evs x"
    and ev: "\<And>s'. s' \<noteq> s \<Longrightarrow>
      payloads_up s' [ev] = [] \<and> payloads_down s' [ev] = [] \<and> last_up s' [ev] = [] \<and> last_down s' [ev] = []"
    and x': "tunnel_ends x' = (tunnel_ends x)(s := e)" "sent_by x' = (sent_by x)(s := sent_by x s @ p)"
      "arrived_at x' = (arrived_at x)(s := arr)"
    and s: "prefix arr (sent_by x (peer_side s))"
      "sent_ok (f_codec ops) i e (sent_by x s @ p) (payloads_up s (evs @ [ev])) (last_up s (evs @ [ev]))"
      "received_ok (f_codec ops) i unread e arr (payloads_down s (evs @ [ev])) (last_down s (evs @ [ev]))"
      "conn_ok incoming outgoing (conns s) e (payloads_up s (evs @ [ev])) (payloads_down s (evs @ [ev]))"
      "end_ok e"
  shows "tunnel_ok ops unread incoming outgoing i conns (evs @ [ev]) x'"
  unfolding tunnel_ok_def
proof (intro allI)
  fix s'
  show "prefix (arrived_at x' s') (sent_by x' (peer_side s')) \<and>
      sent_ok (f_codec ops) i (tunnel_ends x' s') (sent_by x' s') (payloads_up s' (evs @ [ev])) (last_up s' (evs @ [ev])) \<and>
      received_ok (f_codec ops) i unread (tunnel_ends x' s') (arrived_at x' s') (payloads_down s' (evs @ [ev]))
        (last_down s' (evs @ [ev])) \<and>
      conn_ok incoming outgoing (conns s') (tunnel_ends x' s') (payloads_up s' (evs @ [ev])) (payloads_down s' (evs @ [ev])) \<and>
      end_ok (tunnel_ends x' s')"
  proof (cases "s' = s")
    case True
    with s x' show ?thesis by simp
  next
    case False
    have "prefix (arrived_at x s') (sent_by x' (peer_side s'))"
      using tunnel_okD(1) [OF ok, of s'] by (simp add: x' other_side [OF False] prefix_prefix)
    with False ev [OF False] tunnel_okD(2-5) [OF ok, of s'] x' show ?thesis by simp
  qed
qed

context live_tunnel
begin

lemma tunnel_ok_up:
  assumes ok: "tunnel_ok ops unread incoming outgoing i conns evs x"
    and fwd: "tunnel_ends x s = Forwarding st" and r: "conn_read ops (conn st) 60000 = Inr (payload, c)"
    and up: "snd (up_turn dl_api ops i pad st) = Ok st'"
    and w: "written (relconn_tx st') = written (relconn_tx st) @ b"
  shows "tunnel_ok ops unread incoming outgoing i conns (evs @ [TunUp s payload])
     (x\<lparr>tunnel_ends := (tunnel_ends x)(s := Forwarding st'), sent_by := (sent_by x)(s := sent_by x s @ b)\<rparr>)"
proof (rule tunnel_ok_update [OF ok, where e = "Forwarding st'" and p = b and arr = "arrived_at x s" and s = s])
  note d = tunnel_okD [OF ok, of s, unfolded fwd]
  from up r have st': "incoming (conn st) = payload @ incoming (conn st')" "outgoing (conn st') = outgoing (conn st)"
    "relconn_rx st' = relconn_rx st" using conn_read_front [OF r]
    by (auto simp: up_turn_def outcome_simps split: prod.splits if_splits)
  from up r w have b: "put_frame (f_codec ops) (frame_from pad (TcpData i payload)) = Some b"
    by (auto simp: up_turn_def outcome_simps dest!: send_Ok split: prod.splits if_splits)
  show "prefix (arrived_at x s) (sent_by x (peer_side s))" by (rule d(1))
  from d(2) obtain bs where bs: "list_all2 (data_frame (f_codec ops) i) (payloads_up s evs) bs" "sent_by x s = concat bs"
    "last_up s evs = []" by (auto simp: sent_ok_def)
  then have "list_all2 (data_frame (f_codec ops) i) (payloads_up s evs @ [payload]) (bs @ [b])"
    using b by (intro list_all2_appendI) (auto simp: data_frame_def)
  with bs show "sent_ok (f_codec ops) i (Forwarding st') (sent_by x s @ b) (payloads_up s (evs @ [TunUp s payload]))
      (last_up s (evs @ [TunUp s payload]))"
    unfolding sent_ok_def by (intro exI [of _ "bs @ [b]"] exI [of _ "[]"]) simp
  show "received_ok (f_codec ops) i unread (Forwarding st') (arrived_at x s) (payloads_down s (evs @ [TunUp s payload]))
      (last_down s (evs @ [TunUp s payload]))"
    using d(3) by (simp add: received_ok_def st')
  show "conn_ok incoming outgoing (conns s) (Forwarding st') (payloads_up s (evs @ [TunUp s payload]))
      (payloads_down s (evs @ [TunUp s payload]))"
    using d(4) by (simp add: conn_ok_def st')
qed simp_all

lemma tunnel_ok_down:
  assumes ok: "tunnel_ok ops unread incoming outgoing i conns evs x"
    and fwd: "tunnel_ends x s = Forwarding st"
    and f: "frame_recv (f_codec ops) (f_read ops) (relconn_rx st) = Ok (f, rx)" "frame_protocol f = TcpData i payload"
    and down: "snd (down_turn dl_api ops i st) = Ok st'"
  shows "tunnel_ok ops unread incoming outgoing i conns (evs @ [TunDown s payload])
     (x\<lparr>tunnel_ends := (tunnel_ends x)(s := Forwarding st')\<rparr>)"
proof (rule tunnel_ok_update [OF ok, where e = "Forwarding st'" and p = "[]" and arr = "arrived_at x s" and s = s])
  note d = tunnel_okD [OF ok, of s, unfolded fwd]
  from down f obtain c where "conn_write ops (conn st) payload = Inr c" "conn st' = c" "relconn_rx st' = rx"
    by (auto simp: down_turn_def outcome_simps split: prod.splits if_splits sum.splits)
  then have st': "relconn_rx st' = rx" "outgoing (conn st') = outgoing (conn st) @ payload"
    "incoming (conn st') = incoming (conn st)" using conn_write_back by auto
  show "prefix (arrived_at x s) (sent_by x (peer_side s))" by (rule d(1))
  show "sent_ok (f_codec ops) i (Forwarding st') (sent_by x s @ []) (payloads_up s (evs @ [TunDown s payload]))
      (last_up s (evs @ [TunDown s payload]))"
    using d(2) by (simp add: sent_ok_def)
  show "received_ok (f_codec ops) i unread (Forwarding st') (arrived_at x s) (payloads_down s (evs @ [TunDown s payload]))
      (last_down s (evs @ [TunDown s payload]))"
    using received_more [OF d(3) f, of st'] st' by simp
  show "conn_ok incoming outgoing (conns s) (Forwarding st') (payloads_up s (evs @ [TunDown s payload]))
      (payloads_down s (evs @ [TunDown s payload]))"
    using d(4) by (simp add: conn_ok_def st')
qed simp_all

end

context live_tunnel
begin

lemma tunnel_ok_carry:
  assumes ok: "tunnel_ok ops unread incoming outgoing i conns evs x"
    and b: "prefix (arrived_at x s @ b) (sent_by x (peer_side s))"
  shows "tunnel_ok ops unread incoming outgoing i conns (evs @ [TunCarry s b])
     (x\<lparr>tunnel_ends := (tunnel_ends x)(s := end_receives arrive b (tunnel_ends x s)),
        arrived_at := (arrived_at x)(s := arrived_at x s @ b)\<rparr>)"
proof (rule tunnel_ok_update [OF ok, where e = "end_receives arrive b (tunnel_ends x s)" and p = "[]"
      and arr = "arrived_at x s @ b" and s = s])
  note d = tunnel_okD [OF ok, of s]
  show "prefix (arrived_at x s @ b) (sent_by x (peer_side s))" by (rule b)
  show "received_ok (f_codec ops) i unread (end_receives arrive b (tunnel_ends x s)) (arrived_at x s @ b)
      (payloads_down s (evs @ [TunCarry s b])) (last_down s (evs @ [TunCarry s b]))"
    using received_arrive [OF d(3)] by simp
qed (use tunnel_okD [OF ok, of s] in \<open>cases "tunnel_ends x s"; simp add: sent_ok_def conn_ok_def\<close>)+

lemma tunnel_ok_end:
  assumes ok: "tunnel_ok ops unread incoming outgoing i conns evs x"
    and fwd: "tunnel_ends x s = Forwarding st"
    and r: "(\<exists>pad. 1 \<le> pad \<and> pad \<le> 128 \<and> snd (up_turn dl_api ops i pad st) = r) \<or> snd (down_turn dl_api ops i st) = r"
      "\<forall>st'. r \<noteq> Ok st'"
    and p: "up_dropped ops i st d p" and q: "down_dropped ops i st q"
  shows "tunnel_ok ops unread incoming outgoing i conns (evs @ [TunEnd s d q])
     (x\<lparr>tunnel_ends := (tunnel_ends x)(s := end_of r), sent_by := (sent_by x)(s := sent_by x s @ p)\<rparr>)"
proof (rule tunnel_ok_update [OF ok, where e = "end_of r" and p = p and arr = "arrived_at x s" and s = s])
  note d = tunnel_okD [OF ok, of s, unfolded fwd]
  have over: "end_of r \<noteq> Forwarding st'" for st' using r(2) by (cases r) auto
  show "prefix (arrived_at x s) (sent_by x (peer_side s))" by (rule d(1))
  show "sent_ok (f_codec ops) i (end_of r) (sent_by x s @ p) (payloads_up s (evs @ [TunEnd s d q]))
      (last_up s (evs @ [TunEnd s d q]))"
    using sent_end [OF d(2) p over] by simp
  show "received_ok (f_codec ops) i unread (end_of r) (arrived_at x s) (payloads_down s (evs @ [TunEnd s d q]))
      (last_down s (evs @ [TunEnd s d q]))"
    using received_end [OF d(3) q over] by simp
  show "conn_ok incoming outgoing (conns s) (end_of r) (payloads_up s (evs @ [TunEnd s d q]))
      (payloads_down s (evs @ [TunEnd s d q]))"
    using over by (simp add: conn_ok_def)
  show "end_ok (end_of r)"
    using r(1) honest_up_turn honest_down_turn [OF received_unread [OF d(3) tunnel_okD(2) [OF ok, of "peer_side s"] d(1)]]
    by auto
qed simp_all

lemma tunnel_ok_step:
  assumes ok: "tunnel_ok ops unread incoming outgoing i conns evs x"
    and step: "tunnel_step dl_api ops written unread arrive i x ev x'"
  shows "tunnel_ok ops unread incoming outgoing i conns (evs @ [ev]) x'"
  using step
proof cases
  case (tun_over s)
  show ?thesis unfolding tun_over
    by (rule tunnel_ok_update [OF ok, where s = s and p = "[]"]) (use tunnel_okD [OF ok, of s] in simp_all)
next
  case (tun_deadline s st dl)
  note d = tunnel_okD [OF ok, of s, unfolded tun_deadline(3)]
  let ?e = "Forwarding (st\<lparr>deadline := Some dl\<rparr>)"
  show ?thesis unfolding tun_deadline
    by (rule tunnel_ok_update [OF ok, where s = s and p = "[]" and arr = "arrived_at x s" and e = ?e])
      (use d in \<open>auto simp: sent_ok_def received_ok_def conn_ok_def\<close>)
next
  case (tun_up s st pad payload c st' b)
  then show ?thesis using tunnel_ok_up [OF ok] by blast
next
  case (tun_down s st f rx payload st')
  then show ?thesis using tunnel_ok_down [OF ok] by blast
next
  case (tun_carry s b)
  then show ?thesis using tunnel_ok_carry [OF ok] by blast
next
  case (tun_end s st r d p q)
  then show ?thesis using tunnel_ok_end [OF ok] by blast
qed

lemma tunnel_ok_start:
  assumes "unread (relconn_rx client) = []" and "unread (relconn_rx server) = []"
  shows "tunnel_ok ops unread incoming outgoing i
     (\<lambda>s. case s of ClientSide \<Rightarrow> conn client | ServerSide \<Rightarrow> conn server) [] (tunnel_start client server)"
  using assms by (auto simp: tunnel_ok_def tunnel_start_def sent_ok_def received_ok_def conn_ok_def split: side.split)

lemma run_tunnel:
  assumes "unread (relconn_rx client) = []" and "unread (relconn_rx server) = []"
    and "run (tunnel_step dl_api ops written unread arrive i) (tunnel_start client server) evs x"
  shows "tunnel_ok ops unread incoming outgoing i
     (\<lambda>s. case s of ClientSide \<Rightarrow> conn client | ServerSide \<Rightarrow> conn server) evs x"
  using assms(3) tunnel_ok_start [OF assms(1,2)] tunnel_ok_step
  by (induction rule: run.induct) blast+

end

text \<open>An end to which no more arrives delivers what it has.\<close>

lemma get_frame_shorter: "get_frame bc bs = Some (f, rest) \<Longrightarrow> length rest < length bs"
  by (auto simp: get_frame_def get_body_def Let_def split: option.splits sum.splits if_splits)

lemma deadline_unseen:
  "\<not> fst (check_deadline dl_api dl) \<Longrightarrow> check_deadline dl_api dl = (False, dl)"
  by (auto simp: check_deadline_def split: option.splits sum.splits)

definition delivering :: "side \<Rightarrow> 'd tunnel_event list \<Rightarrow> bool" where
  "delivering s evs \<longleftrightarrow> set evs \<subseteq> range (TunCarry s) \<union> range (TunDown s)"

lemma delivering_ups:
  assumes "delivering s evs"
  shows "payloads_up s' evs = [] \<and> last_up s' evs = [] \<and> last_down s' evs = []"
  using assms by (induction evs) (auto simp: delivering_def)

context live_tunnel
begin

lemma down_step:
  assumes "tunnel_ends x s = Forwarding st" and "\<not> fst (check_deadline dl_api (deadline st))"
    and "get_frame (f_codec ops) (unread (relconn_rx st)) = Some (f, rest)" and "frame_protocol f = TcpData i d"
    and "\<And>k d. \<exists>k'. conn_write ops k d = Inr k'"
  shows "\<exists>st'. tunnel_step dl_api ops written unread arrive i x (TunDown s d)
       (x\<lparr>tunnel_ends := (tunnel_ends x)(s := Forwarding st')\<rparr>) \<and>
     unread (relconn_rx st') = rest \<and> deadline st' = deadline st"
proof -
  from recv_get [OF assms(3)] obtain rx where
    rx: "frame_recv (f_codec ops) (f_read ops) (relconn_rx st) = Ok (f, rx)" "unread rx = rest" by blast
  obtain c where c: "conn_write ops (conn st) d = Inr c" using assms(5) by blast
  define st' where "st' = st\<lparr>relconn_rx := rx, conn := c\<rparr>"
  have "snd (down_turn dl_api ops i st) = Ok st'"
    using rx assms(4) c by (simp add: down_turn_def deadline_unseen [OF assms(2)] st'_def)
  moreover have "frame_arrived (unread (relconn_rx st))"
    using assms(3) by (auto simp: frame_arrived_def get_frame_def split: option.splits)
  ultimately have "tunnel_step dl_api ops written unread arrive i x (TunDown s d)
      (x\<lparr>tunnel_ends := (tunnel_ends x)(s := Forwarding st')\<rparr>)"
    using assms(1,4) rx(1) by (blast intro: tun_down)
  with rx(2) show ?thesis by (auto simp: st'_def)
qed

lemma deliver_all:
  assumes "tunnel_ok ops unread incoming outgoing i conns evs x"
    and "tunnel_ends x s = Forwarding st" and "\<not> fst (check_deadline dl_api (deadline st))"
    and total: "\<And>k d. \<exists>k'. conn_write ops k d = Inr k'"
  shows "\<exists>evs' x' st'. run (tunnel_step dl_api ops written unread arrive i) x evs' x' \<and> delivering s evs' \<and>
     tunnel_ok ops unread incoming outgoing i conns (evs @ evs') x' \<and>
     x' = x\<lparr>tunnel_ends := (tunnel_ends x)(s := Forwarding st')\<rparr> \<and>
     deadline st' = deadline st \<and> \<not> frame_arrived (unread (relconn_rx st'))"
  using assms(1-3)
proof (induction "length (unread (relconn_rx st))" arbitrary: evs x st rule: less_induct)
  case less
  note d = tunnel_okD [OF less.prems(1)]
  show ?case
  proof (cases "frame_arrived (unread (relconn_rx st))")
    case False
    have "(tunnel_ends x)(s := Forwarding st) = tunnel_ends x" using less.prems(2) by (simp add: fun_upd_idem)
    with less.prems False show ?thesis
      by (intro exI [of _ "[]"] exI [of _ x] exI [of _ st]) (auto simp: delivering_def intro!: run_start)
  next
    case True
    from received_unread [OF d(3) [of s, unfolded less.prems(2)] d(2) d(1) True] obtain f rest p where
      f: "get_frame (f_codec ops) (unread (relconn_rx st)) = Some (f, rest)" "frame_protocol f = TcpData i p" by blast
    from down_step [OF less.prems(2,3) f total] obtain st1 where
      step: "tunnel_step dl_api ops written unread arrive i x (TunDown s p)
        (x\<lparr>tunnel_ends := (tunnel_ends x)(s := Forwarding st1)\<rparr>)" (is "tunnel_step _ _ _ _ _ _ _ _ ?x1")
      and st1: "unread (relconn_rx st1) = rest" "deadline st1 = deadline st" by blast
    have "length (unread (relconn_rx st1)) < length (unread (relconn_rx st))"
      using get_frame_shorter [OF f(1)] st1 by simp
    from less.hyps [OF this tunnel_ok_step [OF less.prems(1) step]] less.prems(3) st1 obtain evs' x' st' where
      go: "run (tunnel_step dl_api ops written unread arrive i) ?x1 evs' x'" "delivering s evs'"
        "tunnel_ok ops unread incoming outgoing i conns ((evs @ [TunDown s p]) @ evs') x'"
        "x' = ?x1\<lparr>tunnel_ends := (tunnel_ends ?x1)(s := Forwarding st')\<rparr>" "deadline st' = deadline st"
        "\<not> frame_arrived (unread (relconn_rx st'))" by auto
    with run_cons [OF step go(1)] show ?thesis
      by (intro exI [of _ "TunDown s p # evs'"] exI [of _ x'] exI [of _ st']) (auto simp: delivering_def)
  qed
qed

end

context live_tunnel
begin

lemma over_then_end:
  assumes "tunnel_ends x s = Forwarding st" and "\<not> fst (check_deadline dl_api (deadline st))"
    and "\<not> frame_arrived (unread (relconn_rx st))"
  shows "\<exists>x''. run (tunnel_step dl_api ops written unread arrive i) x [TunOver s, TunEnd s None []] x'' \<and>
     tunnel_ends x'' s = Returned (FrameFailed (StreamFailed UnexpectedEof))"
proof -
  let ?x1 = "x\<lparr>stream_over := (stream_over x)(s := True)\<rparr>"
  have "snd (down_turn dl_api ops i st) = Err (FrameFailed (StreamFailed UnexpectedEof))"
    using recv_short [of "relconn_rx st"] assms(3)
    by (cases "get_body (unread (relconn_rx st))")
      (auto simp: frame_arrived_def down_turn_def deadline_unseen [OF assms(2)])
  then have "\<exists>x''. tunnel_step dl_api ops written unread arrive i ?x1 (TunEnd s None []) x'' \<and>
      tunnel_ends x'' s = Returned (FrameFailed (StreamFailed UnexpectedEof))"
    using tun_end [of ?x1 s st dl_api ops i "Err (FrameFailed (StreamFailed UnexpectedEof))" unread None "[]" "[]" written arrive] assms(1)
    by (auto simp: up_dropped_def down_dropped_def)
  then obtain x'' where x'': "tunnel_step dl_api ops written unread arrive i ?x1 (TunEnd s None []) x''"
    "tunnel_ends x'' s = Returned (FrameFailed (StreamFailed UnexpectedEof))" by blast
  have "run (tunnel_step dl_api ops written unread arrive i) x [TunOver s, TunEnd s None []] x''"
    by (rule run_cons, rule tun_over, rule run_cons, rule x''(1), rule run_start)
  with x''(2) show ?thesis by blast
qed

end

interpretation list_tunnel: live_tunnel list_ops id id fst snd append
  by unfold_locales simp

text \<open>
  Property C19. The tunnel between two honest ends. However the two loops, the stream, the
  deadline and the end of either interleave: what an end has written to its connection is
  at every moment the beginning of what the other took from its own, also when the loops have
  returned in the middle of a turn. And while an end is forwarding, its connection and its
  stream are exact: it has sent all it took, whole frame by whole frame, and written all that
  it received.
\<close>

theorem tunnel_delivers_in_order:
  assumes "live_tunnel ops written unread incoming outgoing arrive"
    and "unread (relconn_rx client) = []" and "unread (relconn_rx server) = []"
    and "run (tunnel_step dl_api ops written unread arrive i) (tunnel_start client server) evs x"
  shows "prefix (concat (payloads_down s evs) @ last_down s evs)
       (concat (payloads_up (peer_side s) evs @ last_up (peer_side s) evs)) \<and>
     (\<forall>st. tunnel_ends x s = Forwarding st \<longrightarrow>
        incoming (conn (case s of ClientSide \<Rightarrow> client | ServerSide \<Rightarrow> server)) =
          concat (payloads_up s evs) @ incoming (conn st) \<and>
        outgoing (conn st) = outgoing (conn (case s of ClientSide \<Rightarrow> client | ServerSide \<Rightarrow> server)) @
          concat (payloads_down s evs) \<and>
        last_up s evs = [] \<and> last_down s evs = [])"
proof -
  have ok: "tunnel_ok ops unread incoming outgoing i
      (\<lambda>s. case s of ClientSide \<Rightarrow> conn client | ServerSide \<Rightarrow> conn server) evs x"
    by (rule live_tunnel.run_tunnel [OF assms])
  note d = tunnel_okD [OF ok]
  have "bincode_codec (f_codec ops)"
    using assms(1) by (simp add: live_tunnel_def forwarding_def frame_stream_def)
  from bincode_codec.received_prefix [OF this d(3) d(2) d(1), of s] d(2-4) [of s] show ?thesis
    by (cases s) (auto simp: sent_ok_def received_ok_def conn_ok_def)
qed

text \<open>
  Property C20. Between two honest ends neither forwarding loop panics, and neither ever sees a
  frame of another connection or of the handshake, one it cannot read, or one that is too
  large: a loop returns only for the deadline, for its own connection or for the stream,
  although a dishonest peer can crash it. What follows for the task that awaits the loop
  differs: the client's task ends with that error, the server's unwraps it and so panics
  at each such return, also when its honest peer only hangs up.
\<close>

theorem honest_loops_never_panic:
  assumes "live_tunnel ops written unread incoming outgoing arrive"
    and "unread (relconn_rx client) = []" and "unread (relconn_rx server) = []"
    and "run (tunnel_step dl_api ops written unread arrive i) (tunnel_start client server) evs x"
  shows "case tunnel_ends x s of
       Forwarding st \<Rightarrow> awaiting_task s (tunnel_ends x s) = None
     | Returned e \<Rightarrow>
         (e = DeadlineReached \<or> (\<exists>k. e = ConnFailed k) \<or> (\<exists>k. e = FrameFailed (StreamFailed k))) \<and>
         (case s of
            ClientSide \<Rightarrow> awaiting_task s (tunnel_ends x s) = Some (Err e)
          | ServerSide \<Rightarrow> \<exists>p. awaiting_task s (tunnel_ends x s) = Some p \<and> is_panic p)
     | Crashed m \<Rightarrow> False"
  using tunnel_okD(5) [OF live_tunnel.run_tunnel [OF assms], of s]
  by (cases "tunnel_ends x s"; cases s) simp_all

text \<open>
  Property C21. Nothing that was sent has to stay on the way. As long as an end is forwarding, its stream
  works, its connection takes what is written and it does not see the deadline, the stream
  can bring it the rest and it can deliver every payload whose frame its peer has sent,
  whether the peer still forwards or has returned. If the stream is over then, so is its loop.
\<close>

theorem tunnel_can_drain:
  fixes evs :: "'d tunnel_event list"
  assumes "live_tunnel ops written unread incoming outgoing arrive"
    and "unread (relconn_rx client) = []" and "unread (relconn_rx server) = []"
    and "run (tunnel_step dl_api ops written unread arrive i) (tunnel_start client server) evs x"
    and "tunnel_ends x s = Forwarding st" and "\<not> stream_over x s"
    and "\<not> fst (check_deadline dl_api (deadline st))" and "\<And>k d. \<exists>k'. conn_write ops k d = Inr k'"
  shows "\<exists>(evs' :: 'd tunnel_event list) x' st' x''.
     run (tunnel_step dl_api ops written unread arrive i) x evs' x' \<and> delivering s evs' \<and>
     tunnel_ends x' s = Forwarding st' \<and> tunnel_ends x' (peer_side s) = tunnel_ends x (peer_side s) \<and>
     prefix (payloads_up (peer_side s) evs) (payloads_down s (evs @ evs')) \<and>
     prefix (payloads_down s (evs @ evs')) (payloads_up (peer_side s) evs @ last_up (peer_side s) evs) \<and>
     run (tunnel_step dl_api ops written unread arrive i) x' [TunOver s, TunEnd s None []] x'' \<and>
     tunnel_ends x'' s = Returned (FrameFailed (StreamFailed UnexpectedEof))"
proof -
  let ?step = "tunnel_step dl_api ops written unread arrive i" and ?peer = "peer_side s"
  let ?conns = "\<lambda>s. case s of ClientSide \<Rightarrow> conn client | ServerSide \<Rightarrow> conn server"
  note live = assms(1)
  have bc: "bincode_codec (f_codec ops)"
    using live by (simp add: live_tunnel_def forwarding_def frame_stream_def)
  have ok: "tunnel_ok ops unread incoming outgoing i ?conns evs x"
    by (rule live_tunnel.run_tunnel [OF assms(1-4)])
  from tunnel_okD(1) [OF ok, of s] obtain b where b: "sent_by x ?peer = arrived_at x s @ b" by (auto simp: prefix_def)
  define st1 where "st1 = st\<lparr>relconn_rx := arrive (relconn_rx st) b\<rparr>"
  define x1 where "x1 = x\<lparr>tunnel_ends := (tunnel_ends x)(s := Forwarding st1),
    arrived_at := (arrived_at x)(s := arrived_at x s @ b)\<rparr>"
  have carry: "?step x (TunCarry s b) x1"
    using tun_carry [of x s b dl_api ops written unread arrive i] assms(5,6) b by (simp add: x1_def st1_def)
  have x1: "tunnel_ends x1 s = Forwarding st1" "\<not> fst (check_deadline dl_api (deadline st1))"
    using assms(7) by (simp_all add: x1_def st1_def)
  from live_tunnel.deliver_all [OF live live_tunnel.tunnel_ok_step [OF live ok carry] x1 assms(8)]
  obtain evs' x' st' where go: "run ?step x1 evs' x'" "delivering s evs'"
      "tunnel_ok ops unread incoming outgoing i ?conns ((evs @ [TunCarry s b]) @ evs') x'"
      "x' = x1\<lparr>tunnel_ends := (tunnel_ends x1)(s := Forwarding st')\<rparr>"
      "deadline st' = deadline st1" "\<not> frame_arrived (unread (relconn_rx st'))"
    by blast
  let ?gets = "payloads_down s (evs @ TunCarry s b # evs')" and ?sends = "payloads_up ?peer evs"
  note d = tunnel_okD [OF go(3)]
  from d(2) [of ?peer] delivering_ups [OF go(2), of ?peer]
  have sent: "sent_ok (f_codec ops) i (tunnel_ends x' ?peer) (sent_by x' ?peer) ?sends (last_up ?peer evs)" by simp
  then obtain bs p where bs: "list_all2 (data_frame (f_codec ops) i) ?sends bs" "sent_by x' ?peer = concat bs @ p"
    by (auto simp: sent_ok_def)
  have arr: "arrived_at x' s = concat bs @ p" using go(4) b bs(2) by (simp add: x1_def)
  from d(3) [of s] go(4) obtain fs where
    fs: "decode_many (get_frame (f_codec ops)) (length ?gets) (arrived_at x' s) = Some (fs, unread (relconn_rx st'))"
      "map frame_protocol fs = map (TcpData i) ?gets"
    by (auto simp: received_ok_def)
  from bincode_codec.none_left [OF bc bs(1) fs(1) [unfolded arr] go(6)] have "length ?sends \<le> length ?gets" .
  moreover from bincode_codec.received_frames [OF bc fs sent d(1)]
  have "?gets = take (length ?gets) (?sends @ last_up ?peer evs)" by blast
  ultimately have "prefix ?sends ?gets" and "prefix ?gets (?sends @ last_up ?peer evs)"
    by (metis append_take_drop_id prefixI take_append take_all, metis take_is_prefix)
  moreover obtain x'' where "run ?step x' [TunOver s, TunEnd s None []] x''"
    "tunnel_ends x'' s = Returned (FrameFailed (StreamFailed UnexpectedEof))"
    using live_tunnel.over_then_end [OF live, of x' s st' dl_api] go x1(2) by auto
  ultimately show ?thesis using run_cons [OF carry go(1)] go
    by (intro exI [of _ "TunCarry s b # evs'"] exI [of _ x'] exI [of _ st'] exI [of _ x''])
      (auto simp: delivering_def x1_def)
qed

section \<open>A tunnel that carries two bytes\<close>

definition demo_tunnel :: "(unit fifo, bytes, bytes, bytes \<times> bytes) tunnel" where
  "demo_tunnel = tunnel_start (list_state [] [1, 2]) (list_state [] [])"

definition demo_tunnel_step ::
  "(unit fifo, bytes, bytes, bytes \<times> bytes) tunnel \<Rightarrow> unit fifo tunnel_event \<Rightarrow>
   (unit fifo, bytes, bytes, bytes \<times> bytes) tunnel \<Rightarrow> bool" where
  "demo_tunnel_step = tunnel_step fifo_api list_ops id id append 7"

lemma demo_unread: "id (relconn_rx (list_state [] d)) = []"
  by (simp add: list_state_def)

lemma demo_tunnel_up:
  "\<exists>x. run demo_tunnel_step demo_tunnel [TunUp ClientSide [1, 2]] x \<and>
     tunnel_ends x ServerSide = Forwarding (list_state [] []) \<and> \<not> stream_over x ServerSide"
proof -
  obtain b where b: "put_frame (f_codec list_ops) (frame_from 1 (TcpData 7 [1, 2])) = Some b"
    using list_frames.put_frame_fits by (force simp: list_ops_def frame_from_def frame_size_def)
  have r: "conn_read list_ops (conn (list_state [] [1, 2])) 60000 = Inr ([1, 2], ([], []))"
    by (simp add: list_ops_def list_conn_read_def list_state_def)
  obtain st where up: "snd (up_turn fifo_api list_ops 7 1 (list_state [] [1, 2])) = Ok st"
    and w: "id (relconn_tx st) = id (relconn_tx (list_state [] [1, 2])) @ b"
    using list_forward.send_put [OF b, of "[]"] r
    by (auto simp: up_turn_def check_deadline_def list_state_def) (simp add: list_ops_def list_write_all_def)
  have "tunnel_ends demo_tunnel ClientSide = Forwarding (list_state [] [1, 2])"
    by (simp add: demo_tunnel_def tunnel_start_def)
  from tun_up [where written = id, OF this _ _ r up w] have
    "demo_tunnel_step demo_tunnel (TunUp ClientSide [1, 2])
      (demo_tunnel\<lparr>tunnel_ends := (tunnel_ends demo_tunnel)(ClientSide := Forwarding st),
         sent_by := (sent_by demo_tunnel)(ClientSide := sent_by demo_tunnel ClientSide @ b)\<rparr>)"
    unfolding demo_tunnel_step_def by simp
  from run_cons [where step = demo_tunnel_step, OF this run_start] show ?thesis
    by (intro exI conjI) (assumption, simp_all add: demo_tunnel_def tunnel_start_def)
qed

theorem tunnel_can_drain_witness:
  "\<exists>evs x. run demo_tunnel_step demo_tunnel (TunUp ClientSide [1, 2] # evs) x \<and>
     payloads_down ServerSide evs = [[1, 2]] \<and>
     tunnel_ends x ServerSide = Returned (FrameFailed (StreamFailed UnexpectedEof))"
proof -
  let ?step = "tunnel_step fifo_api list_ops id id append 7"
  from demo_tunnel_up obtain x where x: "run ?step demo_tunnel [TunUp ClientSide [1, 2]] x"
    "tunnel_ends x ServerSide = Forwarding (list_state [] [])" "\<not> stream_over x ServerSide"
    unfolding demo_tunnel_step_def by blast
  have "\<not> fst (check_deadline fifo_api (deadline (list_state [] [])))"
    by (simp add: check_deadline_def list_state_def)
  moreover have "\<exists>k'. conn_write list_ops k d = Inr k'" for k d
    by (simp add: list_ops_def list_conn_write_def)
  ultimately obtain evs' x' x'' where evs': "run ?step x evs' x'"
      "prefix [[1, 2]] (payloads_down ServerSide evs')" "prefix (payloads_down ServerSide evs') [[1, 2]]"
      "run ?step x' [TunOver ServerSide, TunEnd ServerSide None []] x''"
      "tunnel_ends x'' ServerSide = Returned (FrameFailed (StreamFailed UnexpectedEof))"
    using tunnel_can_drain [OF list_tunnel.live_tunnel_axioms demo_unread demo_unread
        x(1) [unfolded demo_tunnel_def] x(2,3)]
    by auto
  have "payloads_down ServerSide evs' = [[1, 2]]" by (rule prefix_order.antisym [OF evs'(3,2)])
  with run_trans [OF run_trans [OF x(1) evs'(1)] evs'(4)] evs'(5) show ?thesis
    unfolding demo_tunnel_step_def
    by (intro exI [of _ "evs' @ [TunOver ServerSide, TunEnd ServerSide None []]"] exI [of _ x'']) simp
qed

theorem tunnel_delivers_in_order_witness:
  "\<exists>x. run demo_tunnel_step demo_tunnel [TunUp ClientSide [1, 2]] x \<and>
     (\<forall>st. tunnel_ends x ClientSide = Forwarding st \<longrightarrow> fst (conn st) = [])"
proof -
  from demo_tunnel_up obtain x where x: "run demo_tunnel_step demo_tunnel [TunUp ClientSide [1, 2]] x" by blast
  from tunnel_delivers_in_order [OF list_tunnel.live_tunnel_axioms demo_unread demo_unread
      x [unfolded demo_tunnel_step_def demo_tunnel_def], of ClientSide] x
  show ?thesis by (intro exI [of _ x]) (auto simp: list_state_def)
qed

lemma demo_hangup_run:
  "\<exists>evs x. run demo_tunnel_step demo_tunnel evs x \<and>
     tunnel_ends x ServerSide = Returned (FrameFailed (StreamFailed UnexpectedEof))"
proof -
  have s: "tunnel_ends demo_tunnel ServerSide = Forwarding (list_state [] [])"
    "\<not> fst (check_deadline fifo_api (deadline (list_state [] [])))"
    "\<not> frame_arrived (id (relconn_rx (list_state [] [])))"
    by (simp_all add: demo_tunnel_def tunnel_start_def list_state_def check_deadline_def frame_arrived_def get_body_def)
  from list_tunnel.over_then_end [OF s, where i = 7] show ?thesis
    unfolding demo_tunnel_step_def by blast
qed

theorem honest_loops_never_panic_witness:
  "\<exists>evs x e p. run demo_tunnel_step demo_tunnel evs x \<and> tunnel_ends x ServerSide = Returned e \<and>
     e \<noteq> FrameFailed DeserializeError \<and> awaiting_task ServerSide (tunnel_ends x ServerSide) = Some p \<and> is_panic p"
proof -
  obtain evs x where x: "run demo_tunnel_step demo_tunnel evs x"
    "tunnel_ends x ServerSide = Returned (FrameFailed (StreamFailed UnexpectedEof))"
    using demo_hangup_run by blast
  from honest_loops_never_panic [OF list_tunnel.live_tunnel_axioms demo_unread demo_unread
      x(1) [unfolded demo_tunnel_step_def demo_tunnel_def], of ServerSide] x
  show ?thesis by (intro exI [of _ evs] exI [of _ x]) auto
qed

end
