(* ===== verification/Mux.thy ===== *)
theory Mux
  imports Prelude "HOL-Library.Multiset"
begin

text \<open>
  The interface of \<open>sosistab2::Multiplex\<close> that client and server use, and its contract as
  the locale \<open>multiplex\<close>: a multiplexer holds a multiset of pipes, one can be added, and
  those that fail a test can be dropped. A list of pipes satisfies it. On top of it, the
  part that \<open>src/bin.todo/wsocks.rs\<close> has twice: forgetting the pipes whose address is gone.
\<close>

record ('m, 'p, 'sk, 'pk) mux_api =
  mux_new :: "'sk \<Rightarrow> 'pk option \<Rightarrow> 'm"
  mux_retain :: "('p \<Rightarrow> bool) \<Rightarrow> 'm \<Rightarrow> 'm"
  iter_pipes :: "'m \<Rightarrow> 'p list"
  add_pipe :: "'m \<Rightarrow> 'p \<Rightarrow> 'm"

text \<open>\<open>mux.retain(|p| { p.peer_addr().len() > 0 })\<close>: \<open>peer_addr\<close> is what the pipes answer now.\<close>

definition retain_alive :: "('m, 'p, 'sk, 'pk) mux_api \<Rightarrow> ('p \<Rightarrow> string) \<Rightarrow> 'm \<Rightarrow> 'm" where
  "retain_alive M peer_addr m = mux_retain M (\<lambda>p. 0 < length (peer_addr p)) m"

locale multiplex =
  fixes M :: "('m, 'p, 'sk, 'pk) mux_api"
  assumes iter_new: "iter_pipes M (mux_new M sk pk) = []"
    and iter_retain: "mset (iter_pipes M (mux_retain M f m)) = filter_mset f (mset (iter_pipes M m))"
    and iter_add: "mset (iter_pipes M (add_pipe M m p)) = add_mset p (mset (iter_pipes M m))"
begin

lemma set_retain [simp]: "set (iter_pipes M (mux_retain M f m)) = {p \<in> set (iter_pipes M m). f p}"
  using arg_cong[OF iter_retain[of f m], of set_mset] by simp

lemma set_add [simp]: "set (iter_pipes M (add_pipe M m p)) = insert p (set (iter_pipes M m))"
  using arg_cong[OF iter_add[of m p], of set_mset] by simp

lemma iter_new_add [simp]: "iter_pipes M (add_pipe M (mux_new M sk pk) p) = [p]"
  using iter_add[of "mux_new M sk pk" p] by (simp add: iter_new)

lemma length_add [simp]: "length (iter_pipes M (add_pipe M m p)) = Suc (length (iter_pipes M m))"
  using arg_cong[OF iter_add[of m p], of size] by simp

lemma length_retain: "length (iter_pipes M (mux_retain M f m)) = length (filter f (iter_pipes M m))"
  using arg_cong[OF iter_retain[of f m], of size] by (simp flip: mset_filter)

lemma length_retain_le: "length (iter_pipes M (mux_retain M f m)) \<le> length (iter_pipes M m)"
  by (simp add: length_retain)

lemma alive_empty_iff:
  "iter_pipes M (retain_alive M addr m) = [] \<longleftrightarrow> (\<forall>p \<in> set (iter_pipes M m). addr p = [])"
proof -
  have "iter_pipes M (retain_alive M addr m) = [] \<longleftrightarrow>
      set (iter_pipes M (retain_alive M addr m)) = {}" by simp
  then show ?thesis unfolding retain_alive_def by auto
qed

end

definition list_mux :: "('p list, 'p, unit, unit) mux_api" where
  "list_mux = \<lparr>mux_new = (\<lambda>sk pk. []), mux_retain = filter, iter_pipes = id, add_pipe = (\<lambda>m p. p # m)\<rparr>"

interpretation list_mux: multiplex list_mux
  by unfold_locales (simp_all add: list_mux_def)

end
