(* ===== verification/SessionLoop.thy ===== *)
theory SessionLoop
  imports Forward Mux
begin

text \<open>
  \<open>server_session_loop\<close> of \<open>src/bin.todo/wsocks.rs\<close>: the task that watches whether the
  session still has a live pipe and sends the deadline, the loop that accepts the streams
  of the session, and the task that answers the request of one stream.
\<close>


section \<open>The watch over the pipes\<close>

text \<open>\<open>std::time::Duration\<close>: seconds, then nanoseconds.\<close>

datatype duration = Duration (as_secs: nat) (subsec_nanos: nat)

instantiation duration :: linorder
begin

definition less_eq_duration :: "duration \<Rightarrow> duration \<Rightarrow> bool" where
  "less_eq_duration a b \<longleftrightarrow>
     as_secs a < as_secs b \<or> as_secs a = as_secs b \<and> subsec_nanos a \<le> subsec_nanos b"

definition less_duration :: "duration \<Rightarrow> duration \<Rightarrow> bool" where
  "less_duration a b \<longleftrightarrow>
     as_secs a < as_secs b \<or> as_secs a = as_secs b \<and> subsec_nanos a < subsec_nanos b"

instance
  by standard
    (auto simp: less_eq_duration_def less_duration_def intro: duration.expand)

end

text \<open>An \<open>Instant\<close> is a number of nanoseconds; \<open>elapsed\<close> saturates at zero.\<close>

definition of_nanos :: "nat \<Rightarrow> duration" where
  "of_nanos n = Duration (n div 10 ^ 9) (n mod 10 ^ 9)"

definition elapsed :: "nat \<Rightarrow> nat \<Rightarrow> duration" where
  "elapsed since now = of_nanos (now - since)"

lemma div_mod_less:
  fixes a b d :: nat
  shows "a < b \<longleftrightarrow> a div d < b div d \<or> a div d = b div d \<and> a mod d < b mod d"
proof (cases "a div d = b div d")
  case True
  then have "a - b = a mod d - b mod d" "b - a = b mod d - a mod d"
    by (metis diff_cancel2 add.commute div_mult_mod_eq)+
  with True show ?thesis by auto
next
  case False
  then show ?thesis by (meson div_le_mono leD leI le_neq_implies_less less_imp_le_nat)
qed

lemma of_nanos_less: "of_nanos a < of_nanos b \<longleftrightarrow> a < b"
  by (simp add: of_nanos_def less_duration_def div_mod_less[of a b "10 ^ 9"])

text \<open>One round: what the task finds in the multiplexer, what the pipes answer, and the
  two readings of the clock.\<close>

record ('m, 'p) beat =
  found :: 'm
  answers :: "'p \<Rightarrow> string"
  now1 :: nat
  now2 :: nat

text \<open>\<open>elapsed().as_secs_f64() > 100.0\<close>; rounding to \<open>f64\<close> crosses 100 for no duration.\<close>

definition pipemgr_turn ::
  "('m, 'p, 'sk, 'pk) mux_api \<Rightarrow> ('m, 'p) beat \<Rightarrow> nat \<Rightarrow> 'm \<times> nat \<times> bool" where
  "pipemgr_turn M b last_alive =
     (let m = retain_alive M (answers b) (found b);
          seen = (if 0 < length (iter_pipes M m) then now1 b else last_alive) in
      (m, seen, Duration 100 0 < elapsed seen (now2 b)))"

text \<open>The rounds up to the one that sends the deadline, whose number it returns.\<close>

fun session_watch :: "('m, 'p, 'sk, 'pk) mux_api \<Rightarrow> nat \<Rightarrow> ('m, 'p) beat list \<Rightarrow> nat option" where
  "session_watch M last_alive [] = None"
| "session_watch M last_alive (b # bs) =
     (case pipemgr_turn M b last_alive of
        (m, seen, dead) \<Rightarrow> if dead then Some 0 else map_option Suc (session_watch M seen bs))"

definition live_beat :: "('m, 'p, 'sk, 'pk) mux_api \<Rightarrow> ('m, 'p) beat \<Rightarrow> bool" where
  "live_beat M b = (\<exists>p \<in> set (iter_pipes M (found b)). answers b p \<noteq> [])"

text \<open>What the watch is for: no live pipe in the hundred seconds before round \<open>k\<close>.\<close>

definition idle_at ::
  "('m, 'p, 'sk, 'pk) mux_api \<Rightarrow> nat \<Rightarrow> ('m, 'p) beat list \<Rightarrow> nat \<Rightarrow> bool" where
  "idle_at M start bs k \<longleftrightarrow>
     start + 100 * 10 ^ 9 < now2 (bs ! k) \<and>
     (\<forall>j \<le> k. live_beat M (bs ! j) \<longrightarrow> now1 (bs ! j) + 100 * 10 ^ 9 < now2 (bs ! k))"

fun clock_runs :: "nat \<Rightarrow> ('m, 'p) beat list \<Rightarrow> bool" where
  "clock_runs t [] = True"
| "clock_runs t (b # bs) = (t \<le> now1 b \<and> now1 b \<le> now2 b \<and> clock_runs (now2 b) bs)"

lemma over_100_secs: "Duration 100 0 < elapsed since now \<longleftrightarrow> since + 100 * 10 ^ 9 < now"
proof -
  have "Duration 100 0 = of_nanos (100 * 10 ^ 9)" by (simp add: of_nanos_def)
  then show ?thesis by (simp add: elapsed_def of_nanos_less) linarith
qed

lemma clock_runs_later: "clock_runs t bs \<Longrightarrow> t' \<le> t \<Longrightarrow> clock_runs t' bs"
  by (cases bs) auto

lemma all_le_Suc: "(\<forall>j \<le> Suc k. P j) \<longleftrightarrow> P 0 \<and> (\<forall>j \<le> k. P (Suc j))"
  using All_less_Suc2[of "Suc k" P] by (simp add: less_Suc_eq_le)

context multiplex
begin

lemma pipemgr_turn_simp:
  "snd (pipemgr_turn M b seen) =
     (let t = (if live_beat M b then now1 b else seen) in (t, t + 100 * 10 ^ 9 < now2 b))"
proof -
  have "0 < length (iter_pipes M (retain_alive M (answers b) (found b))) \<longleftrightarrow> live_beat M b"
    using alive_empty_iff[of "answers b" "found b"] by (auto simp: live_beat_def)
  then show ?thesis by (simp add: pipemgr_turn_def over_100_secs Let_def)
qed

lemma idle_at_Suc:
  assumes "clock_runs start (b # bs)"
  shows "idle_at M start (b # bs) (Suc k) \<longleftrightarrow>
     idle_at M (if live_beat M b then now1 b else start) bs k"
  using assms by (auto simp: idle_at_def all_le_Suc)

lemma idle_at_0:
  "clock_runs start (b # bs) \<Longrightarrow>
   idle_at M start (b # bs) 0 \<longleftrightarrow>
     (if live_beat M b then now1 b else start) + 100 * 10 ^ 9 < now2 b"
  by (auto simp: idle_at_def)

lemma session_watch_spec:
  assumes "clock_runs start bs"
  shows "session_watch M start bs =
     (if \<exists>k < length bs. idle_at M start bs k
      then Some (LEAST k. k < length bs \<and> idle_at M start bs k) else None)"
  using assms
proof (induction bs arbitrary: start)
  case Nil
  then show ?case by simp
next
  case (Cons b bs)
  let ?t = "if live_beat M b then now1 b else start"
  have clock: "clock_runs ?t bs"
    using Cons.prems by (auto intro: clock_runs_later)
  note zero = idle_at_0[OF Cons.prems] and Suc = idle_at_Suc[OF Cons.prems]
  have turn: "session_watch M start (b # bs) =
      (if idle_at M start (b # bs) 0 then Some 0 else map_option Suc (session_watch M ?t bs))"
    using pipemgr_turn_simp[of b start] unfolding zero
    by (cases "pipemgr_turn M b start") (simp add: Let_def)
  show ?case
  proof (cases "idle_at M start (b # bs) 0")
    case True
    then show ?thesis unfolding turn by (auto intro!: Least_equality[symmetric])
  next
    case False
    have ex: "(\<exists>k < length (b # bs). idle_at M start (b # bs) k) \<longleftrightarrow>
        (\<exists>k < length bs. idle_at M ?t bs k)"
      using False by (simp add: Ex_less_Suc2 Suc)
    have "(LEAST k. k < length (b # bs) \<and> idle_at M start (b # bs) k) =
        Suc (LEAST k. k < length bs \<and> idle_at M ?t bs k)"
      if "k < length bs" "idle_at M ?t bs k" for k
      using that False
        Least_Suc[of "\<lambda>k. k < length (b # bs) \<and> idle_at M start (b # bs) k" "Suc k"]
      by (simp add: Suc)
    then show ?thesis using False Cons.IH[OF clock] ex unfolding turn by auto
  qed
qed

end

section \<open>Accepting the streams of a session\<close>

datatype session_error =
    SessionDeadline | SessionMuxError | UnexpectedData | UnexpectedOffer

text \<open>\<open>deadline_tx.send(()).await.unwrap()\<close>.\<close>

definition notify_deadline :: "('d, unit) chan_api \<Rightarrow> 'd \<Rightarrow> (session_error, 'd) outcome poll" where
  "notify_deadline dl_api c = map_poll unwrap (send_await dl_api c ())"

text \<open>What \<open>accept_conn().timeout(5 s)\<close> came to.\<close>

datatype 'rc accepted_conn = AcceptTimeout | AcceptError | AcceptedConn 'rc

definition session_turn ::
  "('d, unit) chan_api \<Rightarrow> 'rc accepted_conn \<Rightarrow> 'd option \<times> 'rc list \<Rightarrow>
   (session_error, 'd option \<times> 'rc list) outcome" where
  "session_turn dl_api a s =
     (case check_deadline dl_api (fst s) of
        (hit, dl) \<Rightarrow>
          if hit then Err SessionDeadline
          else
            (case a of
               AcceptTimeout \<Rightarrow> Ok (dl, snd s)
             | AcceptError \<Rightarrow> Err SessionMuxError
             | AcceptedConn rc \<Rightarrow> Ok (dl, snd s @ [rc])))"

text \<open>The loop, with the looks that forwarding tasks take at the same channel in between.\<close>

datatype 'rc session_event = SessTurn "'rc accepted_conn" | SessOtherLook

fun session_loop ::
  "('d, unit) chan_api \<Rightarrow> 'rc session_event list \<Rightarrow> 'd option \<times> 'rc list \<Rightarrow>
   (session_error, 'd option \<times> 'rc list) outcome" where
  "session_loop dl_api [] s = Ok s"
| "session_loop dl_api (SessTurn a # es) s =
     and_then (session_turn dl_api a s) (session_loop dl_api es)"
| "session_loop dl_api (SessOtherLook # es) s =
     session_loop dl_api es (snd (check_deadline dl_api (fst s)), snd s)"

fun conn_of :: "'rc session_event \<Rightarrow> 'rc list" where
  "conn_of (SessTurn (AcceptedConn rc)) = [rc]"
| "conn_of _ = []"


section \<open>Answering the request of a stream\<close>

datatype ('d, 'r, 'w, 'k) served =
    Tunnel u128 "('d, 'r, 'w, 'k) forward"
  | Refused 'w

text \<open>\<open>tcp_connect\<close> is \<open>TcpStream::connect\<close>, an error with its kind and debug text;
  \<open>offer_id\<close> is what \<open>fastrand::u128\<close> returned.\<close>

definition serve_relconn ::
  "('r, 'w, 'k) forward_ops \<Rightarrow> (string \<Rightarrow> u16 \<Rightarrow> (io_error_kind \<times> string) + 'k) \<Rightarrow> bool \<Rightarrow>
   'd \<Rightarrow> u128 \<Rightarrow> nat \<Rightarrow> 'r \<Rightarrow> 'w \<Rightarrow> (session_error, ('d, 'r, 'w, 'k) served) outcome" where
  "serve_relconn ops tcp_connect io_error_more dl offer_id pad rx tx =
     and_then (unwrap_outcome (frame_recv (f_codec ops) (f_read ops) rx)) (\<lambda>(f, rx').
     case frame_protocol f of
       TcpData i payload \<Rightarrow> Err UnexpectedData
     | TcpOffer r \<Rightarrow> Err UnexpectedOffer
     | TcpConnect dst port \<Rightarrow>
         (case tcp_connect dst port of
            Inr k \<Rightarrow>
              and_then (unwrap_outcome (frame_send (f_codec ops) (f_write ops)
                  (frame_from pad (TcpOffer (Inr offer_id))) tx)) (\<lambda>tx'.
              Ok (Tunnel offer_id \<lparr>deadline = Some dl, relconn_rx = rx', relconn_tx = tx', conn = k\<rparr>))
          | Inl (kind, debug) \<Rightarrow>
              and_then (unwrap_outcome (frame_send (f_codec ops) (f_write ops)
                  (frame_from pad (TcpOffer (Inl (UnableConnect (io_to_network io_error_more kind debug)))))
                  tx)) (\<lambda>tx'.
              Ok (Refused tx'))))"

definition serve_session_conn ::
  "('d, unit) chan_api \<Rightarrow> ('r, 'w, 'k) forward_ops \<Rightarrow>
   (string \<Rightarrow> u16 \<Rightarrow> (io_error_kind \<times> string) + 'k) \<Rightarrow> bool \<Rightarrow>
   'd \<Rightarrow> u128 \<Rightarrow> nat \<Rightarrow> 'r \<Rightarrow> 'w \<Rightarrow> turn list \<Rightarrow> (session_error, ('d, 'r, 'w, 'k) served) outcome" where
  "serve_session_conn dl_api ops tcp_connect io_error_more dl offer_id pad rx tx ts =
     and_then (serve_relconn ops tcp_connect io_error_more dl offer_id pad rx tx) (\<lambda>v.
     case v of
       Refused tx' \<Rightarrow> Ok (Refused tx')
     | Tunnel i st \<Rightarrow>
         and_then (unwrap_outcome (tcp_forward_loop dl_api ops i ts st)) (\<lambda>st'. Ok (Tunnel i st')))"

text \<open>The answer to a request to connect.\<close>

definition offer_for ::
  "(string \<Rightarrow> u16 \<Rightarrow> (io_error_kind \<times> string) + 'k) \<Rightarrow> bool \<Rightarrow> u128 \<Rightarrow> string \<Rightarrow> u16 \<Rightarrow>
   offer_error + u128" where
  "offer_for tcp_connect io_error_more offer_id dst port =
     (case tcp_connect dst port of
        Inr k \<Rightarrow> Inr offer_id
      | Inl (kind, debug) \<Rightarrow> Inl (UnableConnect (io_to_network io_error_more kind debug)))"

context forwarding
begin

lemma serve_relconn_send:
  assumes "get_frame (f_codec ops) (unread rx) = Some (f, rest)"
    and "frame_protocol f = TcpConnect dst port"
    and "pad \<le> 128" and "\<forall>kind debug. tcp_connect dst port = Inl (kind, debug) \<longrightarrow> length debug \<le> 65000"
  shows "\<exists>b rx'. put_frame (f_codec ops)
        (frame_from pad (TcpOffer (offer_for tcp_connect iem offer_id dst port))) = Some b \<and>
     unread rx' = rest \<and>
     serve_relconn ops tcp_connect iem dl offer_id pad rx tx =
       and_then (unwrap_outcome (in_stream (f_write ops tx b))) (\<lambda>tx'.
         Ok (case tcp_connect dst port of
               Inr k \<Rightarrow> Tunnel offer_id \<lparr>deadline = Some dl, relconn_rx = rx', relconn_tx = tx', conn = k\<rparr>
             | Inl e \<Rightarrow> Refused tx'))"
proof -
  obtain rx' where rx': "frame_recv (f_codec ops) (f_read ops) rx = Ok (f, rx')" "unread rx' = rest"
    using recv_get[OF assms(1)] by blast
  let ?f = "frame_from pad (TcpOffer (offer_for tcp_connect iem offer_id dst port))"
  have "frame_size ?f \<le> 65535"
    using assms(3,4)
    by (auto simp: frame_size_def frame_from_def offer_for_def io_to_network_def split: sum.splits)
  then obtain b where b: "put_frame (f_codec ops) ?f = Some b" using put_frame_fits by blast
  show ?thesis
    using rx' b send_put[OF b, of tx] assms(2)
    by (intro exI[of _ b] exI[of _ rx'])
      (auto simp: serve_relconn_def offer_for_def split: sum.splits prod.splits)
qed

end


section \<open>What a session guarantees\<close>

text \<open>
  Property C29. The watch sends the deadline in the first round before which no pipe has
  been alive for more than a hundred seconds, and in no other; it goes on as long as there
  is no such round.
\<close>

theorem session_watch_deadline:
  assumes "multiplex M" and "clock_runs start bs"
  shows "session_watch M start bs =
     (if \<exists>k < length bs. idle_at M start bs k
      then Some (LEAST k. k < length bs \<and> idle_at M start bs k) else None)"
  by (rule multiplex.session_watch_spec [OF assms])

theorem session_watch_deadline_witness:
  "session_watch list_mux 0
     [\<lparr>found = [''p''], answers = id, now1 = 5, now2 = 5\<rparr>,
      \<lparr>found = [''''], answers = id, now1 = 50, now2 = 100000000005\<rparr>,
      \<lparr>found = [''''], answers = id, now1 = 100000000006, now2 = 100000000006\<rparr>] = Some 2"
proof -
  let ?b0 = "\<lparr>found = [''p''], answers = id, now1 = 5, now2 = 5\<rparr>"
    and ?b1 = "\<lparr>found = [''''], answers = id, now1 = 50, now2 = 100000000005\<rparr>"
    and ?b2 = "\<lparr>found = [''''], answers = id, now1 = 100000000006, now2 = 100000000006\<rparr>"
  have i: "\<not> idle_at list_mux 0 [?b0, ?b1, ?b2] 0" "\<not> idle_at list_mux 0 [?b0, ?b1, ?b2] (Suc 0)"
    "idle_at list_mux 0 [?b0, ?b1, ?b2] (Suc (Suc 0))"
    by (simp_all add: idle_at_def live_beat_def list_mux_def all_le_Suc)
  define bs where "bs = [?b0, ?b1, ?b2]"
  have len: "length bs = 3" and clock: "clock_runs 0 bs" by (simp_all add: bs_def)
  have idle: "idle_at list_mux 0 bs k \<longleftrightarrow> k = 2" if "k < 3" for k
    using that i unfolding bs_def by (auto simp: numeral_3_eq_3 numeral_2_eq_2 less_Suc_eq)
  then have "(LEAST k. k < 3 \<and> idle_at list_mux 0 bs k) = 2"
    by (intro Least_equality) auto
  moreover from idle have "\<exists>k < 3. idle_at list_mux 0 bs k" by (intro exI [of _ 2]) simp
  ultimately have "session_watch list_mux 0 bs = Some 2"
    using session_watch_deadline [OF list_mux.multiplex_axioms clock] len by simp
  then show ?thesis unfolding bs_def .
qed

text \<open>
  The deadline ends the session only if its accept loop is the first to look
  after it was sent. If the task of any forwarded connection looks first, the loop never
  ends by the deadline: it accepts every further stream.
\<close>

theorem session_misses_deadline:
  assumes "smol_channel dl_api view" and "queue (view c) = [()]"
    and "SessTurn AcceptError \<notin> set es"
  shows "session_loop dl_api (SessTurn a # es) (Some c, rcs) = Err SessionDeadline \<and>
     (\<exists>dl. session_loop dl_api (SessOtherLook # es) (Some c, rcs) =
        Ok (dl, rcs @ concat (map conn_of es)))"
proof -
  have drained: "\<exists>dl. session_loop dl_api es (Some c', rcs) = Ok (dl, rcs @ concat (map conn_of es))"
    if "queue (view c') = []" "SessTurn AcceptError \<notin> set es" for c' rcs es
  proof -
    have chk: "check_deadline dl_api (Some c') = (False, Some c')"
      using that(1) smol_channel.try_recv_Inr(1) [OF assms(1), of c']
      by (cases "try_recv dl_api c'") (auto simp: check_deadline_def)
    show ?thesis
      using that(2)
    proof (induction es arbitrary: rcs)
      case (Cons e es)
      show ?case
      proof (cases e)
        case (SessTurn a)
        with Cons.IH[of "rcs @ conn_of e"] Cons.IH[of rcs] Cons.prems chk show ?thesis
          by (cases a) (auto simp: session_turn_def)
      next
        case SessOtherLook
        with Cons chk show ?thesis by simp
      qed
    qed simp
  qed
  from smol_channel.try_recv_Cons [OF assms(1,2)] obtain c' where
    "try_recv dl_api c = Inr ((), c')" "queue (view c') = []"
    by (metis (no_types) fifo.select_convs(1) fifo.surjective fifo.update_convs(1))
  with drained [OF _ assms(3), of c' rcs] show ?thesis
    by (simp add: session_turn_def check_deadline_def)
qed

theorem session_misses_deadline_witness:
  "\<exists>dl. session_loop fifo_api
     [SessOtherLook, SessTurn AcceptTimeout, SessTurn (AcceptedConn (7::nat)), SessTurn AcceptTimeout]
     (Some \<lparr>queue = [()], capacity = Some 1, hung_up = True\<rparr>, []) = Ok (dl, [7])"
  using session_misses_deadline [OF fifo.smol_channel_axioms,
      of "\<lparr>queue = [()], capacity = Some 1, hung_up = True\<rparr>"
        "[SessTurn AcceptTimeout, SessTurn (AcceptedConn (7::nat)), SessTurn AcceptTimeout]" AcceptTimeout "[]"]
  by simp

text \<open>
  The request of a stream: bytes that are no frame crash its task; a frame
  that is no request ends it and nothing is sent; a request to connect is answered by
  exactly one offer, the drawn id if the connection was made, otherwise the error, and
  then, only if it was made, the tunnel starts with that id and nothing read ahead.
\<close>

theorem serve_relconn_outcome:
  assumes "forwarding ops written unread incoming outgoing" and "pad \<le> 128"
    and "\<And>dst port kind debug. tcp_connect dst port = Inl (kind, debug) \<Longrightarrow> length debug \<le> 65000"
  shows "case get_frame (f_codec ops) (unread rx) of
     None \<Rightarrow> is_panic (serve_relconn ops tcp_connect iem dl offer_id pad rx tx)
   | Some (f, rest) \<Rightarrow>
       (case frame_protocol f of
          TcpData i d \<Rightarrow> serve_relconn ops tcp_connect iem dl offer_id pad rx tx = Err UnexpectedData
        | TcpOffer r \<Rightarrow> serve_relconn ops tcp_connect iem dl offer_id pad rx tx = Err UnexpectedOffer
        | TcpConnect dst port \<Rightarrow>
            \<exists>b. put_frame (f_codec ops)
                (frame_from pad (TcpOffer (offer_for tcp_connect iem offer_id dst port))) = Some b \<and>
              (case f_write ops tx b of
                 Inl e \<Rightarrow> is_panic (serve_relconn ops tcp_connect iem dl offer_id pad rx tx)
               | Inr tx' \<Rightarrow> written tx' = written tx @ b \<and>
                   (case tcp_connect dst port of
                      Inl e \<Rightarrow> serve_relconn ops tcp_connect iem dl offer_id pad rx tx = Ok (Refused tx')
                    | Inr k \<Rightarrow> \<exists>rx'. unread rx' = rest \<and>
                        serve_relconn ops tcp_connect iem dl offer_id pad rx tx =
                          Ok (Tunnel offer_id
                                \<lparr>deadline = Some dl, relconn_rx = rx', relconn_tx = tx', conn = k\<rparr>))))"
proof (cases "get_frame (f_codec ops) (unread rx)")
  case None
  with frame_stream.recv_none [OF forwarding.axioms(1) [OF assms(1)], of rx] show ?thesis
    by (auto simp: serve_relconn_def)
next
  case (Some x)
  then obtain f rest where x: "get_frame (f_codec ops) (unread rx) = Some (f, rest)" by (cases x) auto
  with frame_stream.recv_get [OF forwarding.axioms(1) [OF assms(1)]] obtain rx' where
    "frame_recv (f_codec ops) (f_read ops) rx = Ok (f, rx')" by blast
  note recvd = this
  then have recv: "serve_relconn ops tcp_connect iem dl offer_id pad rx tx = Err UnexpectedData"
      if "frame_protocol f = TcpData i d" for i d
    using that by (simp add: serve_relconn_def)
  have recv': "serve_relconn ops tcp_connect iem dl offer_id pad rx tx = Err UnexpectedOffer"
      if "frame_protocol f = TcpOffer r" for r
    using that recvd by (simp add: serve_relconn_def)
  show ?thesis
  proof (cases "frame_protocol f")
    case (TcpConnect dst port)
    have debug: "\<forall>kind debug. tcp_connect dst port = Inl (kind, debug) \<longrightarrow> length debug \<le> 65000"
      using assms(3) by blast
    from forwarding.serve_relconn_send [where tcp_connect = tcp_connect, OF assms(1) x TcpConnect assms(2) debug, where iem = iem and offer_id = offer_id and dl = dl and tx = tx]
    obtain b rx' where b: "put_frame (f_codec ops)
        (frame_from pad (TcpOffer (offer_for tcp_connect iem offer_id dst port))) = Some b"
      and rx': "unread rx' = rest"
      and eq: "serve_relconn ops tcp_connect iem dl offer_id pad rx tx =
       and_then (unwrap_outcome (in_stream (f_write ops tx b))) (\<lambda>tx'.
         Ok (case tcp_connect dst port of
               Inr k \<Rightarrow> Tunnel offer_id \<lparr>deadline = Some dl, relconn_rx = rx', relconn_tx = tx', conn = k\<rparr>
             | Inl e \<Rightarrow> Refused tx'))"
      by blast
    have bs: "byte_stream (f_write ops) written (f_read ops) unread"
      by (rule frame_stream.axioms(2) [OF forwarding.axioms(1) [OF assms(1)]])
    show ?thesis
      using x b rx' TcpConnect byte_stream.write_all_appends [OF bs, of tx b]
      unfolding eq by (auto split: sum.splits)
  qed (use x recv recv' in auto)
qed

theorem serve_relconn_outcome_witness:
  "\<exists>b. put_frame bincode_ref (frame_from 1 (TcpConnect ''a.b'' 80)) = Some b \<and>
     (\<exists>tx. serve_relconn list_ops (\<lambda>dst port. Inl (ConnectionRefused, ''refused'')) False () 7 2 b [] =
        Ok (Refused tx))"
proof -
  obtain b where b: "put_frame bincode_ref (frame_from 1 (TcpConnect ''a.b'' 80)) = Some b"
    using list_frames.put_frame_fits by (force simp: frame_from_def frame_size_def)
  with bincode_ref.frames.get_put [OF b, of "[]"]
    serve_relconn_outcome [OF list_forward.forwarding_axioms, where pad = 2 and rx = b and tx = "[]"
      and tcp_connect = "\<lambda>dst port. Inl (ConnectionRefused, ''refused'')" and iem = False
      and dl = "()" and offer_id = 7]
  show ?thesis by (auto simp: list_ops_def frame_from_def list_write_all_def)
qed

end
