(* ===== verification/Ipv6.thy ===== *)
theory Ipv6
  imports Text
begin

text \<open>
  The display of an IPv6 address, read back. \<open>read_ip6\<close> is a reference reader (expand \<open>::\<close> to
  as many zero segments as are missing, take the last four bytes of a mixed form in
  decimal); the display of \<open>Text\<close>, with its search for the longest run of zeros, loses
  nothing under it.
\<close>


section \<open>The reader\<close>

definition hex_digit_value :: "char \<Rightarrow> nat" where
  "hex_digit_value c = (let n = of_char c in if n < 58 then n - 48 else n - 87)"

definition read_hex :: "string \<Rightarrow> nat" where
  "read_hex = foldl (\<lambda>n c. 16 * n + hex_digit_value c) 0"

text \<open>The text before and behind the first double colon.\<close>

fun cut_double :: "string \<Rightarrow> (string \<times> string) option" where
  "cut_double (x # y # s) =
     (if x = CHR '':'' \<and> y = CHR '':'' then Some ([], s)
      else map_option (\<lambda>(a, b). (x # a, b)) (cut_double (y # s)))"
| "cut_double _ = None"

definition read_segments :: "string \<Rightarrow> nat list" where
  "read_segments s = (if s = [] then [] else map read_hex (split_on (CHR '':'') s))"

definition unsegments :: "nat list \<Rightarrow> bytes" where
  "unsegments ss = concat (map (\<lambda>n. [of_nat (n div 256), of_nat (n mod 256)]) ss)"

definition read_ip4 :: "string \<Rightarrow> bytes" where
  "read_ip4 s = map (\<lambda>d. of_nat (read_nat d)) (split_on (CHR ''.'') s)"

definition read_ip6 :: "string \<Rightarrow> bytes" where
  "read_ip6 s =
     (if CHR ''.'' \<in> set s then replicate 10 0 @ [0xff, 0xff] @ read_ip4 (drop 7 s)
      else unsegments
        (case cut_double s of
           None \<Rightarrow> read_segments s
         | Some (a, b) \<Rightarrow>
             let xs = read_segments a; ys = read_segments b in
             xs @ replicate (8 - length xs - length ys) 0 @ ys))"


section \<open>Segments\<close>

lemma hex_digit_value_digit [simp]: "n < 16 \<Longrightarrow> hex_digit_value (hex_digit n) = n"
  by (auto simp: hex_digit_value_def hex_digit_def)

lemma hex_digit_plain: "n < 16 \<Longrightarrow> hex_digit n \<noteq> CHR '':'' \<and> hex_digit n \<noteq> CHR ''.''"
proof -
  assume "n < 16"
  then have "n \<in> {0..<16}" by simp
  then have "n \<in> set [0..<16]" by simp
  then show ?thesis by (auto simp: upt_rec hex_digit_def char_of_def)
qed

lemma read_show_hex: "read_hex (show_hex n) = n"
proof (induction n rule: show_hex.induct)
  case (1 n)
  then show ?case
    by (cases "n < 16") (simp_all add: show_hex.simps[of n] read_hex_def)
qed

lemma show_hex_plain: "CHR '':'' \<notin> set (show_hex n) \<and> CHR ''.'' \<notin> set (show_hex n) \<and> show_hex n \<noteq> []"
proof (induction n rule: show_hex.induct)
  case (1 n)
  then show ?case
    using hex_digit_plain[of "n mod 16"] hex_digit_plain[of n]
    by (cases "n < 16") (auto simp: show_hex.simps[of n])
qed

lemma unsegments_segments: "even (length bs) \<Longrightarrow> unsegments (segments bs) = bs"
proof (induction bs rule: segments.induct)
  case (1 a b bs)
  have "unat b < 256" using unsigned_less [of b, where 'a = nat] by simp
  with 1 show ?case by (simp add: unsegments_def)
qed (simp_all add: unsegments_def)

lemma length_segments: "length (segments bs) = length bs div 2"
  by (induction bs rule: segments.induct) simp_all

lemma join_empty_iff: "(\<And>s. s \<in> set ss \<Longrightarrow> s \<noteq> []) \<Longrightarrow> join sep ss = [] \<longleftrightarrow> ss = []"
  by (induction sep ss rule: join.induct) auto

lemma fmt_segments_not_Nil: "ss \<noteq> [] \<Longrightarrow> fmt_segments ss \<noteq> []"
proof -
  have "s \<noteq> []" if "s \<in> set (map show_hex ss)" for s using that show_hex_plain by auto
  then show "ss \<noteq> [] \<Longrightarrow> fmt_segments ss \<noteq> []"
    unfolding fmt_segments_def by (subst join_empty_iff) simp_all
qed

lemma read_fmt_segments: "read_segments (fmt_segments ss) = ss"
proof (cases "ss = []")
  case True
  then show ?thesis by (simp add: read_segments_def fmt_segments_def)
next
  case False
  moreover have "fmt_segments ss \<noteq> []" using False by (rule fmt_segments_not_Nil)
  moreover have "split_on (CHR '':'') (fmt_segments ss) = map show_hex ss"
    unfolding fmt_segments_def using False show_hex_plain by (intro split_on_join) auto
  ultimately show ?thesis by (simp add: read_segments_def read_show_hex comp_def)
qed

lemma set_join: "set (join sep ss) \<subseteq> set sep \<union> \<Union> (set ` set ss)"
  by (induction sep ss rule: join.induct) auto

lemma fmt_segments_no_dot: "CHR ''.'' \<notin> set (fmt_segments ss)"
  using set_join[of "'':''" "map show_hex ss"] show_hex_plain by (auto simp: fmt_segments_def)


section \<open>The double colon\<close>

text \<open>Segments joined by colons have no double colon, and no colon at either end.\<close>

fun single_colons :: "string \<Rightarrow> bool" where
  "single_colons (x # y # s) = ((x = CHR '':'' \<longrightarrow> y \<noteq> CHR '':'') \<and> single_colons (y # s))"
| "single_colons [x] = (x \<noteq> CHR '':'')"
| "single_colons [] = True"

lemma cut_single: "single_colons s \<Longrightarrow> cut_double s = None"
  by (induction s rule: single_colons.induct) auto

lemma cut_at: "single_colons a \<Longrightarrow> cut_double (a @ CHR '':'' # CHR '':'' # b) = Some (a, b)"
  by (induction a rule: single_colons.induct) auto

lemma single_colons_append:
  "s \<noteq> [] \<Longrightarrow> CHR '':'' \<notin> set s \<Longrightarrow> t \<noteq> [] \<Longrightarrow> hd t \<noteq> CHR '':'' \<Longrightarrow> single_colons t \<Longrightarrow>
   single_colons (s @ CHR '':'' # t)"
proof (induction s)
  case (Cons x s)
  then show ?case by (cases s; cases t) auto
qed simp

lemma single_colons_plain: "CHR '':'' \<notin> set s \<Longrightarrow> single_colons s"
  by (induction s rule: single_colons.induct) auto

lemma hd_join: "s \<noteq> [] \<Longrightarrow> hd (join sep (s # ss)) = hd s"
  by (cases ss) simp_all

lemma fmt_segments_single: "single_colons (fmt_segments ss)"
proof (induction ss)
  case (Cons x ss)
  then show ?case
  proof (cases ss)
    case (Cons y ys)
    have "hd (fmt_segments (y # ys)) \<noteq> CHR '':''"
    proof
      assume "hd (fmt_segments (y # ys)) = CHR '':''"
      then have "hd (show_hex y) = CHR '':''"
        using show_hex_plain[of y] by (simp add: fmt_segments_def hd_join)
      with show_hex_plain[of y] hd_in_set[of "show_hex y"] show False by simp
    qed
    moreover have "fmt_segments (y # ys) \<noteq> []" by (rule fmt_segments_not_Nil) simp
    ultimately show ?thesis
      using single_colons_append[of "show_hex x" "fmt_segments (y # ys)"] show_hex_plain[of x] \<open>single_colons (fmt_segments ss)\<close> Cons
      by (simp add: fmt_segments_def)
  qed (use show_hex_plain[of x] single_colons_plain in \<open>simp add: fmt_segments_def\<close>)
qed (simp add: fmt_segments_def)


section \<open>The run of zeros\<close>

definition zeros_at :: "nat list \<Rightarrow> nat \<times> nat \<Rightarrow> bool" where
  "zeros_at ss r \<longleftrightarrow> fst r + snd r \<le> length ss \<and> take (snd r) (drop (fst r) ss) = replicate (snd r) 0"

lemma zeros_at_append: "zeros_at ss r \<Longrightarrow> zeros_at (ss @ ts) r"
  by (simp add: zeros_at_def)

lemma zeros_at_grow:
  assumes "zeros_at ss (c, k)" and "c + k = length ss"
  shows "zeros_at (ss @ [0]) (c, Suc k)"
proof -
  have "drop c ss = replicate k 0" using assms by (simp add: zeros_at_def)
  with assms show ?thesis by (simp add: zeros_at_def replicate_append_same)
qed

text \<open>\<open>cur\<close> ends where the scan stands, or is empty.\<close>

lemma zero_run_zeros:
  assumes "zeros_at done cur" and "snd cur = 0 \<or> fst cur + snd cur = length done" and "zeros_at done best"
  shows "zeros_at (done @ xs) (zero_run (length done) cur best xs)"
  using assms
proof (induction xs arbitrary: cur best "done")
  case (Cons x xs)
  show ?case
  proof (cases "x = 0")
    case False
    have "zeros_at (done @ [x]) (0, 0)" by (simp add: zeros_at_def)
    with Cons.IH[of "done @ [x]" "(0, 0)" best] Cons.prems False show ?thesis
      by (simp add: zeros_at_append)
  next
    case True
    let ?cur = "(if snd cur = 0 then length done else fst cur, snd cur + 1)"
    let ?best = "if snd best < snd ?cur then ?cur else best"
    have cur: "zeros_at (done @ [x]) ?cur"
    proof (cases "snd cur = 0")
      case True
      with \<open>x = 0\<close> show ?thesis by (simp add: zeros_at_def)
    next
      case False
      with Cons.prems zeros_at_grow[of "done" "fst cur" "snd cur"] \<open>x = 0\<close> show ?thesis by simp
    qed
    have "zeros_at (done @ [x]) ?best"
      using cur Cons.prems(3) by (simp add: zeros_at_append)
    with Cons.IH[of "done @ [x]" ?cur ?best] cur Cons.prems True show ?thesis
      by (auto simp: Let_def split: if_splits)
  qed
qed simp

lemma zero_run_split:
  assumes "zero_run 0 (0, 0) (0, 0) ss = (start, len)"
  shows "start + len \<le> length ss" and "ss = take start ss @ replicate len 0 @ drop (start + len) ss"
proof -
  have z: "zeros_at ss (start, len)"
    using zero_run_zeros[of "[]" "(0, 0)" "(0, 0)" ss] assms by (simp add: zeros_at_def)
  then show "start + len \<le> length ss" by (simp add: zeros_at_def)
  have "drop start ss = take len (drop start ss) @ drop len (drop start ss)"
    by (simp only: append_take_drop_id)
  also have "\<dots> = replicate len 0 @ drop (start + len) ss"
    using z by (simp add: zeros_at_def) (simp add: add.commute)
  finally show "ss = take start ss @ replicate len 0 @ drop (start + len) ss"
    by (metis append_take_drop_id)
qed


section \<open>The display reads back\<close>

lemma ip4_reads_back: "ip \<noteq> [] \<Longrightarrow> read_ip4 (ipv4_to_string ip) = ip"
  using ipv4_reads_back by (simp add: read_ip4_def)

lemma ip6_segments_text:
  assumes "length ss = 8" and "zero_run 0 (0, 0) (0, 0) ss = (start, len)"
  shows "read_ip6 (if 1 < len then fmt_segments (take start ss) @ ''::'' @ fmt_segments (drop (start + len) ss)
      else fmt_segments ss) = unsegments ss"
proof (cases "1 < len")
  case True
  have "8 - length (take start ss) - length (drop (start + len) ss) = len"
    using zero_run_split(1)[OF assms(2)] assms(1) by simp
  with True zero_run_split(2)[OF assms(2)] show ?thesis
    by (simp add: read_ip6_def fmt_segments_no_dot cut_at[OF fmt_segments_single] read_fmt_segments)
next
  case False
  then show ?thesis
    by (simp add: read_ip6_def fmt_segments_no_dot cut_single[OF fmt_segments_single] read_fmt_segments)
qed

lemma ip6_reads_back:
  assumes "length ip = 16"
  shows "read_ip6 (ipv6_to_string ip) = ip"
proof (cases "take 12 ip = replicate 10 0 @ [0xff, 0xff]")
  case True
  have ne: "drop 12 ip \<noteq> []" using assms by simp
  have "length (drop 12 ip) = 4" using assms by simp
  then obtain a b bs where "drop 12 ip = a # b # bs"
    by (cases "drop 12 ip"; cases "tl (drop 12 ip)") simp_all
  then have dot: "CHR ''.'' \<in> set (ipv4_to_string (drop 12 ip))" by (simp add: ipv4_to_string_def)
  have "drop 7 (''::ffff:'' @ s) = s" for s by simp
  with True dot ne have "read_ip6 (ipv6_to_string ip) = take 12 ip @ drop 12 ip"
    by (simp add: read_ip6_def ipv6_to_string_def ip4_reads_back)
  then show ?thesis by simp
next
  case False
  obtain start len where z: "zero_run 0 (0, 0) (0, 0) (segments ip) = (start, len)" by fastforce
  have "length (segments ip) = 8" using assms by (simp add: length_segments)
  from ip6_segments_text[OF this z] False z unsegments_segments[of ip] assms show ?thesis
    by (simp add: ipv6_to_string_def Let_def)
qed

end
