(* ===== verification/Proxy.thy ===== *)
theory Proxy
  imports SessionLoop Ipv6
begin

text \<open>
  The local proxies of the wsocks client (\<open>client\<close> in \<open>src/bin.todo/wsocks.rs\<close>): the task
  that sends a request through a stream and waits for the offer, and the handlers of one
  SOCKS and of one HTTP connection. The codecs of the two protocols are dependencies: the
  results of their operations are arguments.
\<close>


section \<open>The request task\<close>

datatype request_error =
    OpenFailed | RequestFailed frame_error | UnexpectedAnswer | ResponseGone

text \<open>\<open>opened\<close> is what \<open>mux.open_conn\<close> returned, the two halves of a stream.\<close>

definition request_task ::
  "bincode \<Rightarrow> ('w \<Rightarrow> bytes \<Rightarrow> io_error_kind + 'w) \<Rightarrow> ('r \<Rightarrow> nat \<Rightarrow> io_error_kind + bytes \<times> 'r) \<Rightarrow>
   nat \<Rightarrow> unit + 'r \<times> 'w \<Rightarrow> protocol_msg \<Rightarrow>
   (request_error, (offer_error + u128) \<times> 'r \<times> 'w) outcome" where
  "request_task bc write_all read_exact pad opened req =
     (case opened of
        Inl e \<Rightarrow> Err OpenFailed
      | Inr (rx, tx) \<Rightarrow>
          and_then (map_err RequestFailed (frame_send bc write_all (frame_from pad req) tx)) (\<lambda>tx'.
          and_then (map_err RequestFailed (frame_recv bc read_exact rx)) (\<lambda>(f, rx').
          case frame_protocol f of
            TcpOffer i \<Rightarrow> Ok (i, rx', tx')
          | TcpConnect dst port \<Rightarrow> Err UnexpectedAnswer
          | TcpData i payload \<Rightarrow> Err UnexpectedAnswer)))"

text \<open>What the proxy that made the request gets on its response channel: the offer, or
  nothing if the task ended without one and dropped the sender.\<close>

definition response ::
  "(request_error, (offer_error + u128) \<times> 'r \<times> 'w) outcome \<Rightarrow>
   ((offer_error + u128) \<times> 'r \<times> 'w) option" where
  "response r = (case r of Ok a \<Rightarrow> Some a | _ \<Rightarrow> None)"


section \<open>SOCKS\<close>

datatype socks_version = SocksV4 | SocksV5

datatype socks_v4_host = V4Ip bytes | V4Domain bytes

datatype socks_v5_host = V5Domain bytes | V5Ipv4 bytes | V5Ipv6 bytes

record 'k socks_io =
  read_version :: "'k \<Rightarrow> unit + socks_version \<times> 'k"
  v4_read_request :: "'k \<Rightarrow> unit + (socks_v4_host \<times> u16) \<times> 'k"
  v5_read_handshake :: "'k \<Rightarrow> unit + 'k"
  v5_write_noauth :: "'k \<Rightarrow> unit + 'k"
  v5_read_request :: "'k \<Rightarrow> unit + (socks_v5_host \<times> u16) \<times> 'k"
  v4_write_status :: "'k \<Rightarrow> socks_v4_status \<Rightarrow> bytes \<Rightarrow> u16 \<Rightarrow> unit + 'k"
  v5_write_status :: "'k \<Rightarrow> socks_v5_status \<Rightarrow> socks_v5_host \<Rightarrow> u16 \<Rightarrow> unit + 'k"

datatype proxy_error =
    SocksFailed | NoHostInUrl | NoPortInUrl | RequestLost | ProxyIo io_error_kind
  | ForwardEnded forward_error

fun v4_dst :: "socks_v4_host \<Rightarrow> string" where
  "v4_dst (V4Ip ip) = ipv4_to_string ip"
| "v4_dst (V4Domain name) = from_utf8_lossy name"

fun v5_dst :: "socks_v5_host \<Rightarrow> string" where
  "v5_dst (V5Ipv4 ip) = ipv4_to_string ip"
| "v5_dst (V5Ipv6 ip) = ipv6_to_string ip"
| "v5_dst (V5Domain name) = from_utf8_lossy name"

definition socks_step :: "unit + 'a \<Rightarrow> (proxy_error, 'a) outcome" where
  "socks_step r = map_err (\<lambda>u. SocksFailed) (of_result r)"

definition socks_request ::
  "'k socks_io \<Rightarrow> 'k \<Rightarrow> (proxy_error, (socks_version \<times> string \<times> u16) \<times> 'k) outcome" where
  "socks_request S k =
     and_then (socks_step (read_version S k)) (\<lambda>(version, k1).
     case version of
       SocksV4 \<Rightarrow>
         and_then (socks_step (v4_read_request S k1)) (\<lambda>((host, port), k2).
         Ok ((version, v4_dst host, port), k2))
     | SocksV5 \<Rightarrow>
         and_then (socks_step (v5_read_handshake S k1)) (\<lambda>k2.
         and_then (socks_step (v5_write_noauth S k2)) (\<lambda>k3.
         and_then (socks_step (v5_read_request S k3)) (\<lambda>((host, port), k4).
         Ok ((version, v5_dst host, port), k4)))))"

definition socks_reply ::
  "'k socks_io \<Rightarrow> socks_version \<Rightarrow> string \<Rightarrow> u16 \<Rightarrow> offer_error + u128 \<Rightarrow> 'k \<Rightarrow>
   (proxy_error, 'k) outcome" where
  "socks_reply S version dst port offer_id k =
     (case offer_id of
        Inr i \<Rightarrow>
          (case version of
             SocksV4 \<Rightarrow> socks_step (v4_write_status S k V4Granted [0, 1, 1, 1] port)
           | SocksV5 \<Rightarrow> socks_step (v5_write_status S k V5Success (V5Domain (map byte_of_char dst)) port))
      | Inl (UnableConnect err) \<Rightarrow>
          (case version of
             SocksV4 \<Rightarrow> socks_step (v4_write_status S k (network_to_v4 err) [0, 0, 0, 0] 0)
           | SocksV5 \<Rightarrow> socks_step (v5_write_status S k (network_to_v5 err) (V5Ipv4 [0, 0, 0, 0]) 0)))"

text \<open>The handler of one connection, up to the point where forwarding begins. \<open>request\<close> is
  the request task with everything but the request given.\<close>

datatype ('k, 'r, 'w) proxied =
    Proxied u128 'k 'r 'w
  | ProxyDone 'k

definition socks_handler ::
  "'k socks_io \<Rightarrow> (protocol_msg \<Rightarrow> (request_error, (offer_error + u128) \<times> 'r \<times> 'w) outcome) \<Rightarrow> 'k \<Rightarrow>
   (proxy_error, ('k, 'r, 'w) proxied) outcome" where
  "socks_handler S request k =
     and_then (socks_request S k) (\<lambda>((version, dst, port), k1).
     case response (request (TcpConnect dst port)) of
       None \<Rightarrow> Err RequestLost
     | Some (offer_id, rx, tx) \<Rightarrow>
         and_then (socks_reply S version dst port offer_id k1) (\<lambda>k2.
         case offer_id of
           Inr i \<Rightarrow> Ok (Proxied i k2 rx tx)
         | Inl e \<Rightarrow> Ok (ProxyDone k2)))"


section \<open>HTTP\<close>

record http_in =
  method_text :: string
  host_str :: "string option"
  port_or_known_default :: "u16 option"

definition http_line :: "string \<Rightarrow> bytes" where
  "http_line s = map byte_of_char s @ [13, 10, 13, 10]"

fun proxy_io :: "io_error_kind + 'k \<Rightarrow> (proxy_error, 'k) outcome" where
  "proxy_io (Inl e) = Err (ProxyIo e)"
| "proxy_io (Inr k) = Ok k"

text \<open>\<open>decoded\<close> is what \<open>async_h1::server::decode\<close> returned: an error, no request, or one.\<close>

definition http_handler ::
  "('k \<Rightarrow> bytes \<Rightarrow> io_error_kind + 'k) \<Rightarrow> ('k \<Rightarrow> io_error_kind + 'k) \<Rightarrow>
   (protocol_msg \<Rightarrow> (request_error, (offer_error + u128) \<times> 'r \<times> 'w) outcome) \<Rightarrow>
   unit + http_in option \<Rightarrow> 'k \<Rightarrow> (proxy_error, ('k, 'r, 'w) proxied) outcome" where
  "http_handler write_all close request decoded k =
     and_then (unwrap decoded) (\<lambda>req.
     case req of
       None \<Rightarrow> Panic ''cannot parse http req''
     | Some r \<Rightarrow>
         if method_text r = ''CONNECT'' then
           (case host_str r of
              None \<Rightarrow> Err NoHostInUrl
            | Some dst \<Rightarrow>
                (case port_or_known_default r of
                   None \<Rightarrow> Err NoPortInUrl
                 | Some port \<Rightarrow>
                     (case response (request (TcpConnect dst port)) of
                        None \<Rightarrow> Err RequestLost
                      | Some (offer_id, rx, tx) \<Rightarrow>
                          (case offer_id of
                             Inr i \<Rightarrow>
                               and_then (proxy_io (write_all k
                                   (http_line ''HTTP/1.0 200 Connection established''))) (\<lambda>k1.
                               Ok (Proxied i k1 rx tx))
                           | Inl e \<Rightarrow> Panic ''not yet implemented''))))
         else
           and_then (proxy_io (write_all k
               (http_line ''HTTP/1.0 400 unsupported non-CONNECT request''))) (\<lambda>k1.
           and_then (proxy_io (close k1)) (\<lambda>k2. Ok (ProxyDone k2))))"

text \<open>\<open>tcp_forward_loop(None, id, conn, relconn).await?\<close>, which both handlers end with.\<close>

definition proxy_forward ::
  "('d, unit) chan_api \<Rightarrow> ('r, 'w, 'k) forward_ops \<Rightarrow> turn list \<Rightarrow> ('k, 'r, 'w) proxied \<Rightarrow>
   (proxy_error, ('k, 'r, 'w) proxied) outcome" where
  "proxy_forward dl_api ops ts v =
     (case v of
        ProxyDone k \<Rightarrow> Ok (ProxyDone k)
      | Proxied i k rx tx \<Rightarrow>
          and_then (map_err ForwardEnded (tcp_forward_loop dl_api ops i ts
            \<lparr>deadline = None, relconn_rx = rx, relconn_tx = tx, conn = k\<rparr>)) (\<lambda>st.
          Ok (Proxied i (conn st) (relconn_rx st) (relconn_tx st))))"

fun served_tx :: "('d, 'r, 'w, 'k) served \<Rightarrow> 'w" where
  "served_tx (Tunnel i st) = relconn_tx st"
| "served_tx (Refused tx) = tx"

context forwarding
begin

lemma serve_relconn_answers:
  assumes "get_frame (f_codec ops) (unread srx) = Some (f, ahead)"
    and "frame_protocol f = TcpConnect dst port" and "spad \<le> 128"
    and "\<forall>kind debug. tcp_connect dst port = Inl (kind, debug) \<longrightarrow> length debug \<le> 65000"
    and "serve_relconn ops tcp_connect iem dl offer_id spad srx stx = Ok v"
  shows "\<exists>b. put_frame (f_codec ops)
        (frame_from spad (TcpOffer (offer_for tcp_connect iem offer_id dst port))) = Some b \<and>
     written (served_tx v) = written stx @ b \<and>
     (case offer_for tcp_connect iem offer_id dst port of
        Inr i \<Rightarrow> \<exists>st. v = Tunnel i st \<and> unread (relconn_rx st) = ahead
      | Inl e \<Rightarrow> \<exists>tx. v = Refused tx)"
proof -
  from serve_relconn_send[where tcp_connect = tcp_connect, OF assms(1-4), where iem = iem and offer_id = offer_id and dl = dl and tx = stx]
  obtain b rx' where b: "put_frame (f_codec ops)
        (frame_from spad (TcpOffer (offer_for tcp_connect iem offer_id dst port))) = Some b"
    and rx': "unread rx' = ahead"
    and eq: "serve_relconn ops tcp_connect iem dl offer_id spad srx stx =
       and_then (unwrap_outcome (in_stream (f_write ops stx b))) (\<lambda>tx'.
         Ok (case tcp_connect dst port of
               Inr k \<Rightarrow> Tunnel offer_id \<lparr>deadline = Some dl, relconn_rx = rx', relconn_tx = tx', conn = k\<rparr>
             | Inl e \<Rightarrow> Refused tx'))"
    by blast
  from assms(5)[unfolded eq] obtain tx' where "f_write ops stx b = Inr tx'"
    and v: "v = (case tcp_connect dst port of
               Inr k \<Rightarrow> Tunnel offer_id \<lparr>deadline = Some dl, relconn_rx = rx', relconn_tx = tx', conn = k\<rparr>
             | Inl e \<Rightarrow> Refused tx')"
    by (auto simp: outcome_simps)
  then have "written tx' = written stx @ b" using write_all_appends by blast
  with b rx' v show ?thesis
    by (auto simp: offer_for_def split: sum.splits)
qed

end


section \<open>What the proxies guarantee\<close>

text \<open>A SOCKS connection that is the list of the statuses written to it.\<close>

definition demo_unreachable :: "string \<Rightarrow> u16 \<Rightarrow> (io_error_kind \<times> string) + unit" where
  "demo_unreachable dst port = Inl (TimedOut, [])"

definition demo_socks :: "socks_v5_status list socks_io" where
  "demo_socks =
     \<lparr>read_version = (\<lambda>k. Inr (SocksV5, k)), v4_read_request = (\<lambda>k. Inl ()),
      v5_read_handshake = Inr, v5_write_noauth = Inr,
      v5_read_request = (\<lambda>k. Inr ((V5Ipv4 [1, 2, 3, 4], 80), k)),
      v4_write_status = (\<lambda>k st ip port. Inr k),
      v5_write_status = (\<lambda>k st host port. Inr (k @ [st]))\<rparr>"

lemma handshake:
  assumes "frame_stream (f_codec ops) write_all written read_exact unread"
    and "forwarding ops swritten sunread incoming outgoing"
    and "put_frame (f_codec ops) (frame_from pad (TcpConnect dst port)) = Some b"
    and "write_all tx b = Inr tx'" and "sunread srx = b @ ahead"
    and "spad \<le> 128"
    and "\<forall>kind debug. tcp_connect dst port = Inl (kind, debug) \<longrightarrow> length debug \<le> 65000"
    and "serve_relconn ops tcp_connect iem dl offer_id spad srx stx = Ok v"
    and "swritten (served_tx v) = swritten stx @ s" and "unread rx = s @ later"
  shows "\<exists>rx'. request_task (f_codec ops) write_all read_exact pad (Inr (rx, tx)) (TcpConnect dst port) =
       Ok (offer_for tcp_connect iem offer_id dst port, rx', tx') \<and> unread rx' = later \<and>
     (case offer_for tcp_connect iem offer_id dst port of
        Inr i \<Rightarrow> \<exists>st. v = Tunnel i st \<and> sunread (relconn_rx st) = ahead
      | Inl e \<Rightarrow> \<exists>tx. v = Refused tx)"
proof -
  have bc: "bincode_codec (f_codec ops)" by (rule frame_stream.axioms(1) [OF assms(1)])
  have "get_frame (f_codec ops) (sunread srx) = Some (frame_from pad (TcpConnect dst port), ahead)"
    using bincode_codec.get_put_frame [OF bc assms(3), of ahead] assms(5) by simp
  from forwarding.serve_relconn_answers [where tcp_connect = tcp_connect,
      OF assms(2) this _ assms(6,7,8)] obtain a where
    a: "put_frame (f_codec ops)
        (frame_from spad (TcpOffer (offer_for tcp_connect iem offer_id dst port))) = Some a"
      "swritten (served_tx v) = swritten stx @ a"
      "case offer_for tcp_connect iem offer_id dst port of
        Inr i \<Rightarrow> \<exists>st. v = Tunnel i st \<and> sunread (relconn_rx st) = ahead
      | Inl e \<Rightarrow> \<exists>tx. v = Refused tx"
    by (auto simp: frame_from_def)
  from a(2) assms(9,10) have "unread rx = a @ later" by simp
  with bincode_codec.get_put_frame [OF bc a(1), of later]
    frame_stream.recv_get [OF assms(1), of rx] obtain rx' where
    "frame_recv (f_codec ops) read_exact rx =
       Ok (frame_from spad (TcpOffer (offer_for tcp_connect iem offer_id dst port)), rx')"
    "unread rx' = later"
    by fastforce
  with frame_stream.send_put [OF assms(1) assms(3), of tx] assms(4) a(3) show ?thesis
    by (simp add: request_task_def frame_from_def)
qed

text \<open>
  Property C22. The two ends of a request agree. When the server's task has answered a
  request that the client's task sent, the client's task returns the server's offer: the
  drawn id, with the tunnel of the server under the same id, if the server connected;
  otherwise the error. Neither end has taken a byte that belongs to the tunnel.
\<close>

theorem handshake_agrees:
  assumes "frame_stream (f_codec ops) write_all written read_exact unread"
    and "forwarding ops swritten sunread incoming outgoing"
    and "put_frame (f_codec ops) (frame_from pad (TcpConnect dst port)) = Some b"
    and "write_all tx b = Inr tx'" and "sunread srx = b @ ahead"
    and "spad \<le> 128"
    and "\<forall>kind debug. tcp_connect dst port = Inl (kind, debug) \<longrightarrow> length debug \<le> 65000"
    and "serve_relconn ops tcp_connect iem dl offer_id spad srx stx = Ok v"
    and "swritten (served_tx v) = swritten stx @ s" and "unread rx = s @ later"
  shows "\<exists>rx'. request_task (f_codec ops) write_all read_exact pad (Inr (rx, tx)) (TcpConnect dst port) =
       Ok (offer_for tcp_connect iem offer_id dst port, rx', tx') \<and> unread rx' = later \<and>
     (case offer_for tcp_connect iem offer_id dst port of
        Inr i \<Rightarrow> \<exists>st. v = Tunnel i st \<and> sunread (relconn_rx st) = ahead
      | Inl e \<Rightarrow> \<exists>tx. v = Refused tx)"
  by (rule handshake [OF assms])

theorem handshake_agrees_witness:
  "\<exists>b a rx' st. put_frame bincode_ref (frame_from 1 (TcpConnect ''h'' 80)) = Some b \<and>
     serve_relconn list_ops (\<lambda>dst port. Inr ([], [])) False () 9 1 (b @ [5]) [] =
       Ok (Tunnel 9 st) \<and> relconn_rx st = [5] \<and>
     request_task bincode_ref list_write_all list_read_exact 1 (Inr (a @ [6], [])) (TcpConnect ''h'' 80) =
       Ok (Inr 9, [6], b)"
proof -
  let ?tc = "\<lambda>dst port. Inr ([], []) :: (io_error_kind \<times> string) + bytes \<times> bytes"
  have codec: "f_codec list_ops = bincode_ref" by (simp add: list_ops_def)
  obtain b where b: "put_frame bincode_ref (frame_from 1 (TcpConnect ''h'' 80)) = Some b"
    using list_frames.put_frame_fits by (force simp: frame_from_def frame_size_def)
  have got: "get_frame bincode_ref (id (b @ [5])) = Some (frame_from 1 (TcpConnect ''h'' 80), [5])"
    using bincode_ref.get_put_frame [OF b, of "[5]"] by simp
  from list_forward.serve_relconn_send [where tcp_connect = ?tc and iem = False and dl = "()" and
      offer_id = 9 and tx = "[]" and pad = 1 and rx = "b @ [5]" and dst = "''h''" and port = 80,
      unfolded codec, OF got]
  obtain a where "put_frame bincode_ref (frame_from 1 (TcpOffer (Inr 9))) = Some a"
    and v: "\<exists>st. serve_relconn list_ops ?tc False () 9 1 (b @ [5]) [] = Ok (Tunnel 9 st) \<and>
      relconn_tx st = a"
    by (auto simp: frame_from_def offer_for_def list_ops_def list_write_all_def)
  then obtain st where st: "serve_relconn list_ops ?tc False () 9 1 (b @ [5]) [] = Ok (Tunnel 9 st)"
    "relconn_tx st = a" by blast
  have "\<exists>rx'. request_task (f_codec list_ops) list_write_all list_read_exact 1 (Inr (a @ [6], []))
        (TcpConnect ''h'' 80) = Ok (offer_for ?tc False 9 ''h'' 80, rx', b) \<and> id rx' = [6] \<and>
     (case offer_for ?tc False 9 ''h'' 80 of
        Inr i \<Rightarrow> \<exists>st'. Tunnel 9 st = Tunnel i st' \<and> id (relconn_rx st') = [5]
      | Inl e \<Rightarrow> \<exists>tx. Tunnel 9 st = Refused tx)"
    by (rule handshake_agrees [OF _ list_forward.forwarding_axioms _ _ _ _ _ st(1),
          where written = id and unread = id and s = a])
      (simp_all del: One_nat_def add: codec b st(2) list_frames.frame_stream_axioms list_write_all_def)
  with b st show ?thesis by (auto simp: offer_for_def codec)
qed

text \<open>
  What a SOCKS5 client is told. If the offer it gets is the server's for its
  request, then success is reported exactly when the server connected, and otherwise the
  status of the server's error; the proxy goes on to forward only after success.
\<close>

theorem socks5_status_follows_server:
  assumes "socks_request S k = Ok ((SocksV5, dst, port), k1)"
    and "request (TcpConnect dst port) = Ok (offer_for tcp_connect False offer_id dst port, rx, tx)"
  shows "socks_handler S request k =
     (case tcp_connect dst port of
        Inr c \<Rightarrow>
          (case v5_write_status S k1 V5Success (V5Domain (map byte_of_char dst)) port of
             Inl e \<Rightarrow> Err SocksFailed
           | Inr k2 \<Rightarrow> Ok (Proxied offer_id k2 rx tx))
      | Inl (kind, debug) \<Rightarrow>
          (case v5_write_status S k1 (network_to_v5 (io_to_network False kind debug)) (V5Ipv4 [0, 0, 0, 0]) 0 of
             Inl e \<Rightarrow> Err SocksFailed
           | Inr k2 \<Rightarrow> Ok (ProxyDone k2))) \<and>
     (\<forall>kind debug. network_to_v5 (io_to_network False kind debug) \<noteq> V5Success)"
proof
  show "\<forall>kind debug. network_to_v5 (io_to_network False kind debug) \<noteq> V5Success"
    by (simp add: io_to_network_def)
qed (use assms in \<open>auto simp: socks_handler_def response_def offer_for_def socks_reply_def
      socks_step_def split: sum.splits prod.splits\<close>)

theorem socks5_status_follows_server_witness:
  "socks_handler demo_socks
     (\<lambda>m. Ok (offer_for demo_unreachable False 7 (ipv4_to_string [1, 2, 3, 4]) 80, [] :: bytes, [] :: bytes)) [] =
   Ok (ProxyDone [V5HostUnreachable])"
proof -
  have "socks_request demo_socks [] = Ok ((SocksV5, ipv4_to_string [1, 2, 3, 4], 80), [])"
    by (simp add: socks_request_def socks_step_def demo_socks_def)
  from socks5_status_follows_server [where request = "\<lambda>m. Ok (offer_for demo_unreachable
      False 7 (ipv4_to_string [1, 2, 3, 4]) 80, [] :: bytes, [] :: bytes)" and rx = "[] :: bytes" and tx = "[] :: bytes" and offer_id = 7 and
      tcp_connect = demo_unreachable, OF this]
  show ?thesis by (simp add: demo_socks_def demo_unreachable_def io_to_network_def)
qed

text \<open>
  The destination of a SOCKS request arrives at the server: the text of an
  IPv4 address, in both versions, and of an IPv6 address, compressed or mixed as the
  display prescribes, reads back as the bytes of the address, and a domain name in ASCII is
  passed on byte by byte.
\<close>

theorem socks_destination:
  assumes "ip \<noteq> []" and "length ip6 = 16" and "list_all (\<lambda>b. b < 0x80) name"
  shows "read_ip4 (v4_dst (V4Ip ip)) = ip \<and> read_ip4 (v5_dst (V5Ipv4 ip)) = ip \<and>
     read_ip6 (v5_dst (V5Ipv6 ip6)) = ip6 \<and>
     map byte_of_char (v4_dst (V4Domain name)) = name \<and>
     map byte_of_char (v5_dst (V5Domain name)) = name"
  using assms by (simp add: ip4_reads_back ip6_reads_back from_utf8_lossy_ascii comp_def)

theorem socks_destination_witness:
  "read_ip4 (v4_dst (V4Ip [10, 0, 0, 255])) = [10, 0, 0, 255] \<and>
   v5_dst (V5Ipv6 [0x20, 1, 0xd, 0xb8, 0, 0, 0, 0, 0, 0, 0, 0, 0, 0, 0, 1]) = ''2001:db8::1'' \<and>
   read_ip6 ''2001:db8::1'' = [0x20, 1, 0xd, 0xb8, 0, 0, 0, 0, 0, 0, 0, 0, 0, 0, 0, 1] \<and>
   map byte_of_char (v5_dst (V5Domain [97, 46, 98])) = [97, 46, 98]"
proof -
  let ?ip6 = "[0x20, 1, 0xd, 0xb8, 0, 0, 0, 0, 0, 0, 0, 0, 0, 0, 0, 1] :: bytes"
  have "v5_dst (V5Ipv6 ?ip6) = ''2001:db8::1''"
    by (simp add: ipv6_to_string_def fmt_segments_def show_hex.simps hex_digit_def char_of_def bit_simps)
  with socks_destination [of "[10, 0, 0, 255]" ?ip6 "[97, 46, 98]"] show ?thesis by simp
qed

text \<open>
  Property C34. The HTTP handler, on every branch, each with exactly the cases it comes from.
  It panics if there is no request to read, and if the server refuses the connection, whose
  client is told nothing. A request that is not CONNECT is answered by the 400 line and
  closed. For a CONNECT the tunnel starts after exactly the 200 line; it is an error without
  host or port, if the request task ends without an offer, or if one of these writes or
  the close fails.
\<close>

theorem http_handler_outcome:
  assumes "conn_stream read_some write_all incoming outgoing"
  shows "case http_handler write_all close request decoded k of
     Ok (ProxyDone k2) \<Rightarrow> \<exists>r k1. decoded = Inr (Some r) \<and> method_text r \<noteq> ''CONNECT'' \<and>
       close k1 = Inr k2 \<and> outgoing k1 = outgoing k @ http_line ''HTTP/1.0 400 unsupported non-CONNECT request''
   | Ok (Proxied i k1 rx tx) \<Rightarrow> \<exists>r dst port. decoded = Inr (Some r) \<and> method_text r = ''CONNECT'' \<and>
       host_str r = Some dst \<and> port_or_known_default r = Some port \<and>
       request (TcpConnect dst port) = Ok (Inr i, rx, tx) \<and>
       outgoing k1 = outgoing k @ http_line ''HTTP/1.0 200 Connection established''
   | Panic m \<Rightarrow> (\<forall>r. decoded \<noteq> Inr (Some r)) \<or>
       (\<exists>r dst port e rx tx. decoded = Inr (Some r) \<and> method_text r = ''CONNECT'' \<and>
          host_str r = Some dst \<and> port_or_known_default r = Some port \<and>
          request (TcpConnect dst port) = Ok (Inl e, rx, tx))
   | Err e \<Rightarrow> \<exists>r. decoded = Inr (Some r) \<and>
       (case e of
          NoHostInUrl \<Rightarrow> method_text r = ''CONNECT'' \<and> host_str r = None
        | NoPortInUrl \<Rightarrow> method_text r = ''CONNECT'' \<and> host_str r \<noteq> None \<and> port_or_known_default r = None
        | RequestLost \<Rightarrow> method_text r = ''CONNECT'' \<and>
            (\<exists>dst port. host_str r = Some dst \<and> port_or_known_default r = Some port \<and>
               (\<forall>a. request (TcpConnect dst port) \<noteq> Ok a))
        | ProxyIo x \<Rightarrow>
            if method_text r = ''CONNECT''
            then write_all k (http_line ''HTTP/1.0 200 Connection established'') = Inl x \<and>
              (\<exists>dst port i rx tx. host_str r = Some dst \<and> port_or_known_default r = Some port \<and>
                 request (TcpConnect dst port) = Ok (Inr i, rx, tx))
            else write_all k (http_line ''HTTP/1.0 400 unsupported non-CONNECT request'') = Inl x \<or>
              (\<exists>k1. write_all k (http_line ''HTTP/1.0 400 unsupported non-CONNECT request'') = Inr k1 \<and>
                 close k1 = Inl x)
        | _ \<Rightarrow> False)"
proof (cases "\<exists>r. decoded = Inr (Some r)")
  case False
  then show ?thesis by (cases decoded) (auto simp: http_handler_def split: option.split)
next
  case True
  then obtain r where r: "decoded = Inr (Some r)" by blast
  show ?thesis
  proof (cases "method_text r = ''CONNECT''")
    case False
    let ?line = "http_line ''HTTP/1.0 400 unsupported non-CONNECT request''"
    show ?thesis
    proof (cases "write_all k ?line")
      case (Inr k1)
      with r False conn_stream.conn_write_back [OF assms Inr] show ?thesis
        by (cases "close k1") (auto simp: http_handler_def)
    qed (use r False in \<open>simp add: http_handler_def\<close>)
  next
    case connect: True
    let ?line = "http_line ''HTTP/1.0 200 Connection established''"
    show ?thesis
    proof (cases "\<exists>dst port i rx tx. host_str r = Some dst \<and> port_or_known_default r = Some port \<and>
        request (TcpConnect dst port) = Ok (Inr i, rx, tx)")
      case True
      then obtain dst port i rx tx where "host_str r = Some dst" "port_or_known_default r = Some port"
        "request (TcpConnect dst port) = Ok (Inr i, rx, tx)" by blast
      with r connect conn_stream.conn_write_back [OF assms, of k ?line] show ?thesis
        by (cases "write_all k ?line") (simp_all add: http_handler_def response_def)
    next
      case False
      with r connect show ?thesis
        by (auto simp: http_handler_def response_def split: option.split outcome.split sum.split)
    qed
  qed
qed

theorem http_handler_outcome_witness:
  "http_handler list_conn_write Inr (\<lambda>m. Ok (Inl (UnableConnect NetServerFailure), [] :: bytes, [] :: bytes))
     (Inr (Some \<lparr>method_text = ''GET'', host_str = None, port_or_known_default = None\<rparr>)) ([], []) =
   Ok (ProxyDone ([], http_line ''HTTP/1.0 400 unsupported non-CONNECT request''))"
proof -
  let ?v = "http_handler list_conn_write Inr (\<lambda>m. Ok (Inl (UnableConnect NetServerFailure), [] :: bytes, [] :: bytes))
     (Inr (Some \<lparr>method_text = ''GET'', host_str = None, port_or_known_default = None\<rparr>)) ([], [])"
  obtain k2 where k2: "?v = Ok (ProxyDone k2)"
    by (simp add: http_handler_def list_conn_write_def)
  from http_handler_outcome [OF list_conn.conn_stream_axioms, where close = Inr
      and request = "\<lambda>m. Ok (Inl (UnableConnect NetServerFailure), [] :: bytes, [] :: bytes)"
      and decoded = "Inr (Some \<lparr>method_text = ''GET'', host_str = None, port_or_known_default = None\<rparr>)" and k = "([], [])"]
  have "snd k2 = http_line ''HTTP/1.0 400 unsupported non-CONNECT request''"
    unfolding k2 by auto
  with k2 show ?thesis by (auto simp: http_handler_def list_conn_write_def)
qed

end
