(* ===== verification/ClientSystem.thy ===== *)
theory ClientSystem
  imports Proxy
begin

text \<open>
  The wsocks client as a whole (\<open>client\<close> in \<open>src/bin.todo/wsocks.rs\<close>): the accept loops of the
  two local proxies, the tasks they spawn, the unbounded channel that carries requests, the
  loop \<open>request_fut\<close> with a task per request, and the channel of capacity one on which each
  request is answered. The whole is a labelled step relation; the steps of a handler and of
  a request task are those of theory \<open>Proxy\<close>.
\<close>


section \<open>A handler, cut at its channel\<close>

datatype proxy_kind = SocksProxy | HttpProxy

text \<open>A handler that has sent its request and waits, with what it needs for the answer.\<close>

datatype 'k ask = SocksAsk socks_version string u16 'k | HttpAsk string u16 'k

fun ask_request :: "'k ask \<Rightarrow> protocol_msg" where
  "ask_request (SocksAsk version dst port k) = TcpConnect dst port"
| "ask_request (HttpAsk dst port k) = TcpConnect dst port"

text \<open>The connection operations, the frame codec and the streams of the multiplexer, which
  are dependencies.\<close>

record ('k, 'r, 'w) client_io =
  socks_ops :: "'k socks_io"
  http_write :: "'k \<Rightarrow> bytes \<Rightarrow> io_error_kind + 'k"
  http_close :: "'k \<Rightarrow> io_error_kind + 'k"
  req_codec :: bincode
  req_write :: "'w \<Rightarrow> bytes \<Rightarrow> io_error_kind + 'w"
  req_read :: "'r \<Rightarrow> nat \<Rightarrow> io_error_kind + bytes \<times> 'r"

text \<open>Up to the request: \<open>Inl\<close> is a handler that is done without one.\<close>

definition socks_ask ::
  "('k, 'r, 'w) client_io \<Rightarrow> 'k \<Rightarrow> (proxy_error, ('k, 'r, 'w) proxied + 'k ask) outcome" where
  "socks_ask io k =
     and_then (socks_request (socks_ops io) k) (\<lambda>((version, dst, port), k1).
     Ok (Inr (SocksAsk version dst port k1)))"

definition http_ask ::
  "('k, 'r, 'w) client_io \<Rightarrow> unit + http_in option \<Rightarrow> 'k \<Rightarrow>
   (proxy_error, ('k, 'r, 'w) proxied + 'k ask) outcome" where
  "http_ask io decoded k =
     and_then (unwrap decoded) (\<lambda>req.
     case req of
       None \<Rightarrow> Panic ''cannot parse http req''
     | Some r \<Rightarrow>
         if method_text r = ''CONNECT'' then
           (case host_str r of
              None \<Rightarrow> Err NoHostInUrl
            | Some dst \<Rightarrow>
                (case port_or_known_default r of
                   None \<Rightarrow> Err NoPortInUrl
                 | Some port \<Rightarrow> Ok (Inr (HttpAsk dst port k))))
         else
           and_then (proxy_io (http_write io k
               (http_line ''HTTP/1.0 400 unsupported non-CONNECT request''))) (\<lambda>k1.
           and_then (proxy_io (http_close io k1)) (\<lambda>k2. Ok (Inl (ProxyDone k2)))))"

text \<open>From the answer on, up to the point where forwarding begins.\<close>

fun proxy_answer ::
  "('k, 'r, 'w) client_io \<Rightarrow> 'k ask \<Rightarrow> ((offer_error + u128) \<times> 'r \<times> 'w) option \<Rightarrow>
   (proxy_error, ('k, 'r, 'w) proxied) outcome" where
  "proxy_answer io a None = Err RequestLost"
| "proxy_answer io (SocksAsk version dst port k) (Some (offer_id, rx, tx)) =
     and_then (socks_reply (socks_ops io) version dst port offer_id k) (\<lambda>k1.
     case offer_id of Inr i \<Rightarrow> Ok (Proxied i k1 rx tx) | Inl e \<Rightarrow> Ok (ProxyDone k1))"
| "proxy_answer io (HttpAsk dst port k) (Some (offer_id, rx, tx)) =
     (case offer_id of
        Inr i \<Rightarrow>
          and_then (proxy_io (http_write io k (http_line ''HTTP/1.0 200 Connection established'')))
            (\<lambda>k1. Ok (Proxied i k1 rx tx))
      | Inl e \<Rightarrow> Panic ''not yet implemented'')"

definition with_request ::
  "('k, 'r, 'w) client_io \<Rightarrow> (protocol_msg \<Rightarrow> (request_error, (offer_error + u128) \<times> 'r \<times> 'w) outcome) \<Rightarrow>
   ('k, 'r, 'w) proxied + 'k ask \<Rightarrow> (proxy_error, ('k, 'r, 'w) proxied) outcome" where
  "with_request io request asked =
     (case asked of
        Inl v \<Rightarrow> Ok v
      | Inr a \<Rightarrow> proxy_answer io a (response (request (ask_request a))))"

text \<open>Cut at the channel and joined again, the handlers are those of theory \<open>Proxy\<close>.\<close>

lemma socks_handler_parts:
  "socks_handler (socks_ops io) request k = and_then (socks_ask io k) (with_request io request)"
proof (cases "socks_request (socks_ops io) k")
  case (Ok r)
  obtain version dst port k1 where r: "r = ((version, dst, port), k1)" by (metis prod.exhaust)
  with Ok show ?thesis
    by (cases "response (request (TcpConnect dst port))")
      (auto simp: socks_handler_def socks_ask_def with_request_def)
qed (simp_all add: socks_handler_def socks_ask_def)

lemma http_handler_parts:
  "http_handler (http_write io) (http_close io) request decoded k =
     and_then (http_ask io decoded k) (with_request io request)"
proof (cases decoded)
  case (Inr req)
  show ?thesis
  proof (cases req)
    case (Some r)
    show ?thesis
    proof (cases "method_text r = ''CONNECT''")
      case True
      show ?thesis
      proof (cases "host_str r")
        case None
        with Inr Some True show ?thesis by (simp add: http_handler_def http_ask_def)
      next
        case (Some dst)
        then show ?thesis using Inr \<open>req = Some r\<close> True
          by (cases "port_or_known_default r"; cases "response (request (TcpConnect dst (the (port_or_known_default r))))")
            (auto simp: http_handler_def http_ask_def with_request_def)
      qed
    next
      case False
      let ?bad = "http_line ''HTTP/1.0 400 unsupported non-CONNECT request''"
      show ?thesis
      proof (cases "http_write io k ?bad")
        case (Inr k1)
        then show ?thesis using \<open>decoded = Inr req\<close> Some False
          by (cases "http_close io k1") (simp_all add: http_handler_def http_ask_def with_request_def)
      qed (use \<open>decoded = Inr req\<close> Some False in \<open>simp add: http_handler_def http_ask_def\<close>)
    qed
  qed (use Inr in \<open>simp add: http_handler_def http_ask_def\<close>)
qed (simp add: http_handler_def http_ask_def)

section \<open>The client as a step relation\<close>

text \<open>Where the task of one accepted connection stands. \<open>Waiting\<close> carries the number of its
  response channel, \<open>Served\<close> how the handler ended or what it forwards.\<close>

datatype ('k, 'r, 'w) conn_pc =
    Accepted proxy_kind 'k
  | Waiting nat "'k ask"
  | Served "(proxy_error, ('k, 'r, 'w) proxied) outcome"

text \<open>A request task: what \<open>req_rx\<close> yielded, and whether the task has ended.\<close>

record rtask =
  job :: "protocol_msg \<times> nat"
  finished :: bool

text \<open>\<open>socks_up\<close>, \<open>http_up\<close> and \<open>request_up\<close> say which of the three futures still run;
  \<open>resps\<close> are the response channels in the order they were made, and a channel end is the
  index of its channel.\<close>

record ('q, 'p, 'k, 'r, 'w) client_sys =
  socks_up :: bool
  http_up :: bool
  request_up :: bool
  req_chan :: 'q
  resps :: "'p list"
  conns :: "('k, 'r, 'w) conn_pc list"
  rtasks :: "rtask list"

definition client_start :: "('q, protocol_msg \<times> nat) chan_api \<Rightarrow> ('q, 'p, 'k, 'r, 'w) client_sys" where
  "client_start q_api =
     \<lparr>socks_up = True, http_up = True, request_up = True, req_chan = chan_unbounded q_api,
      resps = [], conns = [], rtasks = []\<rparr>"

text \<open>One round of an accept loop: \<open>accept().await?\<close> spawns a handler or ends the loop.\<close>

definition socks_accept ::
  "io_error_kind + 'k \<Rightarrow> ('q, 'p, 'k, 'r, 'w) client_sys \<Rightarrow> ('q, 'p, 'k, 'r, 'w) client_sys" where
  "socks_accept r s =
     (case r of
        Inl e \<Rightarrow> s\<lparr>socks_up := False\<rparr>
      | Inr k \<Rightarrow> s\<lparr>conns := conns s @ [Accepted SocksProxy k]\<rparr>)"

definition http_accept ::
  "io_error_kind + 'k \<Rightarrow> ('q, 'p, 'k, 'r, 'w) client_sys \<Rightarrow> ('q, 'p, 'k, 'r, 'w) client_sys" where
  "http_accept r s =
     (case r of
        Inl e \<Rightarrow> s\<lparr>http_up := False\<rparr>
      | Inr k \<Rightarrow> s\<lparr>conns := conns s @ [Accepted HttpProxy k]\<rparr>)"

text \<open>A handler makes its response channel and sends its request.\<close>

definition send_request ::
  "('q, protocol_msg \<times> nat) chan_api \<Rightarrow> ('p, (offer_error + u128) \<times> 'r \<times> 'w) chan_api \<Rightarrow>
   nat \<Rightarrow> 'k ask \<Rightarrow> ('q, 'p, 'k, 'r, 'w) client_sys \<Rightarrow> ('q, 'p, 'k, 'r, 'w) client_sys option" where
  "send_request q_api p_api i a s =
     (let rid = length (resps s); s' = s\<lparr>resps := resps s @ [chan_bounded p_api 1]\<rparr> in
      case send_await q_api (req_chan s) (ask_request a, rid) of
        Pending \<Rightarrow> None
      | Ready (Inl e) \<Rightarrow> Some (s'\<lparr>conns := (conns s)[i := Served (Err RequestLost)]\<rparr>)
      | Ready (Inr c) \<Rightarrow> Some (s'\<lparr>req_chan := c, conns := (conns s)[i := Waiting rid a]\<rparr>))"

text \<open>One round of \<open>request_fut\<close>: it takes the next request and spawns its task. On an error
  of the channel the future ends and drops the receiving end.\<close>

definition request_turn ::
  "('q, protocol_msg \<times> nat) chan_api \<Rightarrow> ('q, 'p, 'k, 'r, 'w) client_sys \<Rightarrow>
   (protocol_msg \<times> nat) option \<Rightarrow> ('q, 'p, 'k, 'r, 'w) client_sys option" where
  "request_turn q_api s got =
     (case recv_await q_api (req_chan s) of
        Pending \<Rightarrow> None
      | Ready (Inl e) \<Rightarrow>
          if got = None then Some (s\<lparr>request_up := False, req_chan := hang_up q_api (req_chan s)\<rparr>)
          else None
      | Ready (Inr (q, c)) \<Rightarrow>
          if got = Some q
          then Some (s\<lparr>req_chan := c, rtasks := rtasks s @ [\<lparr>job = q, finished = False\<rparr>]\<rparr>)
          else None)"

text \<open>A request task ends: with an offer it sends it on the response channel, and in every
  case it drops its end of that channel.\<close>

definition respond ::
  "('p, (offer_error + u128) \<times> 'r \<times> 'w) chan_api \<Rightarrow> ((offer_error + u128) \<times> 'r \<times> 'w) option \<Rightarrow> 'p \<Rightarrow>
   'p option" where
  "respond p_api res c =
     (case res of
        None \<Rightarrow> Some (hang_up p_api c)
      | Some x \<Rightarrow>
          (case send_await p_api c x of
             Pending \<Rightarrow> None
           | Ready (Inl e) \<Rightarrow> Some (hang_up p_api c)
           | Ready (Inr c') \<Rightarrow> Some (hang_up p_api c')))"

definition finish_task ::
  "('p, (offer_error + u128) \<times> 'r \<times> 'w) chan_api \<Rightarrow> nat \<Rightarrow> ((offer_error + u128) \<times> 'r \<times> 'w) option \<Rightarrow>
   ('q, 'p, 'k, 'r, 'w) client_sys \<Rightarrow> ('q, 'p, 'k, 'r, 'w) client_sys option" where
  "finish_task p_api j res s =
     (let rid = snd (job (rtasks s ! j)) in
      map_option (\<lambda>c. s\<lparr>resps := (resps s)[rid := c],
          rtasks := (rtasks s)[j := (rtasks s ! j)\<lparr>finished := True\<rparr>]\<rparr>)
        (respond p_api res (resps s ! rid)))"

text \<open>A handler takes its answer; \<open>None\<close> is a channel whose sender was dropped.\<close>

definition take_answer ::
  "('k, 'r, 'w) client_io \<Rightarrow> ('p, (offer_error + u128) \<times> 'r \<times> 'w) chan_api \<Rightarrow> nat \<Rightarrow> nat \<Rightarrow> 'k ask \<Rightarrow>
   ('q, 'p, 'k, 'r, 'w) client_sys \<Rightarrow>
   (((offer_error + u128) \<times> 'r \<times> 'w) option \<times> ('q, 'p, 'k, 'r, 'w) client_sys) option" where
  "take_answer io p_api i rid a s =
     (case recv_await p_api (resps s ! rid) of
        Pending \<Rightarrow> None
      | Ready (Inl e) \<Rightarrow> Some (None, s\<lparr>conns := (conns s)[i := Served (proxy_answer io a None)]\<rparr>)
      | Ready (Inr (x, c)) \<Rightarrow>
          Some (Some x, s\<lparr>resps := (resps s)[rid := c],
                          conns := (conns s)[i := Served (proxy_answer io a (Some x))]\<rparr>))"

text \<open>What an observer sees: who asked what on which channel, which request was taken, how its
  task ended, and what a handler got.\<close>

datatype ('r, 'w) client_event =
    CAccepted proxy_kind
  | CAcceptFailed proxy_kind
  | CServed nat
  | CAsked nat protocol_msg nat
  | CTaken protocol_msg nat
  | CRequestsEnd
  | CResult protocol_msg nat "((offer_error + u128) \<times> 'r \<times> 'w) option"
  | CAnswered nat nat "((offer_error + u128) \<times> 'r \<times> 'w) option"

fun accept_event :: "proxy_kind \<Rightarrow> io_error_kind + 'k \<Rightarrow> ('r, 'w) client_event" where
  "accept_event kind (Inl e) = CAcceptFailed kind"
| "accept_event kind (Inr k) = CAccepted kind"

definition handler_ask ::
  "('k, 'r, 'w) client_io \<Rightarrow> unit + http_in option \<Rightarrow> proxy_kind \<Rightarrow> 'k \<Rightarrow>
   (proxy_error, ('k, 'r, 'w) proxied + 'k ask) outcome" where
  "handler_ask io decoded kind k =
     (case kind of SocksProxy \<Rightarrow> socks_ask io k | HttpProxy \<Rightarrow> http_ask io decoded k)"

text \<open>\<open>opened\<close> is what \<open>mux.open_conn\<close> returns, \<open>decoded\<close> what the HTTP decoder returns: both are
  the environment's choice, as are the results of the two accepts.\<close>

inductive client_step ::
  "('k, 'r, 'w) client_io \<Rightarrow> ('q, protocol_msg \<times> nat) chan_api \<Rightarrow>
   ('p, (offer_error + u128) \<times> 'r \<times> 'w) chan_api \<Rightarrow>
   ('q, 'p, 'k, 'r, 'w) client_sys \<Rightarrow> ('r, 'w) client_event \<Rightarrow> ('q, 'p, 'k, 'r, 'w) client_sys \<Rightarrow> bool"
  for io :: "('k, 'r, 'w) client_io" and q_api :: "('q, protocol_msg \<times> nat) chan_api"
    and p_api :: "('p, (offer_error + u128) \<times> 'r \<times> 'w) chan_api" where
  c_socks_accept:
    "socks_up s \<Longrightarrow> client_step io q_api p_api s (accept_event SocksProxy r) (socks_accept r s)"
| c_http_accept:
    "http_up s \<Longrightarrow> client_step io q_api p_api s (accept_event HttpProxy r) (http_accept r s)"
| c_ask:
    "i < length (conns s) \<Longrightarrow> conns s ! i = Accepted kind k \<Longrightarrow>
     handler_ask io decoded kind k = Ok (Inr a) \<Longrightarrow> send_request q_api p_api i a s = Some s' \<Longrightarrow>
     client_step io q_api p_api s (CAsked i (ask_request a) (length (resps s))) s'"
| c_served:
    "i < length (conns s) \<Longrightarrow> conns s ! i = Accepted kind k \<Longrightarrow>
     handler_ask io decoded kind k = r \<Longrightarrow> \<forall>a. r \<noteq> Ok (Inr a) \<Longrightarrow>
     client_step io q_api p_api s (CServed i)
       (s\<lparr>conns := (conns s)[i := Served (and_then r (\<lambda>x. Ok (projl x)))]\<rparr>)"
| c_take:
    "request_up s \<Longrightarrow> request_turn q_api s (Some (req, rid)) = Some s' \<Longrightarrow>
     client_step io q_api p_api s (CTaken req rid) s'"
| c_requests_end:
    "request_up s \<Longrightarrow> request_turn q_api s None = Some s' \<Longrightarrow>
     client_step io q_api p_api s CRequestsEnd s'"
| c_result:
    "j < length (rtasks s) \<Longrightarrow> \<not> finished (rtasks s ! j) \<Longrightarrow> job (rtasks s ! j) = (req, rid) \<Longrightarrow>
     res = response (request_task (req_codec io) (req_write io) (req_read io) pad opened req) \<Longrightarrow>
     finish_task p_api j res s = Some s' \<Longrightarrow>
     client_step io q_api p_api s (CResult req rid res) s'"
| c_answer:
    "i < length (conns s) \<Longrightarrow> conns s ! i = Waiting rid a \<Longrightarrow>
     take_answer io p_api i rid a s = Some (res, s') \<Longrightarrow>
     client_step io q_api p_api s (CAnswered i rid res) s'"

lemma accept_event_not_result [simp]:
  "accept_event kind r \<noteq> CResult q rid x" "CResult q rid x \<noteq> accept_event kind r"
  by (cases r; simp)+

inductive_cases client_resultE: "client_step io q_api p_api s (CResult q rid x) s'"


section \<open>The invariant of the client\<close>

fun asked1 :: "('r, 'w) client_event \<Rightarrow> (nat \<times> protocol_msg \<times> nat) list" where
  "asked1 (CAsked i q r) = [(i, q, r)]"
| "asked1 _ = []"

fun req_taken1 :: "('r, 'w) client_event \<Rightarrow> (protocol_msg \<times> nat) list" where
  "req_taken1 (CTaken q r) = [(q, r)]"
| "req_taken1 _ = []"

fun resulted1 ::
  "('r, 'w) client_event \<Rightarrow> (nat \<times> protocol_msg \<times> ((offer_error + u128) \<times> 'r \<times> 'w) option) list" where
  "resulted1 (CResult q r x) = [(r, q, x)]"
| "resulted1 _ = []"

fun answered1 :: "('r, 'w) client_event \<Rightarrow> (nat \<times> ((offer_error + u128) \<times> 'r \<times> 'w) option) list" where
  "answered1 (CAnswered i r x) = [(r, x)]"
| "answered1 _ = []"

definition asked_by :: "('r, 'w) client_event list \<Rightarrow> (nat \<times> protocol_msg \<times> nat) list" where
  "asked_by evs = concat (map asked1 evs)"

definition taken_from :: "('r, 'w) client_event list \<Rightarrow> (protocol_msg \<times> nat) list" where
  "taken_from evs = concat (map req_taken1 evs)"

definition results_of ::
  "('r, 'w) client_event list \<Rightarrow> (nat \<times> protocol_msg \<times> ((offer_error + u128) \<times> 'r \<times> 'w) option) list" where
  "results_of evs = concat (map resulted1 evs)"

definition answers_to ::
  "('r, 'w) client_event list \<Rightarrow> (nat \<times> ((offer_error + u128) \<times> 'r \<times> 'w) option) list" where
  "answers_to evs = concat (map answered1 evs)"

lemma client_history [simp]:
  "asked_by [] = []" "asked_by (evs @ [e]) = asked_by evs @ asked1 e"
  "taken_from [] = []" "taken_from (evs @ [e]) = taken_from evs @ req_taken1 e"
  "results_of [] = []" "results_of (evs @ [e]) = results_of evs @ resulted1 e"
  "answers_to [] = []" "answers_to (evs @ [e]) = answers_to evs @ answered1 e"
  by (simp_all add: asked_by_def taken_from_def results_of_def answers_to_def)

lemma asked_by_event: "(i, q, r) \<in> set (asked_by evs) \<longleftrightarrow> CAsked i q r \<in> set evs"
proof -
  have *: "(i, q, r) \<in> set (asked1 e) \<longleftrightarrow> CAsked i q r = e" for e by (cases e) auto
  show ?thesis by (simp add: asked_by_def *)
qed

lemma results_of_event: "(r, q, x) \<in> set (results_of evs) \<longleftrightarrow> CResult q r x \<in> set evs"
proof -
  have *: "(r, q, x) \<in> set (resulted1 e) \<longleftrightarrow> CResult q r x = e" for e by (cases e) auto
  show ?thesis by (simp add: results_of_def *)
qed

text \<open>A response channel before and after its task has ended, and after its answer was taken.\<close>

definition resp_ok ::
  "(protocol_msg \<times> 'x option) option \<Rightarrow> bool \<Rightarrow> 'x fifo \<Rightarrow> bool" where
  "resp_ok res got f \<longleftrightarrow> capacity f = Some 1 \<and>
     (case res of
        None \<Rightarrow> queue f = [] \<and> \<not> hung_up f \<and> \<not> got
      | Some (q, None) \<Rightarrow> queue f = [] \<and> hung_up f
      | Some (q, Some x) \<Rightarrow> queue f = (if got then [] else [x]) \<and> hung_up f)"

lemma resp_ok_hung:
  assumes "resp_ok res False f" and "hung_up f" and "queue f = []"
  obtains q where "res = Some (q, None)" and "resp_ok res True f"
proof (cases res)
  case (Some qx)
  with assms that show thesis
    by (cases qx; cases "snd qx") (auto simp: resp_ok_def)
qed (use assms in \<open>simp add: resp_ok_def\<close>)

lemma resp_ok_got:
  assumes "resp_ok res False f" and "queue f = v # queue g" and "g = f\<lparr>queue := queue g\<rparr>"
  obtains q where "res = Some (q, Some v)" and "resp_ok res True g"
proof (cases res)
  case (Some qx)
  with assms(1,2) obtain q where r: "res = Some (q, Some v)" and "queue g = []"
    and f: "hung_up f" "capacity f = Some 1"
    by (cases qx; cases "snd qx") (auto simp: resp_ok_def)
  with assms(3) have "g = f\<lparr>queue := []\<rparr>" by simp
  with f r have "resp_ok res True g" by (simp add: resp_ok_def)
  with r that show thesis by blast
qed (use assms in \<open>simp add: resp_ok_def\<close>)

definition requests_ok :: "('q \<Rightarrow> (protocol_msg \<times> nat) fifo) \<Rightarrow> ('r, 'w) client_event list \<Rightarrow>
    ('q, 'p, 'k, 'r, 'w) client_sys \<Rightarrow> bool" where
  "requests_ok qview evs s \<longleftrightarrow>
     \<not> hung_up (qview (req_chan s)) \<and> capacity (qview (req_chan s)) = None \<and> request_up s \<and>
     map snd (asked_by evs) = taken_from evs @ queue (qview (req_chan s)) \<and>
     map (snd \<circ> snd) (asked_by evs) = [0..<length (resps s)] \<and>
     map job (rtasks s) = taken_from evs"

definition results_ok :: "('p \<Rightarrow> ((offer_error + u128) \<times> 'r \<times> 'w) fifo) \<Rightarrow> ('r, 'w) client_event list \<Rightarrow>
    ('q, 'p, 'k, 'r, 'w) client_sys \<Rightarrow> bool" where
  "results_ok pview evs s \<longleftrightarrow>
     (\<forall>t \<in> set (rtasks s). finished t \<longleftrightarrow> snd (job t) \<in> fst ` set (results_of evs)) \<and>
     (\<forall>r q x. (r, q, x) \<in> set (results_of evs) \<longrightarrow> (q, r) \<in> set (taken_from evs)) \<and>
     distinct (map fst (results_of evs)) \<and>
     (\<forall>r < length (resps s).
        resp_ok (map_of (results_of evs) r) (r \<in> fst ` set (answers_to evs)) (pview (resps s ! r)))"

definition waits_ok :: "('r, 'w) client_event list \<Rightarrow> ('q, 'p, 'k, 'r, 'w) client_sys \<Rightarrow> bool" where
  "waits_ok evs s \<longleftrightarrow>
     (\<forall>i r a. i < length (conns s) \<longrightarrow> conns s ! i = Waiting r a \<longrightarrow>
        (i, ask_request a, r) \<in> set (asked_by evs) \<and> r \<notin> fst ` set (answers_to evs)) \<and>
     (\<forall>r x. (r, x) \<in> set (answers_to evs) \<longrightarrow> (\<exists>q. (r, q, x) \<in> set (results_of evs))) \<and>
     (\<forall>i r x. CAnswered i r x \<in> set evs \<longrightarrow>
        (\<exists>q. (i, q, r) \<in> set (asked_by evs)) \<and> (r, x) \<in> set (answers_to evs)) \<and>
     distinct (map fst (answers_to evs))"

definition client_inv :: "('q \<Rightarrow> (protocol_msg \<times> nat) fifo) \<Rightarrow>
    ('p \<Rightarrow> ((offer_error + u128) \<times> 'r \<times> 'w) fifo) \<Rightarrow> ('r, 'w) client_event list \<Rightarrow>
    ('q, 'p, 'k, 'r, 'w) client_sys \<Rightarrow> bool" where
  "client_inv qview pview evs s \<longleftrightarrow> requests_ok qview evs s \<and> results_ok pview evs s \<and> waits_ok evs s"

lemma nth_update: "j < length xs \<Longrightarrow> xs[i := x] ! j = (if i = j then x else xs ! j)"
  by (cases "i < length xs") (simp_all add: nth_list_update)

lemma requests_asked_unique:
  assumes "requests_ok qview evs s" and "(i, q, r) \<in> set (asked_by evs)"
    and "(i', q', r) \<in> set (asked_by evs)"
  shows "i' = i \<and> q' = q"
proof -
  have "distinct (map (snd \<circ> snd) (asked_by evs))"
    using assms(1) by (simp only: requests_ok_def distinct_upt)
  then have "inj_on (snd \<circ> snd) (set (asked_by evs))" by (simp only: distinct_map)
  from inj_onD [OF this _ assms(2,3)] show ?thesis by simp
qed

lemma requests_rid_less:
  assumes "requests_ok qview evs s" and "(i, q, r) \<in> set (asked_by evs)"
  shows "r < length (resps s)"
proof -
  have "r \<in> set (map (snd \<circ> snd) (asked_by evs))" using assms(2) by force
  with assms(1) show ?thesis by (simp add: requests_ok_def)
qed

lemma requests_taken:
  assumes "requests_ok qview evs s" and "(q, r) \<in> set (taken_from evs)"
  obtains i where "(i, q, r) \<in> set (asked_by evs)"
proof -
  have "(q, r) \<in> set (map snd (asked_by evs))" using assms by (simp add: requests_ok_def)
  with that show thesis by auto
qed

lemma results_okD:
  assumes "results_ok pview evs s"
  shows "t \<in> set (rtasks s) \<Longrightarrow> finished t \<longleftrightarrow> snd (job t) \<in> fst ` set (results_of evs)"
    and "(r, q, x) \<in> set (results_of evs) \<Longrightarrow> (q, r) \<in> set (taken_from evs)"
    and "distinct (map fst (results_of evs))"
    and "r < length (resps s) \<Longrightarrow>
      resp_ok (map_of (results_of evs) r) (r \<in> fst ` set (answers_to evs)) (pview (resps s ! r))"
  using assms unfolding results_ok_def by blast+

lemma requests_okD:
  assumes "requests_ok qview evs s"
  shows "map snd (asked_by evs) = taken_from evs @ queue (qview (req_chan s))"
    and "map job (rtasks s) = taken_from evs"
  using assms unfolding requests_ok_def by blast+

lemma waits_okD:
  assumes "waits_ok evs s"
  shows "i < length (conns s) \<Longrightarrow> conns s ! i = Waiting r a \<Longrightarrow>
      (i, ask_request a, r) \<in> set (asked_by evs) \<and> r \<notin> fst ` set (answers_to evs)"
    and "(r, x) \<in> set (answers_to evs) \<Longrightarrow> \<exists>q. (r, q, x) \<in> set (results_of evs)"
    and "CAnswered i r x \<in> set evs \<Longrightarrow>
      (\<exists>q. (i, q, r) \<in> set (asked_by evs)) \<and> (r, x) \<in> set (answers_to evs)"
    and "distinct (map fst (answers_to evs))"
  using assms unfolding waits_ok_def by blast+

lemma requests_rids:
  assumes "requests_ok qview evs s"
  shows "distinct (map snd (taken_from evs @ queue (qview (req_chan s))))"
proof -
  have m: "map snd (asked_by evs) = taken_from evs @ queue (qview (req_chan s))"
    and r: "map (snd \<circ> snd) (asked_by evs) = [0..<length (resps s)]"
    using assms by (simp_all add: requests_ok_def)
  have "map snd (map snd (asked_by evs)) = [0..<length (resps s)]"
    by (simp only: map_map r)
  then have "distinct (map snd (map snd (asked_by evs)))" by (simp only: distinct_upt)
  then show ?thesis by (simp only: m)
qed

lemma requests_results:
  assumes "requests_ok qview evs s" and "results_ok pview evs s" and "(r, q, x) \<in> set (results_of evs)"
  obtains i where "(i, q, r) \<in> set (asked_by evs)" and "r < length (resps s)"
proof -
  obtain i where i: "(i, q, r) \<in> set (asked_by evs)"
    by (rule requests_taken [OF assms(1) results_okD(2) [OF assms(2,3)]])
  then show thesis using requests_rid_less [OF assms(1) i] by (rule that)
qed

locale client_channels = q: smol_channel q_api qview + p: smol_channel p_api pview
  for q_api :: "('q, protocol_msg \<times> nat) chan_api" and qview
    and p_api :: "('p, (offer_error + u128) \<times> 'r \<times> 'w) chan_api" and pview
begin

lemma client_inv_start: "client_inv qview pview [] (client_start q_api)"
  by (simp add: client_inv_def requests_ok_def results_ok_def waits_ok_def client_start_def
      q.view_unbounded unbounded_def)

lemma inv_accept:
  "client_inv qview pview evs s \<Longrightarrow> client_inv qview pview (evs @ [accept_event kind r]) (socks_accept r s)"
  "client_inv qview pview evs s \<Longrightarrow> client_inv qview pview (evs @ [accept_event kind r]) (http_accept r s)"
  by (cases r; auto simp: client_inv_def requests_ok_def results_ok_def waits_ok_def socks_accept_def
      http_accept_def nth_append less_Suc_eq)+

lemma inv_served:
  "client_inv qview pview evs s \<Longrightarrow>
   client_inv qview pview (evs @ [CServed i]) (s\<lparr>conns := (conns s)[i := Served x]\<rparr>)"
  by (auto simp: client_inv_def requests_ok_def results_ok_def waits_ok_def nth_update split: if_splits)

lemma request_sent:
  assumes "requests_ok qview evs s" and "send_request q_api p_api i a s = Some s'"
  obtains c where "s' = s\<lparr>resps := resps s @ [chan_bounded p_api 1], req_chan := c,
      conns := (conns s)[i := Waiting (length (resps s)) a]\<rparr>"
    and "qview c = fifo_push (qview (req_chan s)) (ask_request a, length (resps s))"
proof -
  have "\<not> hung_up (qview (req_chan s))" and "\<not> fifo_full (qview (req_chan s))"
    using assms(1) by (auto simp: requests_ok_def fifo_full_def)
  with assms(2) q.send_await_Inl [of "req_chan s"] obtain c where
    c: "send_await q_api (req_chan s) (ask_request a, length (resps s)) = Ready (Inr c)"
    and "s' = s\<lparr>resps := resps s @ [chan_bounded p_api 1], req_chan := c,
      conns := (conns s)[i := Waiting (length (resps s)) a]\<rparr>"
    by (auto simp: send_request_def Let_def split: poll.splits sum.splits)
  with q.send_await_Inr(1) [OF c] that show thesis by blast
qed

lemma inv_ask:
  assumes "client_inv qview pview evs s" and "send_request q_api p_api i a s = Some s'"
  shows "client_inv qview pview (evs @ [CAsked i (ask_request a) (length (resps s))]) s'"
proof -
  have req: "requests_ok qview evs s" and res: "results_ok pview evs s" and w: "waits_ok evs s"
    using assms(1) by (auto simp: client_inv_def)
  obtain c where s': "s' = s\<lparr>resps := resps s @ [chan_bounded p_api 1], req_chan := c,
      conns := (conns s)[i := Waiting (length (resps s)) a]\<rparr>"
    and c: "qview c = fifo_push (qview (req_chan s)) (ask_request a, length (resps s))"
    by (rule request_sent [OF req assms(2)])
  have fresh: "(length (resps s), q, x) \<notin> set (results_of evs)" for q x
    using requests_results [OF req res] by blast
  then have new: "map_of (results_of evs) (length (resps s)) = None"
    by (auto simp: map_of_eq_None_iff)
  moreover have "length (resps s) \<notin> fst ` set (answers_to evs)"
    using waits_okD(2) [OF w] fresh by fastforce
  ultimately have "resp_ok (map_of (results_of evs) (length (resps s)))
      (length (resps s) \<in> fst ` set (answers_to evs)) (pview (chan_bounded p_api 1))"
    by (simp add: resp_ok_def p.view_bounded bounded_def)
  with res have "results_ok pview (evs @ [CAsked i (ask_request a) (length (resps s))]) s'"
    by (auto simp: s' results_ok_def nth_append less_Suc_eq)
  moreover have "requests_ok qview (evs @ [CAsked i (ask_request a) (length (resps s))]) s'"
    using req by (simp add: s' c requests_ok_def fifo_push_def)
  moreover have "waits_ok (evs @ [CAsked i (ask_request a) (length (resps s))]) s'"
    using w \<open>length (resps s) \<notin> fst ` set (answers_to evs)\<close>
    by (auto simp: s' waits_ok_def nth_update split: if_splits) blast
  ultimately show ?thesis by (simp add: client_inv_def)
qed

end

context client_channels
begin

lemma requests_go_on:
  assumes "requests_ok qview evs s"
  shows "request_turn q_api s None = None"
proof -
  have "\<nexists>e. recv_await q_api (req_chan s) = Ready (Inl e)"
    using assms q.recv_await_Inl(1) [of "req_chan s"] by (auto simp: requests_ok_def)
  then show ?thesis by (auto simp: request_turn_def split: poll.splits sum.splits)
qed

lemma inv_take:
  assumes "client_inv qview pview evs s" and "request_turn q_api s (Some (q, r)) = Some s'"
  shows "client_inv qview pview (evs @ [CTaken q r]) s'"
proof -
  have req: "requests_ok qview evs s" and res: "results_ok pview evs s" and w: "waits_ok evs s"
    using assms(1) by (auto simp: client_inv_def)
  from assms(2) obtain c where got: "recv_await q_api (req_chan s) = Ready (Inr ((q, r), c))"
    and s': "s' = s\<lparr>req_chan := c, rtasks := rtasks s @ [\<lparr>job = (q, r), finished = False\<rparr>]\<rparr>"
    by (auto simp: request_turn_def split: poll.splits sum.splits if_splits)
  have hd: "queue (qview (req_chan s)) = (q, r) # queue (qview c)"
    and same: "qview c = (qview (req_chan s))\<lparr>queue := queue (qview c)\<rparr>"
    by (rule q.recv_await_Inr [OF got])+
  have kept: "hung_up (qview c) = hung_up (qview (req_chan s))"
    "capacity (qview c) = capacity (qview (req_chan s))"
    by (subst same, simp)+
  have req': "requests_ok qview (evs @ [CTaken q r]) s'"
    using req by (simp add: s' requests_ok_def hd kept)
  have "r \<notin> fst ` set (results_of evs)"
  proof
    assume "r \<in> fst ` set (results_of evs)"
    then obtain q' x where "(r, q', x) \<in> set (results_of evs)" by auto
    then have "(q', r) \<in> set (taken_from evs)" by (rule results_okD(2) [OF res])
    with requests_rids [OF req] hd show False by (force simp: image_iff)
  qed
  with res have "results_ok pview (evs @ [CTaken q r]) s'"
    by (auto simp: s' results_ok_def)
  with req' w show ?thesis by (simp add: client_inv_def s' waits_ok_def)
qed

lemma resp_ok_respond:
  assumes "resp_ok None got (pview c)" and "respond p_api x c = Some c'"
  shows "resp_ok (Some (q, x)) got (pview c')"
proof (cases x)
  case None
  with assms show ?thesis
    by (auto simp: resp_ok_def respond_def p.view_hang_up fifo_hang_up_def)
next
  case (Some y)
  show ?thesis
  proof (cases "send_await p_api c y")
    case (Ready r)
    then show ?thesis
    proof (cases r)
      case (Inl e)
      with assms Ready p.send_await_Inl [of c y] show ?thesis by (auto simp: resp_ok_def)
    next
      case (Inr d)
      with assms Some Ready p.send_await_Inr(1) [of c y d] show ?thesis
        by (auto simp: resp_ok_def respond_def p.view_hang_up fifo_hang_up_def fifo_push_def)
    qed
  qed (use assms Some in \<open>simp add: respond_def\<close>)
qed

lemma unfinished_task:
  assumes req: "requests_ok qview evs s" and res: "results_ok pview evs s"
    and "j < length (rtasks s)" and "\<not> finished (rtasks s ! j)" and job: "job (rtasks s ! j) = (q, r)"
  shows "(q, r) \<in> set (taken_from evs)" and "r < length (resps s)"
    and "r \<notin> fst ` set (results_of evs)"
    and "k < length (rtasks s) \<Longrightarrow> k \<noteq> j \<Longrightarrow> snd (job (rtasks s ! k)) \<noteq> r"
proof -
  have "(q, r) \<in> set (map job (rtasks s))" using assms(3) job by (force simp: in_set_conv_nth)
  then show taken: "(q, r) \<in> set (taken_from evs)" by (simp only: requests_okD(2) [OF req])
  obtain i where "(i, q, r) \<in> set (asked_by evs)" by (rule requests_taken [OF req taken])
  then show "r < length (resps s)" by (rule requests_rid_less [OF req])
  show "r \<notin> fst ` set (results_of evs)"
    using results_okD(1) [OF res, of "rtasks s ! j"] assms(3,4) job by simp
  have "distinct (map snd (map job (rtasks s)))"
    using requests_rids [OF req] by (simp add: requests_okD(2) [OF req])
  from nth_eq_iff_index_eq [OF this, of k j] assms(3) job
  show "k < length (rtasks s) \<Longrightarrow> k \<noteq> j \<Longrightarrow> snd (job (rtasks s ! k)) \<noteq> r" by simp
qed

lemma inv_result:
  assumes "client_inv qview pview evs s" and "j < length (rtasks s)" and "\<not> finished (rtasks s ! j)"
    and job: "job (rtasks s ! j) = (q, r)" and "finish_task p_api j x s = Some s'"
  shows "client_inv qview pview (evs @ [CResult q r x]) s'"
proof -
  have req: "requests_ok qview evs s" and res: "results_ok pview evs s" and w: "waits_ok evs s"
    using assms(1) by (auto simp: client_inv_def)
  from assms(5) job obtain c where c: "respond p_api x (resps s ! r) = Some c"
    and s': "s' = s\<lparr>resps := (resps s)[r := c],
        rtasks := (rtasks s)[j := (rtasks s ! j)\<lparr>finished := True\<rparr>]\<rparr>"
    by (auto simp: finish_task_def Let_def)
  note task = unfinished_task [OF req res assms(2,3) job]
  have none: "map_of (results_of evs) r = None" using task(3) by (simp add: map_of_eq_None_iff)
  have req': "requests_ok qview (evs @ [CResult q r x]) s'"
    using req by (simp add: s' requests_ok_def map_update) (metis list_update_id map_update)
  have "finished t \<longleftrightarrow> snd (job t) \<in> fst ` set (results_of (evs @ [CResult q r x]))"
    if "t \<in> set (rtasks s')" for t
  proof -
    from that obtain k where k: "k < length (rtasks s)" "t = rtasks s' ! k"
      by (auto simp: s' in_set_conv_nth)
    with results_okD(1) [OF res, of "rtasks s ! k"] task(4) [OF k(1)] job show ?thesis
      by (cases "k = j") (auto simp: s')
  qed
  moreover have "resp_ok (map_of (results_of (evs @ [CResult q r x])) k)
      (k \<in> fst ` set (answers_to evs)) (pview (resps s' ! k))" if "k < length (resps s)" for k
  proof (cases "k = r")
    case True
    have "resp_ok None (r \<in> fst ` set (answers_to evs)) (pview (resps s ! r))"
      using results_okD(4) [OF res task(2)] none by simp
    from resp_ok_respond [OF this c] True task(2) none show ?thesis by (simp add: s' map_add_def)
  next
    case False
    with results_okD(4) [OF res that] show ?thesis by (auto simp: s' map_add_def split: option.split)
  qed
  ultimately have "results_ok pview (evs @ [CResult q r x]) s'"
    using res task(1,3) by (auto simp: results_ok_def s')
  moreover have "waits_ok (evs @ [CResult q r x]) s'"
    using w by (simp add: waits_ok_def s') blast
  ultimately show ?thesis using req' by (simp add: client_inv_def)
qed

lemma take_answer_resp:
  assumes ok: "resp_ok res False (pview (resps s ! r))" and "take_answer io p_api i r a s = Some (x, s')"
  obtains c y q where "s' = s\<lparr>resps := (resps s)[r := c], conns := (conns s)[i := Served y]\<rparr>"
    and "res = Some (q, x)" and "resp_ok res True (pview c)"
proof (cases "recv_await p_api (resps s ! r)")
  case (Ready e)
  show thesis
  proof (cases e)
    case (Inl u)
    with Ready assms(2) have "s' = s\<lparr>resps := (resps s)[r := resps s ! r],
        conns := (conns s)[i := Served (proxy_answer io a None)]\<rparr>" and "x = None"
      by (auto simp: take_answer_def)
    moreover obtain q where "res = Some (q, None)" and "resp_ok res True (pview (resps s ! r))"
      by (rule resp_ok_hung [OF ok p.recv_await_Inl [OF Ready [unfolded Inl]]])
    ultimately show thesis by (intro that) auto
  next
    case (Inr z)
    obtain v d where z: "z = (v, d)" by fastforce
    with Inr Ready assms(2) have "s' = s\<lparr>resps := (resps s)[r := d],
        conns := (conns s)[i := Served (proxy_answer io a (Some v))]\<rparr>" and "x = Some v"
      by (auto simp: take_answer_def)
    moreover obtain q where "res = Some (q, Some v)" and "resp_ok res True (pview d)"
      by (rule resp_ok_got [OF ok p.recv_await_Inr [OF Ready [unfolded Inr z]]])
    ultimately show thesis by (intro that) auto
  qed
qed (use assms(2) in \<open>simp add: take_answer_def\<close>)

lemma inv_answer:
  assumes "client_inv qview pview evs s" and "i < length (conns s)" and "conns s ! i = Waiting r a"
    and "take_answer io p_api i r a s = Some (x, s')"
  shows "client_inv qview pview (evs @ [CAnswered i r x]) s'"
proof -
  have req: "requests_ok qview evs s" and res: "results_ok pview evs s" and w: "waits_ok evs s"
    using assms(1) by (auto simp: client_inv_def)
  have ask: "(i, ask_request a, r) \<in> set (asked_by evs)" and first: "r \<notin> fst ` set (answers_to evs)"
    using w assms(2,3) by (auto simp: waits_ok_def)
  have r: "r < length (resps s)" by (rule requests_rid_less [OF req ask])
  have ok: "resp_ok (map_of (results_of evs) r) False (pview (resps s ! r))"
    using results_okD(4) [OF res r] first by simp
  obtain c y q where s': "s' = s\<lparr>resps := (resps s)[r := c], conns := (conns s)[i := Served y]\<rparr>"
    and x: "map_of (results_of evs) r = Some (q, x)"
    and c: "resp_ok (map_of (results_of evs) r) True (pview c)"
    by (rule take_answer_resp [OF ok assms(4)])
  have req': "requests_ok qview (evs @ [CAnswered i r x]) s'"
    using req by (simp add: s' requests_ok_def)
  have "results_ok pview (evs @ [CAnswered i r x]) s'"
    using res c r by (auto simp: results_ok_def s' nth_update)
  moreover have "r' \<noteq> r" if "conns s' ! k = Waiting r' b" "k < length (conns s)" for k r' b
  proof
    assume "r' = r"
    with that have "k \<noteq> i" and "conns s ! k = Waiting r b"
      by (auto simp: s' nth_update split: if_splits)
    with w that(2) have "(k, ask_request b, r) \<in> set (asked_by evs)" by (simp add: waits_ok_def)
    with requests_asked_unique [OF req ask] \<open>k \<noteq> i\<close> show False by blast
  qed
  with w first x ask have "waits_ok (evs @ [CAnswered i r x]) s'"
    by (auto simp: waits_ok_def s' nth_update dest: map_of_SomeD split: if_splits)
  ultimately show ?thesis using req' by (simp add: client_inv_def)
qed

lemma inv_client_step:
  assumes "client_inv qview pview evs s" and "client_step io q_api p_api s e s'"
  shows "client_inv qview pview (evs @ [e]) s'"
  using assms(2)
proof cases
  case c_requests_end
  with requests_go_on [of evs s] assms(1) show ?thesis by (simp add: client_inv_def)
next
  case (c_socks_accept r)
  with inv_accept(1) [OF assms(1)] show ?thesis by simp
next
  case (c_http_accept r)
  with inv_accept(2) [OF assms(1)] show ?thesis by simp
next
  case (c_ask i kind k decoded a)
  with inv_ask [OF assms(1)] show ?thesis by simp
next
  case (c_served i kind k decoded r)
  with inv_served [OF assms(1)] show ?thesis by simp
next
  case (c_take req rid)
  with inv_take [OF assms(1)] show ?thesis by simp
next
  case (c_result j req rid res pad opened)
  with inv_result [OF assms(1)] show ?thesis by simp
next
  case (c_answer i rid a res)
  with inv_answer [OF assms(1)] show ?thesis by simp
qed

end

sublocale client_channels \<subseteq> client: history_invariant "client_step io q_api p_api"
  "\<lambda>s. s = client_start q_api" "client_inv qview pview"
  for io :: "('k, 'r, 'w) client_io"
  by unfold_locales (use client_inv_start inv_client_step in \<open>blast+\<close>)

text \<open>An accept loop that has ended: nothing follows its one error.\<close>

definition proxy_up :: "proxy_kind \<Rightarrow> ('q, 'p, 'k, 'r, 'w) client_sys \<Rightarrow> bool" where
  "proxy_up kind s = (case kind of SocksProxy \<Rightarrow> socks_up s | HttpProxy \<Rightarrow> http_up s)"

definition accepts_ok :: "proxy_kind \<Rightarrow> ('r, 'w) client_event list \<Rightarrow> ('q, 'p, 'k, 'r, 'w) client_sys \<Rightarrow> bool" where
  "accepts_ok kind evs s \<longleftrightarrow>
     (proxy_up kind s \<longleftrightarrow> CAcceptFailed kind \<notin> set evs) \<and>
     (\<forall>before later. evs = before @ CAcceptFailed kind # later \<longrightarrow>
        CAccepted kind \<notin> set later \<and> CAcceptFailed kind \<notin> set later)"

lemma proxy_up_step:
  assumes "client_step io q_api p_api s e s'"
  shows "proxy_up kind s' = (proxy_up kind s \<and> e \<noteq> CAcceptFailed kind)"
    and "e = CAccepted kind \<or> e = CAcceptFailed kind \<Longrightarrow> proxy_up kind s"
  using assms
  by (cases; cases kind; auto simp: proxy_up_def socks_accept_def http_accept_def send_request_def Let_def
      request_turn_def finish_task_def take_answer_def elim: accept_event.elims
      split: sum.splits poll.splits if_splits)+

lemma accepts_ok_step:
  assumes "accepts_ok kind evs s" and "client_step io q_api p_api s e s'"
  shows "accepts_ok kind (evs @ [e]) s'"
proof -
  have "CAccepted kind \<notin> set later \<and> CAcceptFailed kind \<notin> set later"
    if "evs @ [e] = before @ CAcceptFailed kind # later" for before later
  proof (cases later rule: rev_cases)
    case (snoc later' e')
    with that have evs: "evs = before @ CAcceptFailed kind # later'" and "e' = e" by simp_all
    with assms(1) have "\<not> proxy_up kind s" by (simp add: accepts_ok_def)
    with proxy_up_step(2) [OF assms(2)] have "e \<noteq> CAccepted kind \<and> e \<noteq> CAcceptFailed kind" by blast
    moreover have "CAccepted kind \<notin> set later' \<and> CAcceptFailed kind \<notin> set later'"
      using assms(1) evs by (simp add: accepts_ok_def)
    ultimately show ?thesis using snoc \<open>e' = e\<close> by auto
  qed simp
  with assms(1) proxy_up_step(1) [OF assms(2), of kind] show ?thesis
    by (auto simp: accepts_ok_def)
qed

interpretation accepts: history_invariant "client_step io q_api p_api" "\<lambda>s. s = client_start q_api"
  "accepts_ok kind"
  for io :: "('k, 'r, 'w) client_io" and q_api :: "('q, protocol_msg \<times> nat) chan_api"
    and p_api :: "('p, (offer_error + u128) \<times> 'r \<times> 'w) chan_api" and kind
  by unfold_locales
    (simp add: accepts_ok_def proxy_up_def client_start_def split: proxy_kind.splits, rule accepts_ok_step)

context client_channels
begin

lemma run_client: "run (client_step io q_api p_api) (client_start q_api) evs s \<Longrightarrow> client_inv qview pview evs s"
  by (rule client.inv_run) auto

lemma answered_own:
  assumes "client_inv qview pview evs s" and "CAnswered i r x \<in> set evs"
  shows "\<exists>q. CAsked i q r \<in> set evs \<and> CResult q r x \<in> set evs"
proof -
  have req: "requests_ok qview evs s" and res: "results_ok pview evs s" and w: "waits_ok evs s"
    using assms(1) by (auto simp: client_inv_def)
  from waits_okD(3) [OF w assms(2)] obtain q where q: "(i, q, r) \<in> set (asked_by evs)"
    and "(r, x) \<in> set (answers_to evs)" by blast
  from waits_okD(2) [OF w this(2)] obtain q' where q': "(r, q', x) \<in> set (results_of evs)" by blast
  obtain i' where "(i', q', r) \<in> set (asked_by evs)" by (rule requests_results [OF req res q'])
  with requests_asked_unique [OF req q] have "q' = q" by blast
  with q q' show ?thesis by (auto simp: asked_by_event results_of_event)
qed

lemma respond_ready:
  assumes "resp_ok None got (pview c)"
  obtains c' where "respond p_api x c = Some c'"
proof (cases x)
  case (Some y)
  have "\<not> hung_up (pview c) \<and> \<not> fifo_full (pview c)" using assms by (simp add: resp_ok_def fifo_full_def)
  with p.view_send_await [of c y] obtain c' where "send_await p_api c y = Ready (Inr c')"
    by (cases "send_await p_api c y") (auto simp: fifo_send_await_def fifo_try_send_def map_sum_def split: sum.splits)
  with Some that show thesis by (simp add: respond_def)
qed (use that in \<open>simp add: respond_def\<close>)

lemma task_can_end:
  assumes "client_inv qview pview evs s" and "j < length (rtasks s)" and "\<not> finished (rtasks s ! j)"
    and "job (rtasks s ! j) = (q, r)"
  shows "\<exists>s'. client_step io q_api p_api s
     (CResult q r (response (request_task (req_codec io) (req_write io) (req_read io) pad opened q))) s'"
proof -
  have req: "requests_ok qview evs s" and res: "results_ok pview evs s"
    using assms(1) by (auto simp: client_inv_def)
  note task = unfinished_task [OF req res assms(2-4)]
  have "map_of (results_of evs) r = None" using task(3) by (simp add: map_of_eq_None_iff)
  with results_okD(4) [OF res task(2)] obtain c where
    "respond p_api (response (request_task (req_codec io) (req_write io) (req_read io) pad opened q)) (resps s ! r) = Some c"
    using respond_ready by (metis (full_types))
  then have "\<exists>s'. finish_task p_api j (response (request_task (req_codec io) (req_write io) (req_read io) pad opened q)) s = Some s'"
    using assms(4) by (simp add: finish_task_def Let_def)
  then show ?thesis using c_result [OF assms(2,3,4) refl] by blast
qed

lemma answer_ready:
  assumes "client_inv qview pview evs s" and "i < length (conns s)" and "conns s ! i = Waiting r a"
    and "(r, q, x) \<in> set (results_of evs)"
  shows "\<exists>s'. client_step io q_api p_api s (CAnswered i r x) s'"
proof -
  have req: "requests_ok qview evs s" and res: "results_ok pview evs s" and w: "waits_ok evs s"
    using assms(1) by (auto simp: client_inv_def)
  have r: "r < length (resps s)" by (rule requests_results [OF req res assms(4)])
  have "map_of (results_of evs) r = Some (q, x)"
    using map_of_is_SomeI [OF results_okD(3) [OF res] assms(4)] .
  with results_okD(4) [OF res r] waits_okD(1) [OF w assms(2,3)]
  have f: "queue (pview (resps s ! r)) = (case x of None \<Rightarrow> [] | Some y \<Rightarrow> [y])" "hung_up (pview (resps s ! r))"
    by (auto simp: resp_ok_def split: option.splits)
  have "\<exists>s'. take_answer io p_api i r a s = Some (x, s')"
  proof (cases x)
    case None
    with p.recv_await_Nil [of "resps s ! r"] f show ?thesis by (simp add: take_answer_def)
  next
    case (Some y)
    with f obtain c where "recv_await p_api (resps s ! r) = Ready (Inr (y, c))"
      using p.recv_await_Cons [of "resps s ! r" y "[]"] by auto
    with Some show ?thesis by (simp add: take_answer_def)
  qed
  then show ?thesis using c_answer [OF assms(2,3)] by blast
qed

lemma head_can_be_taken:
  assumes "client_inv qview pview evs s" and "queue (qview (req_chan s)) = (q, r) # qs"
  shows "\<exists>s'. client_step io q_api p_api s (CTaken q r) s'"
proof -
  obtain c where "recv_await q_api (req_chan s) = Ready (Inr ((q, r), c))"
    by (rule q.recv_await_Cons [OF assms(2)])
  then have "\<exists>s'. request_turn q_api s (Some (q, r)) = Some s'" by (simp add: request_turn_def)
  with assms(1) show ?thesis by (auto simp: client_inv_def requests_ok_def intro: c_take)
qed

lemma waiting_cases:
  assumes "client_inv qview pview evs s" and "i < length (conns s)" and "conns s ! i = Waiting r a"
  shows "(ask_request a, r) \<in> set (queue (qview (req_chan s))) \<or>
     (\<exists>j < length (rtasks s). job (rtasks s ! j) = (ask_request a, r) \<and> \<not> finished (rtasks s ! j)) \<or>
     (\<exists>x. (r, ask_request a, x) \<in> set (results_of evs))"
proof -
  have req: "requests_ok qview evs s" and res: "results_ok pview evs s" and w: "waits_ok evs s"
    using assms(1) by (auto simp: client_inv_def)
  have ask: "(i, ask_request a, r) \<in> set (asked_by evs)" using waits_okD(1) [OF w assms(2,3)] by blast
  then have "(ask_request a, r) \<in> set (map snd (asked_by evs))" by force
  then have "(ask_request a, r) \<in> set (map job (rtasks s)) \<or>
      (ask_request a, r) \<in> set (queue (qview (req_chan s)))"
    by (simp only: requests_okD [OF req] set_append Un_iff)
  moreover have "\<exists>x. (r, ask_request a, x) \<in> set (results_of evs)"
    if j: "j < length (rtasks s)" "job (rtasks s ! j) = (ask_request a, r)" "finished (rtasks s ! j)" for j
  proof -
    obtain q x where x: "(r, q, x) \<in> set (results_of evs)"
      using results_okD(1) [OF res, of "rtasks s ! j"] j by auto
    obtain i' where "(i', q, r) \<in> set (asked_by evs)" by (rule requests_results [OF req res x])
    with requests_asked_unique [OF req ask] x show ?thesis by blast
  qed
  ultimately show ?thesis by (auto simp: in_set_conv_nth) (metis)
qed

end

section \<open>What the client guarantees\<close>

text \<open>A client on queues with one SOCKS connection, whose request is answered by \<open>x\<close>.\<close>

interpretation fifo_client: client_channels fifo_api id fifo_api id
  by unfold_locales

definition demo_io :: "(socks_v5_status list, bytes, bytes) client_io" where
  "demo_io =
     \<lparr>socks_ops = demo_socks, http_write = (\<lambda>k b. Inr k), http_close = Inr,
      req_codec = bincode_ref, req_write = list_write_all, req_read = list_read_exact\<rparr>"

definition demo_ask :: "socks_v5_status list ask" where
  "demo_ask = SocksAsk SocksV5 (ipv4_to_string [1, 2, 3, 4]) 80 []"

type_synonym demo_client =
  "((protocol_msg \<times> nat) fifo, ((offer_error + u128) \<times> bytes \<times> bytes) fifo,
    socks_v5_status list, bytes, bytes) client_sys"

definition demo_client ::
  "(protocol_msg \<times> nat) list \<Rightarrow> ((offer_error + u128) \<times> bytes \<times> bytes) fifo list \<Rightarrow>
   (socks_v5_status list, bytes, bytes) conn_pc list \<Rightarrow> rtask list \<Rightarrow> demo_client" where
  "demo_client qs ps ks ts =
     \<lparr>socks_up = True, http_up = True, request_up = True, req_chan = unbounded\<lparr>queue := qs\<rparr>,
      resps = ps, conns = ks, rtasks = ts\<rparr>"

lemmas demo_client_defs = demo_client_def fifo_api_def fifo_defs bounded_def unbounded_def

lemma demo_client_start: "client_start fifo_api = demo_client [] [] [] []"
  by (simp add: client_start_def demo_client_defs)

definition demo_result ::
  "unit + bytes \<times> bytes \<Rightarrow> ((offer_error + u128) \<times> bytes \<times> bytes) option" where
  "demo_result opened =
     response (request_task bincode_ref list_write_all list_read_exact 1 opened (ask_request demo_ask))"

lemma demo_accept:
  "client_step demo_io fifo_api fifo_api (demo_client [] [] [] []) (CAccepted SocksProxy)
     (demo_client [] [] [Accepted SocksProxy []] [])"
  using c_socks_accept [of "demo_client [] [] [] []" demo_io fifo_api fifo_api "Inr []"]
  by (simp add: demo_client_def socks_accept_def)

lemma demo_asks:
  "client_step demo_io fifo_api fifo_api (demo_client [] [] [Accepted SocksProxy []] [])
     (CAsked 0 (ask_request demo_ask) 0)
     (demo_client [(ask_request demo_ask, 0)] [bounded 1] [Waiting 0 demo_ask] [])"
  using c_ask [of 0 "demo_client [] [] [Accepted SocksProxy []] []" SocksProxy "[]" demo_io "Inr None" demo_ask
      fifo_api fifo_api "demo_client [(ask_request demo_ask, 0)] [bounded 1] [Waiting 0 demo_ask] []"]
  by (simp add: demo_client_defs handler_ask_def socks_ask_def socks_request_def socks_step_def
      demo_io_def demo_socks_def demo_ask_def send_request_def Let_def)

lemma demo_takes:
  "client_step demo_io fifo_api fifo_api (demo_client [(q, 0)] ps ks []) (CTaken q 0)
     (demo_client [] ps ks [\<lparr>job = (q, 0), finished = False\<rparr>])"
  by (rule c_take) (simp_all add: demo_client_defs request_turn_def)

lemma demo_respond:
  "respond fifo_api x (bounded 1) = Some ((bounded 1)\<lparr>queue := case_option [] (\<lambda>y. [y]) x, hung_up := True\<rparr>)"
  by (cases x) (simp_all add: respond_def demo_client_defs)

lemma demo_results:
  "client_step demo_io fifo_api fifo_api
     (demo_client [] [bounded 1] ks [\<lparr>job = (ask_request demo_ask, 0), finished = False\<rparr>])
     (CResult (ask_request demo_ask) 0 (demo_result opened))
     (demo_client [] [(bounded 1)\<lparr>queue := case_option [] (\<lambda>y. [y]) (demo_result opened), hung_up := True\<rparr>]
        ks [\<lparr>job = (ask_request demo_ask, 0), finished = True\<rparr>])"
  by (rule c_result [where j = 0 and pad = 1 and opened = opened])
    (simp_all add: demo_client_def finish_task_def demo_respond demo_result_def demo_io_def
      del: One_nat_def)

lemma demo_client_run:
  "run (client_step demo_io fifo_api fifo_api) (client_start fifo_api)
     [CAccepted SocksProxy, CAsked 0 (ask_request demo_ask) 0, CTaken (ask_request demo_ask) 0,
      CResult (ask_request demo_ask) 0 (demo_result opened)]
     (demo_client [] [(bounded 1)\<lparr>queue := case_option [] (\<lambda>y. [y]) (demo_result opened), hung_up := True\<rparr>]
        [Waiting 0 demo_ask] [\<lparr>job = (ask_request demo_ask, 0), finished = True\<rparr>])"
  unfolding demo_client_start
  by (rule run_cons, rule demo_accept, rule run_cons, rule demo_asks, rule run_cons, rule demo_takes,
      rule run_cons, rule demo_results, rule run_start)

text \<open>
  Property C17. Every handler gets the answer to its own request, and at most one. In every
  interleaving of the accept loops, handlers, request loop and tasks, the requests that were
  sent are, in order, those that were taken and those still queued; each answer that a
  handler gets is the result of a task that ran the request the same handler sent.
\<close>

theorem answers_belong_to_requests:
  assumes "client_channels q_api qview p_api pview"
    and "run (client_step io q_api p_api) (client_start q_api) evs s"
  shows "map snd (asked_by evs) = taken_from evs @ queue (qview (req_chan s)) \<and>
     distinct (map fst (answers_to evs)) \<and>
     (\<forall>i r x. CAnswered i r x \<in> set evs \<longrightarrow>
        (\<exists>q. CAsked i q r \<in> set evs \<and> CResult q r x \<in> set evs))"
proof -
  have inv: "client_inv qview pview evs s" by (rule client_channels.run_client [OF assms])
  then have "requests_ok qview evs s" and "waits_ok evs s" by (auto simp: client_inv_def)
  with client_channels.answered_own [OF assms(1) inv] show ?thesis
    using requests_okD(1) waits_okD(4) by blast
qed

text \<open>
  Property C18. No handler that waits for its answer is stuck: its request is queued and the
  request loop can take the head of the queue; or a task runs it, which can hand over
  whatever result it comes to; or the task has ended and the handler can take the answer.
\<close>

theorem waiting_handler_not_stuck:
  assumes "client_channels q_api qview p_api pview"
    and "run (client_step io q_api p_api) (client_start q_api) evs s"
    and "i < length (conns s)" and "conns s ! i = Waiting r a"
  shows "((ask_request a, r) \<in> set (queue (qview (req_chan s))) \<and>
       (\<exists>q' r' s'. client_step io q_api p_api s (CTaken q' r') s')) \<or>
     (\<forall>opened pad. \<exists>s'. client_step io q_api p_api s (CResult (ask_request a) r
         (response (request_task (req_codec io) (req_write io) (req_read io) pad opened (ask_request a)))) s') \<or>
     (\<exists>x s'. CResult (ask_request a) r x \<in> set evs \<and> client_step io q_api p_api s (CAnswered i r x) s')"
proof -
  have inv: "client_inv qview pview evs s" by (rule client_channels.run_client [OF assms(1,2)])
  from client_channels.waiting_cases [OF assms(1) inv assms(3,4)] show ?thesis
  proof (elim disjE exE conjE)
    assume q: "(ask_request a, r) \<in> set (queue (qview (req_chan s)))"
    then obtain q' r' qs where "queue (qview (req_chan s)) = (q', r') # qs"
      by (metis list.set_cases surj_pair)
    from client_channels.head_can_be_taken [OF assms(1) inv this] q show ?thesis by blast
  next
    fix j
    assume "j < length (rtasks s)" "job (rtasks s ! j) = (ask_request a, r)" "\<not> finished (rtasks s ! j)"
    with client_channels.task_can_end [OF assms(1) inv] show ?thesis by blast
  next
    fix x
    assume x: "(r, ask_request a, x) \<in> set (results_of evs)"
    from client_channels.answer_ready [OF assms(1) inv assms(3,4) x] x show ?thesis
      by (auto simp: results_of_event)
  qed
qed

theorem waiting_handler_not_stuck_witness:
  "\<exists>s'. client_step demo_io fifo_api fifo_api
     (demo_client [] [(bounded 1)\<lparr>hung_up := True\<rparr>] [Waiting 0 demo_ask]
        [\<lparr>job = (ask_request demo_ask, 0), finished = True\<rparr>]) (CAnswered 0 0 None) s'"
proof -
  have none: "demo_result (Inl ()) = None" by (simp add: demo_result_def request_task_def response_def)
  let ?s = "demo_client [] [(bounded 1)\<lparr>hung_up := True\<rparr>] [Waiting 0 demo_ask]
        [\<lparr>job = (ask_request demo_ask, 0), finished = True\<rparr>]"
  have ended: "\<not> client_step demo_io fifo_api fifo_api ?s (CResult q r x) s'" for q r x s'
    by (rule notI, erule client_resultE) (auto simp: demo_client_def)
  have s: "demo_client [] [(bounded 1)\<lparr>queue := [], hung_up := True\<rparr>] ks ts =
      demo_client [] [(bounded 1)\<lparr>hung_up := True\<rparr>] ks ts" for ks ts
    by (simp add: bounded_def)
  have facts: "conns ?s = [Waiting 0 demo_ask]" "queue (req_chan ?s) = []"
    by (simp_all add: demo_client_def unbounded_def)
  from waiting_handler_not_stuck [OF fifo_client.client_channels_axioms
      demo_client_run [of "Inl ()", unfolded none option.case s], of 0 0 demo_ask] ended
  show ?thesis by (auto simp: facts simp del: One_nat_def)
qed

text \<open>
  Property C37. One failed \<open>accept\<close> silently ends a local proxy: after it, that proxy never
  accepts a connection again, whatever else happens, while the rest of the client runs on:
  the request loop does not end, and the other proxy still accepts unless its own accept
  failed.
\<close>

theorem failed_accept_ends_proxy:
  assumes "client_channels q_api qview p_api pview"
    and "run (client_step io q_api p_api) (client_start q_api) (before @ CAcceptFailed kind # later) s"
  shows "CAccepted kind \<notin> set later \<and> request_up s \<and>
     (\<forall>other. CAcceptFailed other \<notin> set (before @ CAcceptFailed kind # later) \<longrightarrow>
        (\<forall>k. \<exists>s'. client_step io q_api p_api s (CAccepted other) s' \<and>
           conns s' = conns s @ [Accepted other k]))"
proof -
  let ?evs = "before @ CAcceptFailed kind # later"
  have "accepts_ok kind' ?evs s" for kind' by (rule accepts.inv_run [OF assms(2) refl])
  then have first: "CAccepted kind \<notin> set later"
    and up: "CAcceptFailed other \<notin> set ?evs \<Longrightarrow> proxy_up other s" for other
    by (auto simp: accepts_ok_def)
  have "\<exists>s'. client_step io q_api p_api s (CAccepted other) s' \<and> conns s' = conns s @ [Accepted other k]"
    if "CAcceptFailed other \<notin> set ?evs" for other k
    using up [OF that] c_socks_accept [of s io q_api p_api "Inr k"] c_http_accept [of s io q_api p_api "Inr k"]
    by (cases other) (force simp: proxy_up_def socks_accept_def http_accept_def)+
  moreover have "request_up s"
    using client_channels.run_client [OF assms] by (simp add: client_inv_def requests_ok_def)
  ultimately show ?thesis using first by blast
qed


theorem answers_belong_to_requests_witness:
  "\<exists>evs s x. run (client_step demo_io fifo_api fifo_api) (client_start fifo_api) evs s \<and>
     CAnswered 0 0 (Some x) \<in> set evs \<and> fst x = Inr 9 \<and> CResult (ask_request demo_ask) 0 (Some x) \<in> set evs"
proof -
  obtain a where a: "put_frame bincode_ref (frame_from 1 (TcpOffer (Inr 9))) = Some a"
    using list_frames.put_frame_fits by (force simp: frame_from_def frame_size_def)
  have "length (ipv4_to_string [1, 2, 3, 4]) = 7" by code_simp
  then obtain b where b: "put_frame bincode_ref (frame_from 1 (ask_request demo_ask)) = Some b"
    using list_frames.put_frame_fits by (force simp: frame_from_def frame_size_def demo_ask_def)
  have "get_frame bincode_ref (id a) = Some (frame_from 1 (TcpOffer (Inr 9)), [])"
    using bincode_ref.get_put_frame [OF a, of "[]"] by simp
  from list_frames.recv_get [OF this] list_frames.send_put [OF b, of "[]"]
  have x: "demo_result (Inr (a, [])) = Some (Inr 9, [], b)"
    by (simp add: demo_result_def response_def request_task_def list_write_all_def frame_from_def)
  let ?evs = "[CAccepted SocksProxy, CAsked 0 (ask_request demo_ask) 0, CTaken (ask_request demo_ask) 0,
      CResult (ask_request demo_ask) 0 (Some (Inr 9, [], b))]"
  note r = demo_client_run [of "Inr (a, [])", unfolded x option.case]
  obtain s' where "client_step demo_io fifo_api fifo_api
     (demo_client [] [(bounded 1)\<lparr>queue := [(Inr 9, [], b)], hung_up := True\<rparr>] [Waiting 0 demo_ask]
        [\<lparr>job = (ask_request demo_ask, 0), finished = True\<rparr>]) (CAnswered 0 0 (Some (Inr 9, [], b))) s'"
    using fifo_client.answer_ready [OF fifo_client.run_client [OF r], of 0 0 demo_ask]
    by (auto simp: demo_client_def results_of_def)
  with r have all: "run (client_step demo_io fifo_api fifo_api) (client_start fifo_api)
      (?evs @ [CAnswered 0 0 (Some (Inr 9, [], b))]) s'"
    by (rule run_step)
  from answers_belong_to_requests [OF fifo_client.client_channels_axioms all]
  have "CResult (ask_request demo_ask) 0 (Some (Inr 9, [], b)) \<in> set (?evs @ [CAnswered 0 0 (Some (Inr 9, [], b))])"
    by auto
  with all show ?thesis by fastforce
qed

theorem failed_accept_ends_proxy_witness:
  "\<exists>s s'. run (client_step demo_io fifo_api fifo_api) (client_start fifo_api) [CAcceptFailed SocksProxy] s \<and>
     \<not> socks_up s \<and> client_step demo_io fifo_api fifo_api s (CAccepted HttpProxy) s' \<and>
     conns s' = [Accepted HttpProxy ([] :: socks_v5_status list)]"
proof -
  have "client_step demo_io fifo_api fifo_api (client_start fifo_api :: demo_client)
      (CAcceptFailed SocksProxy) (socks_accept (Inl ConnectionAborted) (client_start fifo_api))"
    using c_socks_accept [of "client_start fifo_api :: demo_client" demo_io fifo_api fifo_api "Inl ConnectionAborted"]
    by (simp add: client_start_def)
  then have r: "run (client_step demo_io fifo_api fifo_api) (client_start fifo_api) ([] @ CAcceptFailed SocksProxy # [])
      (socks_accept (Inl ConnectionAborted) (client_start fifo_api) :: demo_client)"
    using run_cons [OF _ run_start] by force
  from failed_accept_ends_proxy [OF fifo_client.client_channels_axioms r] r show ?thesis
    by (fastforce simp: socks_accept_def client_start_def)
qed

end
