(* ===== verification/Base64.thy ===== *)
theory Base64
  imports Prelude
begin

text \<open>
  The contract of the base64 engine that the program uses (\<open>BASE64_STANDARD\<close> of the crate
  \<open>base64\<close>), as the locale \<open>base64_codec\<close>: what it encodes it decodes, and it decodes
  visible ASCII only. The engine is an argument of the definitions that use it. The
  encoding of RFC 4648, written out below, satisfies the contract.
\<close>

text \<open>What \<open>HeaderValue::to_str\<close> accepts: visible ASCII, the space and the tab.\<close>

definition visible_ascii :: "char \<Rightarrow> bool" where
  "visible_ascii c = ((32 \<le> (of_char c :: nat) \<and> (of_char c :: nat) < 127) \<or> (of_char c :: nat) = 9)"

locale base64_codec =
  fixes enc :: "bytes \<Rightarrow> string" and dec :: "string \<Rightarrow> bytes option"
  assumes dec_enc: "dec (enc b) = Some b"
    and dec_visible: "dec s = Some b \<Longrightarrow> list_all visible_ascii s"
begin

lemma enc_inj: "enc a = enc b \<longleftrightarrow> a = b"
  by (metis dec_enc option.inject)

lemma enc_visible: "list_all visible_ascii (enc b)"
  by (rule dec_visible [OF dec_enc])

end


section \<open>RFC 4648\<close>

definition b64_char :: "nat \<Rightarrow> char" where
  "b64_char n =
     (if n < 26 then char_of (n + 65) else if n < 52 then char_of (n + 71)
      else if n < 62 then char_of (n - 4) else if n = 62 then CHR ''+'' else CHR ''/'')"

definition b64_value :: "char \<Rightarrow> nat option" where
  "b64_value c =
     (let n = of_char c :: nat in
      if 65 \<le> n \<and> n \<le> 90 then Some (n - 65) else if 97 \<le> n \<and> n \<le> 122 then Some (n - 71)
      else if 48 \<le> n \<and> n \<le> 57 then Some (n + 4) else if c = CHR ''+'' then Some 62
      else if c = CHR ''/'' then Some 63 else None)"

definition sextets :: "nat \<Rightarrow> nat \<Rightarrow> nat \<Rightarrow> nat list" where
  "sextets x y z = [x div 4, x mod 4 * 16 + y div 16, y mod 16 * 4 + z div 64, z mod 64]"

fun b64_encode :: "bytes \<Rightarrow> string" where
  "b64_encode [] = []"
| "b64_encode [a] = map b64_char (take 2 (sextets (unat a) 0 0)) @ ''==''"
| "b64_encode [a, b] = map b64_char (take 3 (sextets (unat a) (unat b) 0)) @ ''=''"
| "b64_encode (a # b # c # bs) =
     map b64_char (sextets (unat a) (unat b) (unat c)) @ b64_encode bs"

definition byte1 :: "nat \<Rightarrow> nat \<Rightarrow> byte" where "byte1 p q = of_nat (p * 4 + q div 16)"
definition byte2 :: "nat \<Rightarrow> nat \<Rightarrow> byte" where "byte2 q r = of_nat (q mod 16 * 16 + r div 4)"
definition byte3 :: "nat \<Rightarrow> nat \<Rightarrow> byte" where "byte3 r t = of_nat (r mod 4 * 64 + t)"

fun b64_decode :: "string \<Rightarrow> bytes option" where
  "b64_decode [] = Some []"
| "b64_decode (c1 # c2 # c3 # c4 # cs) =
     (case (b64_value c1, b64_value c2, b64_value c3, b64_value c4) of
        (Some p, Some q, Some r, Some t) \<Rightarrow>
          map_option (\<lambda>bs. byte1 p q # byte2 q r # byte3 r t # bs) (b64_decode cs)
      | (Some p, Some q, Some r, None) \<Rightarrow>
          (if c4 = CHR ''='' \<and> cs = [] \<and> r mod 4 = 0 then Some [byte1 p q, byte2 q r] else None)
      | (Some p, Some q, None, None) \<Rightarrow>
          (if c3 = CHR ''='' \<and> c4 = CHR ''='' \<and> cs = [] \<and> q mod 16 = 0 then Some [byte1 p q]
           else None)
      | _ \<Rightarrow> None)"
| "b64_decode _ = None"

lemma b64_value_char [simp]: "n < 64 \<Longrightarrow> b64_value (b64_char n) = Some n"
  by (auto simp: b64_char_def b64_value_def Let_def)

lemma b64_value_pad [simp]: "b64_value (CHR ''='') = None"
  by (simp add: b64_value_def)

lemma b64_value_visible: "b64_value c = Some n \<Longrightarrow> visible_ascii c"
  by (auto simp: b64_value_def visible_ascii_def Let_def split: if_splits)

lemma visible_pad: "visible_ascii (CHR ''='')"
  by (simp add: visible_ascii_def)

lemma unat_byte_less: "unat (b :: byte) < 256"
proof -
  have "unat b < 2 ^ LENGTH(8)" by (rule unsigned_less)
  then show ?thesis by simp
qed

lemma sextets_bytes:
  fixes a b c :: byte
  shows "byte1 (unat a div 4) (unat a mod 4 * 16 + unat b div 16) = a"
    and "byte2 (unat a mod 4 * 16 + unat b div 16) (unat b mod 16 * 4 + unat c div 64) = b"
    and "byte3 (unat b mod 16 * 4 + unat c div 64) (unat c mod 64) = c"
proof -
  have "unat b div 16 < 16" and "unat c div 64 < 4"
    using unat_byte_less[of b] unat_byte_less[of c] by (auto simp: less_mult_imp_div_less)
  then have "unat a div 4 * 4 + (unat a mod 4 * 16 + unat b div 16) div 16 = unat a"
    and "(unat a mod 4 * 16 + unat b div 16) mod 16 * 16 + (unat b mod 16 * 4 + unat c div 64) div 4
      = unat b"
    and "(unat b mod 16 * 4 + unat c div 64) mod 4 * 64 + unat c mod 64 = unat c"
    by simp_all
  then show "byte1 (unat a div 4) (unat a mod 4 * 16 + unat b div 16) = a"
    and "byte2 (unat a mod 4 * 16 + unat b div 16) (unat b mod 16 * 4 + unat c div 64) = b"
    and "byte3 (unat b mod 16 * 4 + unat c div 64) (unat c mod 64) = c"
    by (simp_all add: byte1_def byte2_def byte3_def)
qed

lemma sextets_small:
  fixes a b c :: byte
  shows "unat a div 4 < 64" and "unat a mod 4 * 16 + unat b div 16 < 64"
    and "unat b mod 16 * 4 + unat c div 64 < 64"
  using unat_byte_less[of a] unat_byte_less[of b] unat_byte_less[of c]
  by (auto simp: less_mult_imp_div_less)

lemma b64_decode_encode: "b64_decode (b64_encode bs) = Some bs"
proof (induction bs rule: b64_encode.induct)
  case (2 a)
  then show ?case
    using sextets_small(1)[of a] sextets_small(2)[of a 0] sextets_bytes(1)[of a 0]
    by (simp add: sextets_def)
next
  case (3 a b)
  then show ?case
    using sextets_small(1)[of a] sextets_small(2)[of a b] sextets_small(3)[of b 0]
      sextets_bytes(1)[of a b] sextets_bytes(2)[of a b 0]
    by (simp add: sextets_def)
next
  case (4 a b c bs)
  then show ?case
    using sextets_small(1)[of a] sextets_small(2)[of a b] sextets_small(3)[of b c]
    by (simp add: sextets_def sextets_bytes)
qed simp

lemma b64_decode_visible: "b64_decode s = Some bs \<Longrightarrow> list_all visible_ascii s"
proof (induction s arbitrary: bs rule: b64_decode.induct)
  case (2 c1 c2 c3 c4 cs)
  from "2.prems" "2.IH" show ?case
    by (fastforce dest: b64_value_visible simp: visible_pad split: option.splits if_splits)
qed simp_all

interpretation rfc4648: base64_codec b64_encode b64_decode
  by unfold_locales (rule b64_decode_encode, rule b64_decode_visible)

end
