(* ===== verification/Listener.thy ===== *)
theory Listener
  imports PipeTask Base64
begin

text \<open>
  \<open>ObfsWsListener\<close> of \<open>src/listener.rs\<close>: the handshake callback that reads the metadata, the
  task that serves one connection, and the listener as a labelled step relation (the accept
  loop, any number of connection tasks in any interleaving, and the caller of \<open>accept\<close>).
  The channels, the base64 engine and \<open>HeaderValue::to_str\<close> are dependencies. What a socket
  or a handshake answers is an argument of a step. A pipe runs from the moment it is made, so
  what \<open>accept\<close> hands out is what its background task has made of it in the queue.
\<close>


section \<open>The handshake callback\<close>

record error_response =
  status :: nat
  resp_headers :: "(string \<times> string) list"

definition res400 :: error_response where
  "res400 = \<lparr>status = 400, resp_headers = [(''Connection'', ''close'')]\<rparr>"

text \<open>\<open>key\<close> is the raw value of the header \<open>Sec-Websocket-Key\<close>, if the request has one.\<close>

definition pipe_get_metadata ::
  "('m, string) chan_api \<Rightarrow> (string \<Rightarrow> bytes option) \<Rightarrow> (string \<Rightarrow> unit + string) \<Rightarrow>
   'm \<Rightarrow> string option \<Rightarrow> 'r \<Rightarrow> (error_response, 'r \<times> 'm) outcome" where
  "pipe_get_metadata m_api dec to_str md_tx key res =
     (case key of
        None \<Rightarrow> Err res400
      | Some md \<Rightarrow>
          (case dec md of
             None \<Rightarrow> Err res400
           | Some v \<Rightarrow>
               if length v = 16 then
                 and_then (unwrap (to_str md)) (\<lambda>s.
                 and_then (unwrap (try_send m_api md_tx s)) (\<lambda>md_tx'. Ok (res, md_tx')))
               else Err res400))"

datatype serve_error =
    NodelayError | HandshakeFailed | HandshakeRefused error_response
  | MetadataClosed | MetadataPending

text \<open>
  The handshake reads the request and checks it before it calls the callback, and finishes
  after it. \<open>NoCallback\<close> is everything that ends it before the callback: a connection that
  breaks off, bytes that are no HTTP, a request that is no websocket upgrade or one that the
  websocket library refuses itself, as it may for a missing key header. Then the callback is
  not run and its response is not sent. \<open>Callback key\<close> is a call of it with a request that
  has this key header. \<open>shaken\<close> is whether the rest succeeds.
\<close>

datatype callback_run = NoCallback | Callback "string option"

text \<open>The task of one connection up to the finished pipe.\<close>

definition serve_conn ::
  "('m, string) chan_api \<Rightarrow> ('c, bytes) chan_api \<Rightarrow> (string \<Rightarrow> bytes option) \<Rightarrow>
   (string \<Rightarrow> unit + string) \<Rightarrow> bool \<Rightarrow> callback_run \<Rightarrow> bool \<Rightarrow>
   (serve_error, 'c wires \<times> pipe_handle) outcome" where
  "serve_conn m_api api dec to_str nodelay request shaken =
     (if \<not> nodelay then Err NodelayError
      else
        case request of
          NoCallback \<Rightarrow> Err HandshakeFailed
        | Callback key \<Rightarrow>
            (case pipe_get_metadata m_api dec to_str (chan_bounded m_api 1) key () of
               Panic p \<Rightarrow> Panic p
             | Err r \<Rightarrow> Err (HandshakeRefused r)
             | Ok (res, md) \<Rightarrow>
                 if \<not> shaken then Err HandshakeFailed
                 else
                   (case recv_await m_api md of
                      Pending \<Rightarrow> Err MetadataPending
                    | Ready (Inl e) \<Rightarrow> Err MetadataClosed
                    | Ready (Inr (metadata, md')) \<Rightarrow> Ok (new_pipe api '''' metadata))))"


section \<open>The listener\<close>

datatype 'p conn_task = TaskServe callback_run | TaskPush 'p

record ('d, 'p) listener =
  pipe_queue :: 'd
  conn_tasks :: "'p conn_task list"
  listening :: bool

definition listener_from :: "('d, 'p) chan_api \<Rightarrow> ('d, 'p) listener" where
  "listener_from q_api =
     \<lparr>pipe_queue = chan_bounded q_api 1000, conn_tasks = [], listening = True\<rparr>"

text \<open>A task that ends drops its sender; the last sender closes the channel.\<close>

definition drop_sender ::
  "('d, 'p) chan_api \<Rightarrow> ('d, 'p) listener \<Rightarrow> ('d, 'p) listener" where
  "drop_sender q_api s =
     (if \<not> listening s \<and> conn_tasks s = []
      then s\<lparr>pipe_queue := hang_up q_api (pipe_queue s)\<rparr> else s)"

definition end_task ::
  "('d, 'p) chan_api \<Rightarrow> nat \<Rightarrow> ('d, 'p) listener \<Rightarrow> ('d, 'p) listener" where
  "end_task q_api i s =
     drop_sender q_api (s\<lparr>conn_tasks := take i (conn_tasks s) @ drop (Suc i) (conn_tasks s)\<rparr>)"

text \<open>\<open>accept\<close>: the next pipe, or \<open>BrokenPipe\<close> once the channel is closed and empty.\<close>

definition accept ::
  "('d, 'p) chan_api \<Rightarrow> ('d, 'p) listener \<Rightarrow> (io_error_kind + 'p \<times> ('d, 'p) listener) poll" where
  "accept q_api s =
     (case recv_await q_api (pipe_queue s) of
        Pending \<Rightarrow> Pending
      | Ready (Inl e) \<Rightarrow> Ready (Inl BrokenPipe)
      | Ready (Inr (p, q)) \<Rightarrow> Ready (Inr (p, s\<lparr>pipe_queue := q\<rparr>)))"

datatype 'p listener_event =
    LIncoming | LSocketError | LServed | LTaskFailed "serve_error option"
  | LQueued 'p | LAccepted 'p | LAcceptFailed io_error_kind

type_synonym ('d, 'c) pipe_listener = "('d, 'c wires \<times> pipe_handle) listener"

inductive listener_step ::
  "('m, string) chan_api \<Rightarrow> ('c, bytes) chan_api \<Rightarrow> ('d, 'c wires \<times> pipe_handle) chan_api \<Rightarrow>
   (string \<Rightarrow> bytes option) \<Rightarrow> (string \<Rightarrow> unit + string) \<Rightarrow>
   ('d, 'c) pipe_listener \<Rightarrow> ('c wires \<times> pipe_handle) listener_event \<Rightarrow>
   ('d, 'c) pipe_listener \<Rightarrow> bool"
  for m_api api q_api dec to_str where
  incoming:
    "listening s \<Longrightarrow>
     listener_step m_api api q_api dec to_str s LIncoming
       (s\<lparr>conn_tasks := conn_tasks s @ [TaskServe request]\<rparr>)"
| socket_error:
    "listening s \<Longrightarrow>
     listener_step m_api api q_api dec to_str s LSocketError
       (drop_sender q_api (s\<lparr>listening := False\<rparr>))"
| served:
    "i < length (conn_tasks s) \<Longrightarrow> conn_tasks s ! i = TaskServe request \<Longrightarrow>
     serve_conn m_api api dec to_str nodelay request shaken = Ok p \<Longrightarrow>
     listener_step m_api api q_api dec to_str s LServed
       (s\<lparr>conn_tasks := (conn_tasks s)[i := TaskPush p]\<rparr>)"
| serve_failed:
    "i < length (conn_tasks s) \<Longrightarrow> conn_tasks s ! i = TaskServe request \<Longrightarrow>
     serve_conn m_api api dec to_str nodelay request shaken = Err e \<Longrightarrow>
     listener_step m_api api q_api dec to_str s (LTaskFailed (Some e)) (end_task q_api i s)"
| serve_panicked:
    "i < length (conn_tasks s) \<Longrightarrow> conn_tasks s ! i = TaskServe request \<Longrightarrow>
     serve_conn m_api api dec to_str nodelay request shaken = Panic m \<Longrightarrow>
     listener_step m_api api q_api dec to_str s (LTaskFailed None) (end_task q_api i s)"
| queued:
    "i < length (conn_tasks s) \<Longrightarrow> conn_tasks s ! i = TaskPush p \<Longrightarrow>
     send_await q_api (pipe_queue s) p = Ready (Inr q) \<Longrightarrow>
     listener_step m_api api q_api dec to_str s (LQueued p)
       (end_task q_api i (s\<lparr>pipe_queue := q\<rparr>))"
| queue_gone:
    "i < length (conn_tasks s) \<Longrightarrow> conn_tasks s ! i = TaskPush p \<Longrightarrow>
     send_await q_api (pipe_queue s) p = Ready (Inl p') \<Longrightarrow>
     listener_step m_api api q_api dec to_str s (LTaskFailed None) (end_task q_api i s)"
| accepted:
    "accept q_api s = Ready (Inr (made, s')) \<Longrightarrow> pipe_meanwhile api made p \<Longrightarrow>
     listener_step m_api api q_api dec to_str s (LAccepted p) s'"
| accept_failed:
    "accept q_api s = Ready (Inl e) \<Longrightarrow>
     listener_step m_api api q_api dec to_str s (LAcceptFailed e) s"

fun queued1 :: "'p listener_event \<Rightarrow> 'p list" where
  "queued1 (LQueued p) = [p]"
| "queued1 _ = []"

fun taken1 :: "'p listener_event \<Rightarrow> 'p list" where
  "taken1 (LAccepted p) = [p]"
| "taken1 _ = []"

definition queued_pipes :: "'p listener_event list \<Rightarrow> 'p list" where
  "queued_pipes evs = concat (map queued1 evs)"

definition taken_pipes :: "'p listener_event list \<Rightarrow> 'p list" where
  "taken_pipes evs = concat (map taken1 evs)"

lemma listener_history [simp]:
  "queued_pipes [] = []" "taken_pipes [] = []"
  "queued_pipes (evs @ [e]) = queued_pipes evs @ queued1 e"
  "taken_pipes (evs @ [e]) = taken_pipes evs @ taken1 e"
  by (simp_all add: queued_pipes_def taken_pipes_def)


section \<open>Invariants\<close>

text \<open>A key the listener lets through, and a pipe that carries such a key.\<close>

definition valid_key :: "(string \<Rightarrow> bytes option) \<Rightarrow> string \<Rightarrow> bool" where
  "valid_key dec md = (case dec md of Some v \<Rightarrow> length v = 16 | None \<Rightarrow> False)"

definition made_for_key :: "('c, bytes) chan_api \<Rightarrow> (string \<Rightarrow> bytes option) \<Rightarrow> 'c wires \<times> pipe_handle \<Rightarrow> bool" where
  "made_for_key api dec p \<longleftrightarrow> (\<exists>md. valid_key dec md \<and> p = new_pipe api '''' md)"

definition pipe_with_key :: "(string \<Rightarrow> bytes option) \<Rightarrow> 'c wires \<times> pipe_handle \<Rightarrow> bool" where
  "pipe_with_key dec p \<longleftrightarrow> (\<exists>md. valid_key dec md \<and> peer_url (snd p) = ''#'' @ md \<and> recv_buf (snd p) = [])"

definition listener_ok ::
  "('c, bytes) chan_api \<Rightarrow> ('d \<Rightarrow> ('c wires \<times> pipe_handle) fifo) \<Rightarrow> (string \<Rightarrow> bytes option) \<Rightarrow>
   ('c wires \<times> pipe_handle) listener_event list \<Rightarrow> ('d, 'c) pipe_listener \<Rightarrow> bool" where
  "listener_ok api qview dec evs s \<longleftrightarrow>
     (\<exists>made. queued_pipes evs = made @ queue (qview (pipe_queue s)) \<and>
        list_all2 (pipe_meanwhile api) made (taken_pipes evs)) \<and>
     capacity (qview (pipe_queue s)) = Some 1000 \<and>
     length (queue (qview (pipe_queue s))) \<le> 1000 \<and>
     (\<forall>p \<in> set (queued_pipes evs). made_for_key api dec p) \<and>
     (\<forall>p. TaskPush p \<in> set (conn_tasks s) \<longrightarrow> made_for_key api dec p) \<and>
     (hung_up (qview (pipe_queue s)) \<longleftrightarrow> \<not> listening s \<and> conn_tasks s = [])"

lemma listener_ok_taken:
  assumes "listener_ok api qview dec evs s" and "p \<in> set (taken_pipes evs)"
  shows "pipe_with_key dec p"
proof -
  from assms obtain made where "queued_pipes evs = made @ queue (qview (pipe_queue s))"
    and made: "list_all2 (pipe_meanwhile api) made (taken_pipes evs)"
    and key: "\<forall>p \<in> set (queued_pipes evs). made_for_key api dec p" by (auto simp: listener_ok_def)
  moreover from made assms(2) obtain p0 where "p0 \<in> set made" and run: "pipe_meanwhile api p0 p"
    by (metis list_all2_conv_all_nth in_set_conv_nth)
  ultimately have "made_for_key api dec p0" by auto
  moreover have "snd p = snd p0" by (rule pipe_meanwhile_handle [OF run])
  ultimately show ?thesis by (auto simp: made_for_key_def pipe_with_key_def new_pipe_def)
qed

locale listener_deps =
  md: smol_channel m_api mview + pq: smol_channel q_api qview + b64: base64_codec enc dec
  for m_api :: "('m, string) chan_api" and mview :: "'m \<Rightarrow> string fifo"
    and q_api :: "('d, 'c wires \<times> pipe_handle) chan_api"
    and qview :: "'d \<Rightarrow> ('c wires \<times> pipe_handle) fifo"
    and enc :: "bytes \<Rightarrow> string" and dec :: "string \<Rightarrow> bytes option" +
  fixes to_str :: "string \<Rightarrow> unit + string" and api :: "('c, bytes) chan_api"
  assumes to_str_visible: "list_all visible_ascii s \<Longrightarrow> to_str s = Inr s"
begin

lemma callback_outcome:
  assumes "mview md_tx = bounded 1"
  shows "case key of
     Some md \<Rightarrow>
       if valid_key dec md
       then \<exists>c. pipe_get_metadata m_api dec to_str md_tx key res = Ok (res, c) \<and>
              mview c = (bounded 1)\<lparr>queue := [md]\<rparr>
       else pipe_get_metadata m_api dec to_str md_tx key res = Err res400
   | None \<Rightarrow> pipe_get_metadata m_api dec to_str md_tx key res = Err res400"
proof (cases key)
  case None
  then show ?thesis by (simp add: pipe_get_metadata_def)
next
  case (Some md)
  show ?thesis
  proof (cases "valid_key dec md")
    case False
    with Some show ?thesis
      by (auto simp: pipe_get_metadata_def valid_key_def split: option.splits)
  next
    case True
    then obtain v where v: "dec md = Some v" "length v = 16"
      by (auto simp: valid_key_def split: option.splits)
    obtain c where "try_send m_api md_tx md = Inr c" and "mview c = fifo_push (mview md_tx) md"
      by (rule md.try_send_open [of md_tx md])
        (use assms in \<open>simp_all add: bounded_def fifo_full_def\<close>)
    with Some True v assms to_str_visible [OF b64.dec_visible [OF v(1)]] show ?thesis
      by (auto simp: pipe_get_metadata_def fifo_push_def bounded_def)
  qed
qed

lemma serve_outcome:
  "serve_conn m_api api dec to_str nodelay request shaken =
     (if \<not> nodelay then Err NodelayError
      else case request of
        NoCallback \<Rightarrow> Err HandshakeFailed
      | Callback None \<Rightarrow> Err (HandshakeRefused res400)
      | Callback (Some md) \<Rightarrow>
          if \<not> valid_key dec md then Err (HandshakeRefused res400)
          else if \<not> shaken then Err HandshakeFailed
          else Ok (new_pipe api '''' md))"
proof (cases "\<exists>md. nodelay \<and> request = Callback (Some md) \<and> valid_key dec md")
  case False
  show ?thesis
  proof (cases request)
    case (Callback key)
    with False callback_outcome[of "chan_bounded m_api 1" key "()", OF md.view_bounded] show ?thesis
      by (auto simp: serve_conn_def split: option.splits)
  qed (simp add: serve_conn_def)
next
  case True
  then obtain key where u: "request = Callback key" "nodelay" "key \<noteq> None" "valid_key dec (the key)" by auto
  then obtain md c where k: "key = Some md" "valid_key dec md"
    and c: "pipe_get_metadata m_api dec to_str (chan_bounded m_api 1) key () = Ok ((), c)"
      "mview c = (bounded 1)\<lparr>queue := [md]\<rparr>"
    using callback_outcome[of "chan_bounded m_api 1" key "()", OF md.view_bounded] by auto
  obtain c' where "recv_await m_api c = Ready (Inr (md, c'))"
    by (rule md.recv_await_Cons [of c md "[]"]) (use c(2) in \<open>simp_all add: bounded_def\<close>)
  with u k c show ?thesis by (simp add: serve_conn_def)
qed

lemma served_pipe:
  assumes "serve_conn m_api api dec to_str nodelay request shaken = Ok p"
  shows "made_for_key api dec p"
  using assms
  by (auto simp: serve_outcome made_for_key_def split: if_splits option.splits callback_run.splits)

lemma listener_start: "listener_ok api qview dec [] (listener_from q_api)"
  by (simp add: listener_ok_def listener_from_def pq.view_bounded bounded_def)

lemma drop_sender_view:
  "qview (pipe_queue (drop_sender q_api s)) =
     (qview (pipe_queue s))\<lparr>hung_up := hung_up (qview (pipe_queue s)) \<or>
        \<not> listening s \<and> conn_tasks s = []\<rparr>"
  by (auto simp: drop_sender_def pq.view_hang_up fifo_hang_up_def)

lemma drop_sender_frame [simp]:
  "conn_tasks (drop_sender q_api s) = conn_tasks s" "listening (drop_sender q_api s) = listening s"
  by (simp_all add: drop_sender_def)

lemma end_task_ok:
  assumes "listener_ok api qview dec evs s" and "i < length (conn_tasks s)"
  shows "listener_ok api qview dec evs (end_task q_api i s)"
  using assms
  by (auto simp: listener_ok_def end_task_def drop_sender_view dest: in_set_takeD in_set_dropD)

lemma listener_step_ok:
  assumes "listener_ok api qview dec evs s" and "listener_step m_api api q_api dec to_str s e s'"
  shows "listener_ok api qview dec (evs @ [e]) s'"
  using assms(2)
proof cases
  case incoming
  with assms(1) show ?thesis by (auto simp: listener_ok_def)
next
  case socket_error
  with assms(1) show ?thesis by (auto simp: listener_ok_def drop_sender_view)
next
  case (served i request nodelay shaken p)
  with assms(1) served_pipe[OF served(5)] show ?thesis
    by (auto simp: listener_ok_def dest!: set_update_subset_insert [THEN subsetD])
next
  case (serve_failed i request nodelay shaken e')
  with end_task_ok[OF assms(1) serve_failed(3)] show ?thesis by (simp add: listener_ok_def)
next
  case (serve_panicked i request nodelay shaken m)
  with end_task_ok[OF assms(1) serve_panicked(3)] show ?thesis by (simp add: listener_ok_def)
next
  case (queue_gone i p p')
  with end_task_ok[OF assms(1) queue_gone(3)] show ?thesis by (simp add: listener_ok_def)
next
  case (queued i p q)
  have "listener_ok api qview dec (evs @ [e]) (s\<lparr>pipe_queue := q\<rparr>)"
    using assms(1) queued pq.send_await_Inr[OF queued(5)] nth_mem[OF queued(3)]
    by (cases p) (auto simp: listener_ok_def fifo_push_def fifo_full_def)
  from end_task_ok[OF this, of i] queued show ?thesis by simp
next
  case (accepted made p)
  then obtain q where r: "recv_await q_api (pipe_queue s) = Ready (Inr (made, q))"
    and s': "s' = s\<lparr>pipe_queue := q\<rparr>"
    by (auto simp: accept_def split: poll.splits sum.splits)
  have "capacity (qview q) = capacity (qview (pipe_queue s))"
    using arg_cong[OF pq.recv_await_Inr(2)[OF r], of capacity] by simp
  moreover from assms(1) obtain ps where "queued_pipes evs = ps @ queue (qview (pipe_queue s))"
    "list_all2 (pipe_meanwhile api) ps (taken_pipes evs)" by (auto simp: listener_ok_def)
  then have "queued_pipes evs = (ps @ [made]) @ queue (qview q)"
    "list_all2 (pipe_meanwhile api) (ps @ [made]) (taken_pipes evs @ [p])"
    using accepted(3) pq.recv_await_Inr(1)[OF r] by (auto intro: list_all2_appendI)
  ultimately show ?thesis
    using assms(1) accepted(1) s' pq.recv_await_Inr(1)[OF r] pq.hung_up_kept(4)[OF r]
    unfolding listener_ok_def by (intro conjI exI [of _ "ps @ [made]"]) simp_all
next
  case (accept_failed e')
  with assms(1) show ?thesis by (simp add: listener_ok_def)
qed

lemma accept_open:
  assumes "listener_ok api qview dec evs s"
  shows "accept q_api s = Ready (Inl e) \<longleftrightarrow>
     e = BrokenPipe \<and> \<not> listening s \<and> conn_tasks s = [] \<and> queue (qview (pipe_queue s)) = []"
proof (cases "queue (qview (pipe_queue s))")
  case Nil
  with assms pq.recv_await_Nil[of "pipe_queue s"] show ?thesis
    by (auto simp: accept_def listener_ok_def)
next
  case (Cons p ps)
  then obtain q where "recv_await q_api (pipe_queue s) = Ready (Inr (p, q))"
    by (rule pq.recv_await_Cons)
  with Cons show ?thesis by (simp add: accept_def)
qed

end

sublocale listener_deps \<subseteq> serving: history_invariant "listener_step m_api api q_api dec to_str"
  "\<lambda>s. s = listener_from q_api" "listener_ok api qview dec"
  by unfold_locales (auto intro: listener_start listener_step_ok)

context listener_deps
begin

lemma run_listener:
  "run (listener_step m_api api q_api dec to_str) (listener_from q_api) evs s \<Longrightarrow>
   listener_ok api qview dec evs s"
  by (rule serving.inv_run) auto

end

definition ascii_to_str :: "string \<Rightarrow> unit + string" where
  "ascii_to_str s = (if list_all visible_ascii s then Inr s else Inl ())"

interpretation fifo_listener:
  listener_deps fifo_api id fifo_api id b64_encode b64_decode ascii_to_str
    "fifo_api :: (bytes fifo, bytes) chan_api"
  by unfold_locales (simp add: ascii_to_str_def)


section \<open>What the listener guarantees\<close>

text \<open>The key of the log in \<open>BUG.txt\<close>: sixteen bytes in base64.\<close>

definition demo_key :: string where
  "demo_key = ''cW+u76c9CENJiPaSdKoYtQ==''"

lemma demo_key_valid: "valid_key b64_decode demo_key"
  by (simp add: valid_key_def demo_key_def b64_value_def)

text \<open>
  Property C14. The task of a connection, on every branch: it never panics and never waits for
  metadata that cannot come. Without \<open>nodelay\<close>, or when the handshake fails before it calls
  the callback, it ends with an error and the 400 response is not sent. A request that does
  reach the callback, and there has no key header or a key that is not the base64 text of
  sixteen bytes, is refused with status 400 and \<open>Connection: close\<close>; any other one yields,
  once the handshake is done, a new pipe for the key.
\<close>

theorem serve_conn_outcome:
  fixes api :: "('c, bytes) chan_api" and q_api :: "('d, 'c wires \<times> pipe_handle) chan_api"
  assumes "listener_deps m_api mview q_api qview enc dec to_str"
  shows "serve_conn m_api api dec to_str nodelay request shaken =
     (if \<not> nodelay then Err NodelayError
      else case request of
        NoCallback \<Rightarrow> Err HandshakeFailed
      | Callback None \<Rightarrow>
          Err (HandshakeRefused \<lparr>status = 400, resp_headers = [(''Connection'', ''close'')]\<rparr>)
      | Callback (Some md) \<Rightarrow>
          if \<not> valid_key dec md
          then Err (HandshakeRefused \<lparr>status = 400, resp_headers = [(''Connection'', ''close'')]\<rparr>)
          else if \<not> shaken then Err HandshakeFailed
          else Ok (new_pipe api [] md))"
  by (rule listener_deps.serve_outcome [OF assms, unfolded res400_def])

theorem serve_conn_outcome_witness:
  "serve_conn fifo_api fifo_api b64_decode ascii_to_str True (Callback (Some demo_key)) True =
     Ok (new_pipe fifo_api [] demo_key)"
  using serve_conn_outcome [OF fifo_listener.listener_deps_axioms, of fifo_api True "Callback (Some demo_key)" True]
  by (simp add: demo_key_valid)

text \<open>A run on the queue itself: one connection is served, its pipe queued and accepted.\<close>

definition demo_pipe :: "bytes fifo wires \<times> pipe_handle" where
  "demo_pipe = new_pipe fifo_api [] demo_key"

definition demo_listener ::
  "(bytes fifo wires \<times> pipe_handle) list \<Rightarrow>
   (bytes fifo wires \<times> pipe_handle) conn_task list \<Rightarrow> bool \<Rightarrow>
   ((bytes fifo wires \<times> pipe_handle) fifo, bytes fifo) pipe_listener" where
  "demo_listener ps ts alive =
     \<lparr>pipe_queue = \<lparr>queue = ps, capacity = Some 1000, hung_up = \<not> alive \<and> ts = []\<rparr>,
      conn_tasks = ts, listening = alive\<rparr>"

lemmas demo_listener_defs =
  demo_listener_def listener_from_def fifo_api_def fifo_defs bounded_def drop_sender_def
  end_task_def accept_def

abbreviation demo_listener_step where
  "demo_listener_step \<equiv> listener_step fifo_api fifo_api fifo_api b64_decode ascii_to_str"

lemma demo_served:
  "serve_conn fifo_api fifo_api b64_decode ascii_to_str True (Callback (Some demo_key)) True = Ok demo_pipe"
  using fifo_listener.serve_outcome[of True "Callback (Some demo_key)" True]
  by (simp add: demo_key_valid demo_pipe_def)

lemma demo_incoming:
  "demo_listener_step (listener_from fifo_api) LIncoming (demo_listener [] [TaskServe (Callback (Some demo_key))] True)"
  using incoming[of "listener_from fifo_api" fifo_api fifo_api fifo_api b64_decode ascii_to_str "Callback (Some demo_key)"]
  by (simp add: demo_listener_defs)

lemma demo_serving:
  "demo_listener_step (demo_listener [] [TaskServe (Callback (Some demo_key))] True) LServed
     (demo_listener [] [TaskPush demo_pipe] True)"
  using served[of 0 "demo_listener [] [TaskServe (Callback (Some demo_key))] True", OF _ _ demo_served, of fifo_api]
  by (simp add: demo_listener_def)

lemma demo_queued:
  "demo_listener_step (demo_listener [] [TaskPush demo_pipe] True) (LQueued demo_pipe)
     (demo_listener [demo_pipe] [] True)"
  using queued[of 0 "demo_listener [] [TaskPush demo_pipe] True" demo_pipe fifo_api
      "pipe_queue (demo_listener [demo_pipe] [] True)" fifo_api fifo_api b64_decode ascii_to_str]
  by (simp add: demo_listener_defs)

lemma demo_accepts: "accept fifo_api (demo_listener [demo_pipe] [] True) = Ready (Inr (demo_pipe, demo_listener [] [] True))"
  by (simp add: demo_listener_defs)

lemma demo_socket_error: "demo_listener_step (demo_listener [] [] True) LSocketError (demo_listener [] [] False)"
  using socket_error[of "demo_listener [] [] True" fifo_api fifo_api fifo_api b64_decode ascii_to_str]
  by (simp add: demo_listener_defs)

lemma demo_listener_run:
  "run demo_listener_step (listener_from fifo_api)
     [LIncoming, LServed, LQueued demo_pipe, LAccepted demo_pipe, LSocketError]
     (demo_listener [] [] False)"
  by (rule run_cons, rule demo_incoming, rule run_cons, rule demo_serving, rule run_cons, rule demo_queued,
      rule run_cons, rule accepted [OF demo_accepts pipe_meanwhile_refl], rule run_cons, rule demo_socket_error, rule run_start)

text \<open>
  Property C13. In every interleaving of the accept loop, the connection tasks and the caller:
  every pipe queued was made for a key of sixteen bytes, at most 1000 wait, and the pipes
  that \<open>accept\<close> has returned are the first of those queued, in their order, each as its
  background task has left it in the meantime. So each carries its key behind the hash sign
  of its address and has kept no bytes, but it may have messages in its channel already, and
  it may have been closed by its peer.
\<close>

theorem listener_hands_out_keyed_pipes:
  fixes q_api :: "('d, 'c wires \<times> pipe_handle) chan_api" and api :: "('c, bytes) chan_api"
  assumes "listener_deps m_api mview q_api qview enc dec to_str"
    and "run (listener_step m_api api q_api dec to_str) (listener_from q_api) evs s"
  shows "(\<exists>made. queued_pipes evs = made @ queue (qview (pipe_queue s)) \<and>
        list_all2 (pipe_meanwhile api) made (taken_pipes evs)) \<and>
     length (queue (qview (pipe_queue s))) \<le> 1000 \<and>
     (\<forall>p \<in> set (queued_pipes evs). \<exists>md v. p = new_pipe api [] md \<and> dec md = Some v \<and> length v = 16) \<and>
     (\<forall>p \<in> set (taken_pipes evs). \<exists>md v. peer_url (snd p) = ''#'' @ md \<and> dec md = Some v \<and>
        length v = 16 \<and> recv_buf (snd p) = [])"
proof -
  have ok: "listener_ok api qview dec evs s"
    by (rule listener_deps.run_listener [OF assms])
  have valid: "valid_key dec md \<Longrightarrow> \<exists>v. dec md = Some v \<and> length v = 16" for md
    by (auto simp: valid_key_def split: option.splits)
  have "\<exists>md v. p = new_pipe api [] md \<and> dec md = Some v \<and> length v = 16" if "p \<in> set (queued_pipes evs)" for p
    using ok that valid by (fastforce simp: listener_ok_def made_for_key_def)
  moreover have "\<exists>md v. peer_url (snd p) = ''#'' @ md \<and> dec md = Some v \<and> length v = 16 \<and>
      recv_buf (snd p) = []" if "p \<in> set (taken_pipes evs)" for p
    using listener_ok_taken [OF ok that] valid by (auto simp: pipe_with_key_def)
  ultimately show ?thesis using ok by (simp add: listener_ok_def)
qed

text \<open>At the witness the peer hangs up while its pipe waits: \<open>accept\<close> hands out a closed pipe.\<close>

definition demo_closed_pipe :: "bytes fifo wires \<times> pipe_handle" where
  "demo_closed_pipe = ((fst demo_pipe)\<lparr>closed := True\<rparr>, snd demo_pipe)"

lemma demo_pipe_closes: "pipe_meanwhile fifo_api demo_pipe demo_closed_pipe"
proof -
  let ?s0 = "running_pipe demo_pipe"
  let ?s1 = "?s0\<lparr>wires := wires ?s0, rpc := RecvNext\<rparr>"
  let ?s2 = "?s1\<lparr>wires := (wires ?s1)\<lparr>closed := True\<rparr>, rpc := RecvDone BrokenPipeErr\<rparr>"
  have "pipe_step fifo_api ?s0 EvInternal ?s1"
    by (rule recv_other) (simp_all add: running_pipe_def race_over_def send_over_def recv_over_def
        demo_pipe_def new_pipe_def)
  moreover have "pipe_step fifo_api ?s1 (EvItem EndOfStream) ?s2"
    by (rule recv_item) (simp_all add: running_pipe_def race_over_def send_over_def recv_over_def)
  ultimately have "run (pipe_step fifo_api) ?s0 [EvInternal, EvItem EndOfStream] ?s2"
    by (meson run_cons run_start)
  moreover have "demo_closed_pipe = (wires ?s2, snd demo_pipe)"
    by (simp add: running_pipe_def demo_closed_pipe_def)
  moreover have "list_all of_task [EvInternal, EvItem EndOfStream]" by simp
  ultimately show ?thesis unfolding pipe_meanwhile_def by blast
qed

lemma demo_closed_run:
  "run demo_listener_step (listener_from fifo_api)
     [LIncoming, LServed, LQueued demo_pipe, LAccepted demo_closed_pipe] (demo_listener [] [] True)"
  by (rule run_cons, rule demo_incoming, rule run_cons, rule demo_serving, rule run_cons, rule demo_queued,
      rule run_cons, rule accepted [OF demo_accepts demo_pipe_closes], rule run_start)

theorem listener_hands_out_keyed_pipes_witness:
  "\<exists>evs s p md v. run demo_listener_step (listener_from fifo_api) evs s \<and> taken_pipes evs = [p] \<and>
     closed (fst p) \<and> peer_url (snd p) = ''#'' @ md \<and> b64_decode md = Some v \<and> length v = 16"
proof -
  let ?evs = "[LIncoming, LServed, LQueued demo_pipe, LAccepted demo_closed_pipe]"
  have taken: "taken_pipes ?evs = [demo_closed_pipe]" by (simp add: taken_pipes_def)
  moreover have "\<exists>md v. peer_url (snd demo_closed_pipe) = ''#'' @ md \<and> b64_decode md = Some v \<and> length v = 16"
    using listener_hands_out_keyed_pipes [OF fifo_listener.listener_deps_axioms demo_closed_run] taken by auto
  moreover have "closed (fst demo_closed_pipe)" by (simp add: demo_closed_pipe_def)
  ultimately show ?thesis using demo_closed_run by blast
qed

text \<open>
  \<open>accept\<close> fails only with \<open>BrokenPipe\<close>, and only when the accept loop has
  ended (a single failed \<open>accept\<close> of the socket ends it), every connection task has ended,
  and no pipe is left in the queue.
\<close>

theorem accept_fails_only_when_over:
  fixes q_api :: "('d, 'c wires \<times> pipe_handle) chan_api" and api :: "('c, bytes) chan_api"
  assumes "listener_deps m_api mview q_api qview enc dec to_str"
    and "run (listener_step m_api api q_api dec to_str) (listener_from q_api) evs s"
  shows "accept q_api s = Ready (Inl e) \<longleftrightarrow>
     e = BrokenPipe \<and> \<not> listening s \<and> conn_tasks s = [] \<and> queue (qview (pipe_queue s)) = []"
  by (rule listener_deps.accept_open [OF assms(1) listener_deps.run_listener [OF assms]])

theorem accept_fails_only_when_over_witness:
  "accept fifo_api (demo_listener [] [] False) = Ready (Inl BrokenPipe)"
  using accept_fails_only_when_over
    [OF fifo_listener.listener_deps_axioms demo_listener_run, of BrokenPipe]
  by (simp add: demo_listener_def)

end
