(* ===== verification/Etag.thy ===== *)
theory Etag
  imports Base64
begin

text \<open>
  The session key of a wsocks client (\<open>Etag\<close> of \<open>src/bin.todo/wsocks.rs\<close>): a 64-bit hash of
  the client's random state, which travels to the server in \<open>Sec-Websocket-Key\<close>, encrypted
  under a key derived from the server's public key, and the key helpers beside it. The
  digest, the hasher, the cipher, hex and base64 are dependencies, collected in
  \<open>etag_deps\<close> with the contract \<open>etag_ops\<close>.
\<close>


section \<open>Keys\<close>

text \<open>\<open>hex2bytes\<close> and \<open>hex2key\<close>: \<open>hex_decode h n\<close> is \<open>hex::decode_to_slice\<close> into \<open>n\<close> bytes.\<close>

definition hex2bytes ::
  "(string \<Rightarrow> nat \<Rightarrow> 'h + bytes) \<Rightarrow> nat \<Rightarrow> string \<Rightarrow> ('h, bytes) outcome" where
  "hex2bytes hex_decode n h =
     and_then (of_result (hex_decode h n)) (\<lambda>b. Ok b)"

definition hex2key :: "(string \<Rightarrow> nat \<Rightarrow> 'h + bytes) \<Rightarrow> string \<Rightarrow> ('h, bytes) outcome" where
  "hex2key hex_decode h = hex2bytes hex_decode 32 h"

definition NS_WSOCKS_CLIENT_ETAG :: bytes where
  "NS_WSOCKS_CLIENT_ETAG =
     [0xb2, 0xdf, 0xa0, 0x91, 0xde, 0xc2, 0x07, 0xbf, 0xce, 0x9e, 0x9f, 0x82, 0xb4, 0xf6, 0x85, 0x16,
      0xe2, 0xb6, 0xae, 0xf8, 0xab, 0xa4, 0xa0, 0x90, 0x96, 0xd3, 0xf8, 0xfe, 0x02, 0xcb, 0xc5, 0xa8]"

definition NS_WSOCKS_SERVER_SECRET :: bytes where
  "NS_WSOCKS_SERVER_SECRET =
     [0xb6, 0xae, 0xa3, 0x98, 0xc4, 0xde, 0xf3, 0x10, 0xf8, 0xc5, 0xe8, 0x14, 0x0e, 0xd4, 0xbc, 0x9e,
      0x81, 0xc5, 0x9f, 0xc8, 0x1d, 0xe8, 0xce, 0xe1, 0xd6, 0xf9, 0x95, 0xf3, 0x12, 0x0f, 0xbf, 0x11]"

definition client_etag_hash :: "(bytes \<Rightarrow> bytes \<Rightarrow> bytes) \<Rightarrow> bytes \<Rightarrow> bytes" where
  "client_etag_hash keyed_hash data = keyed_hash NS_WSOCKS_CLIENT_ETAG data"

definition server_sk_hash :: "(bytes \<Rightarrow> bytes \<Rightarrow> bytes) \<Rightarrow> bytes \<Rightarrow> bytes" where
  "server_sk_hash keyed_hash data = keyed_hash NS_WSOCKS_SERVER_SECRET data"


section \<open>The session hash and the header that carries it\<close>

record ('t, 'i) etag =
  etag_random :: bytes
  time1 :: 't
  time2 :: 'i
  pk_hash :: bytes

text \<open>
  \<open>keyed_hash\<close> is blake3, \<open>default_hash\<close> what a fresh \<open>DefaultHasher\<close> returns after one
  write, \<open>debug_text\<close> the derived \<open>Debug\<close> output, and \<open>apply_keystream\<close> the cipher
  \<open>ChaCha20Legacy\<close> under a key and a nonce.
\<close>

record ('t, 'i) etag_deps =
  keyed_hash :: "bytes \<Rightarrow> bytes \<Rightarrow> bytes"
  default_hash :: "bytes \<Rightarrow> u64"
  debug_text :: "('t, 'i) etag \<Rightarrow> bytes"
  apply_keystream :: "bytes \<Rightarrow> bytes \<Rightarrow> bytes \<Rightarrow> bytes"
  b64_enc :: "bytes \<Rightarrow> string"
  b64_dec :: "string \<Rightarrow> bytes option"

datatype etag_error = NotBase64 | WrongKeyLength

text \<open>\<open>rnd\<close> is what the generator filled the 1024 bytes with; \<open>now1\<close> and \<open>now2\<close> are the clocks.\<close>

definition etag_new ::
  "('t, 'i) etag_deps \<Rightarrow> bytes \<Rightarrow> 't \<Rightarrow> 'i \<Rightarrow> bytes \<Rightarrow> ('t, 'i) etag" where
  "etag_new D rnd now1 now2 pk =
     \<lparr>etag_random = rnd, time1 = now1, time2 = now2,
      pk_hash = client_etag_hash (keyed_hash D) pk\<rparr>"

definition etag_hash :: "('t, 'i) etag_deps \<Rightarrow> ('t, 'i) etag \<Rightarrow> bytes" where
  "etag_hash D e = client_etag_hash (keyed_hash D) (debug_text D e)"

definition calc_hash :: "('t, 'i) etag_deps \<Rightarrow> ('t, 'i) etag \<Rightarrow> u64" where
  "calc_hash D e = default_hash D (etag_hash D e)"

text \<open>A key or nonce of the wrong length panics in the conversion to an array.\<close>

definition chacha20 ::
  "('t, 'i) etag_deps \<Rightarrow> bytes \<Rightarrow> bytes \<Rightarrow> bytes \<Rightarrow> ('e, bytes) outcome" where
  "chacha20 D k nonce data =
     (if length k \<noteq> 32 \<or> length nonce \<noteq> 8 then Panic ''assertion failed: length of key or nonce''
      else Ok (apply_keystream D k nonce data))"

definition generate :: "('t, 'i) etag_deps \<Rightarrow> bytes \<Rightarrow> ('t, 'i) etag \<Rightarrow> (etag_error, string) outcome" where
  "generate D nonce e =
     and_then (chacha20 D (pk_hash e) nonce (to_be_bytes 8 (calc_hash D e))) (\<lambda>hash.
     let out = [] @ nonce @ hash in
     if length out \<noteq> 16 then Panic ''assertion failed: out.len() == 16''
     else Ok (b64_enc D out))"

definition etag_from :: "('t, 'i) etag_deps \<Rightarrow> bytes \<Rightarrow> string \<Rightarrow> (etag_error, u64) outcome" where
  "etag_from D pk b64 =
     (case b64_dec D b64 of
        None \<Rightarrow> Err NotBase64
      | Some buf \<Rightarrow>
          if length buf \<noteq> 16 then Err WrongKeyLength
          else
            and_then (slice buf 0 8) (\<lambda>nonce.
            if length nonce \<noteq> 8 then Panic ''assertion failed: nonce.len() == 8''
            else
              and_then (slice buf 8 (length buf)) (\<lambda>hash.
              if length hash \<noteq> 8 then Panic ''assertion failed: hash.len() == 8''
              else
                and_then (chacha20 D (client_etag_hash (keyed_hash D) pk) nonce hash) (\<lambda>plain.
                and_then (slice plain 0 8) (\<lambda>h8.
                and_then (copy_from_slice (replicate 8 0) 0 8 h8) (\<lambda>h.
                Ok (from_be_bytes h)))))))"


section \<open>What the dependencies have to do\<close>

locale keyed_digest =
  fixes digest :: "bytes \<Rightarrow> bytes \<Rightarrow> bytes"
  assumes length_digest: "length (digest k d) = 32"

text \<open>A synchronous stream cipher: decrypting is encrypting again.\<close>

locale stream_cipher =
  fixes crypt :: "bytes \<Rightarrow> bytes \<Rightarrow> bytes \<Rightarrow> bytes"
  assumes length_crypt: "length (crypt k n d) = length d"
    and crypt_crypt: "crypt k n (crypt k n d) = d"
begin

lemma crypt_inj: "crypt k n d = crypt k n d' \<longleftrightarrow> d = d'"
  by (metis crypt_crypt)

end

locale etag_ops =
  keyed_digest "keyed_hash D" + stream_cipher "apply_keystream D" +
  b64: base64_codec "b64_enc D" "b64_dec D"
  for D :: "('t, 'i) etag_deps"
begin

lemma chacha20_Ok:
  "length k = 32 \<Longrightarrow> length nonce = 8 \<Longrightarrow> chacha20 D k nonce d = Ok (apply_keystream D k nonce d)"
  by (simp add: chacha20_def)

lemma length_pk_hash: "length (client_etag_hash (keyed_hash D) pk) = 32"
  by (simp add: client_etag_hash_def length_digest)

lemma generate_Ok:
  assumes "length nonce = 8" and "length (pk_hash e) = 32"
  shows "generate D nonce e =
     Ok (b64_enc D (nonce @ apply_keystream D (pk_hash e) nonce (to_be_bytes 8 (calc_hash D e))))"
  using assms by (simp add: generate_def chacha20_Ok length_crypt)

lemma from_Ok:
  assumes "b64_dec D s = Some buf" and "length buf = 16"
  shows "etag_from D pk s =
     Ok (from_be_bytes (apply_keystream D (client_etag_hash (keyed_hash D) pk) (take 8 buf) (drop 8 buf)))"
  using assms
  by (simp add: etag_from_def slice_simps chacha20_Ok length_pk_hash length_crypt)

lemma generate_from:
  assumes "length nonce = 8" and "generate D nonce (etag_new D rnd now1 now2 pk) = Ok s"
  shows "etag_from D pk s = Ok (calc_hash D (etag_new D rnd now1 now2 pk))"
proof -
  let ?e = "etag_new D rnd now1 now2 pk" and ?k = "client_etag_hash (keyed_hash D) pk"
  let ?c = "apply_keystream D ?k nonce (to_be_bytes 8 (calc_hash D ?e))"
  have k: "pk_hash ?e = ?k" by (simp add: etag_new_def)
  with assms(2) generate_Ok[OF assms(1), of ?e] have "s = b64_enc D (nonce @ ?c)"
    by (simp add: length_pk_hash)
  then have "b64_dec D s = Some (nonce @ ?c)" by (simp add: b64.dec_enc)
  with from_Ok[OF this, of pk] assms(1) show ?thesis
    by (simp add: length_crypt crypt_crypt be64.dec_enc)
qed

end


section \<open>An instance\<close>

text \<open>Exclusive or with a repeated key stream, and a digest that pads to 32 bytes.\<close>

definition xor_crypt :: "bytes \<Rightarrow> bytes \<Rightarrow> bytes \<Rightarrow> bytes" where
  "xor_crypt k n d =
     map (\<lambda>(i, b). b XOR (fold (XOR) k 0 + fold (XOR) n 0 + of_nat i)) (enumerate 0 d)"

definition pad_digest :: "bytes \<Rightarrow> bytes \<Rightarrow> bytes" where
  "pad_digest k d = take 32 (d @ k @ replicate 32 0)"

definition demo_etag_deps :: "(nat, nat) etag_deps" where
  "demo_etag_deps =
     \<lparr>keyed_hash = pad_digest, default_hash = (\<lambda>b. from_be_bytes (take 8 b)),
      debug_text = etag_random, apply_keystream = xor_crypt,
      b64_enc = b64_encode, b64_dec = b64_decode\<rparr>"

lemma xor_crypt_twice: "xor_crypt k n (xor_crypt k n d) = d"
  by (rule nth_equalityI)
    (simp_all add: xor_crypt_def nth_enumerate_eq xor.assoc)

interpretation xor_cipher: stream_cipher xor_crypt
  by unfold_locales (simp_all add: xor_crypt_twice, simp add: xor_crypt_def)

interpretation pad_digest: keyed_digest pad_digest
  by unfold_locales (simp add: pad_digest_def)

interpretation demo_etag: etag_ops demo_etag_deps
  by (intro etag_ops.intro)
    (simp_all add: demo_etag_deps_def pad_digest.keyed_digest_axioms xor_cipher.stream_cipher_axioms
      rfc4648.base64_codec_axioms)


section \<open>What the session key guarantees\<close>

text \<open>
  The server reads from the header of any connection of a client the client's
  own session hash, whatever nonce the header was made with.
\<close>

theorem etag_roundtrip:
  assumes "etag_ops D" and "length nonce = 8"
  shows "\<exists>s. generate D nonce (etag_new D rnd now1 now2 pk) = Ok s \<and>
     etag_from D pk s = Ok (calc_hash D (etag_new D rnd now1 now2 pk))"
proof -
  have "length (pk_hash (etag_new D rnd now1 now2 pk)) = 32"
    by (simp add: etag_new_def etag_ops.length_pk_hash [OF assms(1)])
  from etag_ops.generate_Ok [OF assms this] etag_ops.generate_from [OF assms] show ?thesis
    by blast
qed

theorem etag_roundtrip_witness:
  "\<exists>s. generate demo_etag_deps [1, 2, 3, 4, 5, 6, 7, 8] (etag_new demo_etag_deps [9, 8, 7, 6, 5, 4, 3, 2] 0 1 [3, 3]) = Ok s \<and>
     etag_from demo_etag_deps [3, 3] s = Ok 0x0908070605040302"
  using etag_roundtrip [OF demo_etag.etag_ops_axioms, of "[1, 2, 3, 4, 5, 6, 7, 8]"
      "[9, 8, 7, 6, 5, 4, 3, 2]" 0 1 "[3, 3]"]
  by (simp add: calc_hash_def etag_hash_def client_etag_hash_def demo_etag_deps_def etag_new_def
      pad_digest_def from_be_bytes_def)

text \<open>
  Property C26. The server never panics on the header a client sends. It is an error unless
  it is the base64 text of sixteen bytes; otherwise the result is the one hash that, with
  the nonce in the first eight bytes, encrypts to these sixteen bytes.
\<close>

theorem etag_from_outcome:
  assumes "etag_ops D"
  shows "case b64_dec D s of
     None \<Rightarrow> etag_from D pk s = Err NotBase64
   | Some buf \<Rightarrow>
       if length buf \<noteq> 16 then etag_from D pk s = Err WrongKeyLength
       else \<exists>h. etag_from D pk s = Ok h \<and>
         buf = take 8 buf @ apply_keystream D (client_etag_hash (keyed_hash D) pk) (take 8 buf)
                 (to_be_bytes 8 h)"
proof (cases "b64_dec D s")
  case None
  then show ?thesis by (simp add: etag_from_def)
next
  case (Some buf)
  show ?thesis
  proof (cases "length buf = 16")
    case False
    with Some show ?thesis by (simp add: etag_from_def)
  next
    case True
    let ?k = "client_etag_hash (keyed_hash D) pk"
    have sc: "stream_cipher (apply_keystream D)" using assms by (simp add: etag_ops_def)
    have "length (apply_keystream D ?k (take 8 buf) (drop 8 buf)) = 8"
      using True stream_cipher.length_crypt [OF sc] by simp
    with be64.enc_dec stream_cipher.crypt_crypt [OF sc] etag_ops.from_Ok [OF assms Some True, of pk]
      Some True show ?thesis by simp
  qed
qed

theorem etag_from_outcome_witness:
  "etag_from demo_etag_deps [1] ''AAAA'' = Err WrongKeyLength"
  using etag_from_outcome [OF demo_etag.etag_ops_axioms, where s = "''AAAA''" and pk = "[1]"]
  by (simp add: demo_etag_deps_def b64_value_def)

text \<open>
  Two headers of one client made with different nonces are different texts,
  so the header alone does not repeat between the connections of a session.
\<close>

theorem etag_headers_differ:
  assumes "etag_ops D" and "length n1 = 8" and "length n2 = 8" and "length (pk_hash e) = 32"
    and "generate D n1 e = Ok s1" and "generate D n2 e' = Ok s2" and "pk_hash e' = pk_hash e"
  shows "s1 = s2 \<longleftrightarrow> n1 = n2 \<and> calc_hash D e = calc_hash D e'"
proof -
  have b: "base64_codec (b64_enc D) (b64_dec D)" and sc: "stream_cipher (apply_keystream D)"
    using assms(1) by (simp_all add: etag_ops_def)
  let ?c = "\<lambda>n h. apply_keystream D (pk_hash e) n (to_be_bytes 8 h)"
  have "s1 = b64_enc D (n1 @ ?c n1 (calc_hash D e))" "s2 = b64_enc D (n2 @ ?c n2 (calc_hash D e'))"
    using assms etag_ops.generate_Ok [OF assms(1) assms(2,4)] etag_ops.generate_Ok [OF assms(1) assms(3), of e']
    by simp_all
  then show ?thesis
    using assms(2,3) stream_cipher.crypt_inj [OF sc]
    by (auto simp: base64_codec.enc_inj [OF b] be64.enc_inj)
qed

theorem etag_headers_differ_witness:
  "\<exists>s1 s2. generate demo_etag_deps (replicate 8 0) (etag_new demo_etag_deps [] 0 0 []) = Ok s1 \<and>
     generate demo_etag_deps (replicate 8 1) (etag_new demo_etag_deps [] 0 0 []) = Ok s2 \<and> s1 \<noteq> s2"
proof -
  let ?e = "etag_new demo_etag_deps [] 0 0 []"
  have pk: "length (pk_hash ?e) = 32"
    by (simp add: etag_new_def demo_etag.length_pk_hash)
  obtain s1 s2 where "generate demo_etag_deps (replicate 8 0) ?e = Ok s1"
    and "generate demo_etag_deps (replicate 8 1) ?e = Ok s2"
    using demo_etag.generate_Ok[OF _ pk] by simp
  with etag_headers_differ [OF demo_etag.etag_ops_axioms _ _ pk this refl] show ?thesis
    by (auto simp: eval_nat_numeral)
qed

end
