(* ===== verification/Sessions.thy ===== *)
theory Sessions
  imports Etag Mux
begin

text \<open>
  The accept loop of \<open>server\<close> in \<open>src/bin.todo/wsocks.rs\<close>: every accepted pipe is added to
  the multiplexer of the session its metadata names. The session map holds weak
  references, so the model has a heap of multiplexers with their strong counts. The loop,
  and the tasks that hold, clone and drop strong references, are a labelled step relation.
\<close>


section \<open>State and operations\<close>

text \<open>The loop is at its top or waits in \<open>accept_pipe\<close>; an error ends it.\<close>

datatype wpl_pc = WplTop | WplAccept | WplEnded

record 'm server =
  wpl_pc :: wpl_pc
  mux_sessions :: "u64 \<Rightarrow> nat option"
  strong_count :: "nat \<Rightarrow> nat"
  mux_heap :: "nat \<Rightarrow> 'm"
  next_mux :: nat
  session_loops :: "(u64 \<times> nat) list"

definition start_server :: "'m \<Rightarrow> 'm server" where
  "start_server m =
     \<lparr>wpl_pc = WplTop, mux_sessions = (\<lambda>h. None), strong_count = (\<lambda>i. 0), mux_heap = (\<lambda>i. m),
      next_mux = 0, session_loops = []\<rparr>"

text \<open>\<open>mux_sessions.retain(|k, v| v.strong_count() > 0)\<close>.\<close>

definition retain_sessions :: "'m server \<Rightarrow> 'm server" where
  "retain_sessions s =
     s\<lparr>mux_sessions := (\<lambda>h. case mux_sessions s h of
          None \<Rightarrow> None
        | Some i \<Rightarrow> if 0 < strong_count s i then Some i else None)\<rparr>"

text \<open>The closure of \<open>or_insert_with\<close>: the multiplexer is left with the one strong reference
  that the spawned \<open>server_session_loop\<close> holds.\<close>

definition new_session ::
  "('m, 'p, 'sk, 'pk) mux_api \<Rightarrow> 'sk \<Rightarrow> u64 \<Rightarrow> 'm server \<Rightarrow> 'm server" where
  "new_session M server_sk h s =
     (let i = next_mux s in
      s\<lparr>next_mux := i + 1, mux_heap := (mux_heap s)(i := mux_new M server_sk None),
        strong_count := (strong_count s)(i := 1), session_loops := session_loops s @ [(h, i)],
        mux_sessions := (mux_sessions s)(h \<mapsto> i)\<rparr>)"

text \<open>The rest of an iteration once \<open>accept_pipe\<close> has returned: the session, and the
  multiplexer the pipe was added to, if it was.\<close>

definition accept_session ::
  "('m, 'p, 'sk, 'pk) mux_api \<Rightarrow> ('t, 'i) etag_deps \<Rightarrow> 'sk \<Rightarrow> bytes \<Rightarrow> 'p \<Rightarrow> string \<Rightarrow> 'm server \<Rightarrow>
   (etag_error, u64 \<times> nat option \<times> 'm server) outcome" where
  "accept_session M D server_sk server_pk p peer_metadata s =
     and_then (etag_from D server_pk peer_metadata) (\<lambda>h.
     let s1 = (case mux_sessions s h of Some i \<Rightarrow> s | None \<Rightarrow> new_session M server_sk h s);
         i = the (mux_sessions s1 h) in
     if 0 < strong_count s1 i
     then Ok (h, Some i, s1\<lparr>wpl_pc := WplTop, mux_heap := (mux_heap s1)(i := add_pipe M (mux_heap s1 i) p)\<rparr>)
     else Ok (h, None, s1\<lparr>wpl_pc := WplTop\<rparr>))"

datatype 'p server_event =
    SRetain | SAccepted 'p u64 "nat option" | SBadPipe etag_error | SListenerGone
  | SArcCloned nat | SArcDropped nat | SPipesDropped nat

inductive server_step ::
  "('m, 'p, 'sk, 'pk) mux_api \<Rightarrow> ('t, 'i) etag_deps \<Rightarrow> 'sk \<Rightarrow> bytes \<Rightarrow>
   'm server \<Rightarrow> 'p server_event \<Rightarrow> 'm server \<Rightarrow> bool"
  for M D server_sk server_pk where
  server_retains:
    "wpl_pc s = WplTop \<Longrightarrow>
     server_step M D server_sk server_pk s SRetain ((retain_sessions s)\<lparr>wpl_pc := WplAccept\<rparr>)"
| server_accepts:
    "wpl_pc s = WplAccept \<Longrightarrow>
     accept_session M D server_sk server_pk p md s = Ok (h, target, s') \<Longrightarrow>
     server_step M D server_sk server_pk s (SAccepted p h target) s'"
| server_rejects:
    "wpl_pc s = WplAccept \<Longrightarrow>
     accept_session M D server_sk server_pk p md s = Err e \<Longrightarrow>
     server_step M D server_sk server_pk s (SBadPipe e) (s\<lparr>wpl_pc := WplEnded\<rparr>)"
| listener_gone:
    "wpl_pc s = WplAccept \<Longrightarrow>
     server_step M D server_sk server_pk s SListenerGone (s\<lparr>wpl_pc := WplEnded\<rparr>)"
| arc_cloned:
    "0 < strong_count s i \<Longrightarrow>
     server_step M D server_sk server_pk s (SArcCloned i)
       (s\<lparr>strong_count := (strong_count s)(i := strong_count s i + 1)\<rparr>)"
| arc_dropped:
    "0 < strong_count s i \<Longrightarrow>
     server_step M D server_sk server_pk s (SArcDropped i)
       (s\<lparr>strong_count := (strong_count s)(i := strong_count s i - 1)\<rparr>)"
| pipes_dropped:
    "0 < strong_count s i \<Longrightarrow>
     server_step M D server_sk server_pk s (SPipesDropped i)
       (s\<lparr>mux_heap := (mux_heap s)(i := retain_alive M peer_addr (mux_heap s i))\<rparr>)"

text \<open>Where the pipes went.\<close>

fun routed1 :: "'p server_event \<Rightarrow> ('p \<times> u64 \<times> nat option) list" where
  "routed1 (SAccepted p h target) = [(p, h, target)]"
| "routed1 _ = []"

definition routed :: "'p server_event list \<Rightarrow> ('p \<times> u64 \<times> nat option) list" where
  "routed evs = concat (map routed1 evs)"

lemma routed_simps [simp]: "routed [] = []" "routed (evs @ [e]) = routed evs @ routed1 e"
  by (simp_all add: routed_def)


section \<open>The invariant\<close>

definition server_ok ::
  "('m, 'p, 'sk, 'pk) mux_api \<Rightarrow> 'p server_event list \<Rightarrow> 'm server \<Rightarrow> bool" where
  "server_ok M evs s \<longleftrightarrow>
     (\<forall>h i. mux_sessions s h = Some i \<longrightarrow> (h, i) \<in> set (session_loops s)) \<and>
     map snd (session_loops s) = [0..<next_mux s] \<and>
     (\<forall>i. 0 < strong_count s i \<longrightarrow> i < next_mux s) \<and>
     (\<forall>h i. (h, i) \<in> set (session_loops s) \<longrightarrow> 0 < strong_count s i \<longrightarrow> mux_sessions s h = Some i) \<and>
     (\<forall>p h i. (p, h, Some i) \<in> set (routed evs) \<longrightarrow> (h, i) \<in> set (session_loops s)) \<and>
     (\<forall>i p. i < next_mux s \<longrightarrow> p \<in> set (iter_pipes M (mux_heap s i)) \<longrightarrow>
        (\<exists>h. (p, h, Some i) \<in> set (routed evs)))"

lemma server_okD:
  assumes "server_ok M evs s"
  shows "mux_sessions s h = Some i \<Longrightarrow> (h, i) \<in> set (session_loops s)"
    and "map snd (session_loops s) = [0..<next_mux s]"
    and "0 < strong_count s i \<Longrightarrow> i < next_mux s"
    and "(h, i) \<in> set (session_loops s) \<Longrightarrow> 0 < strong_count s i \<Longrightarrow> mux_sessions s h = Some i"
    and "(p, h, Some i) \<in> set (routed evs) \<Longrightarrow> (h, i) \<in> set (session_loops s)"
    and "i < next_mux s \<Longrightarrow> p \<in> set (iter_pipes M (mux_heap s i)) \<Longrightarrow>
       \<exists>h. (p, h, Some i) \<in> set (routed evs)"
    and "(h, i) \<in> set (session_loops s) \<Longrightarrow> i < next_mux s"
proof -
  note ok = assms [unfolded server_ok_def]
  show sn: "map snd (session_loops s) = [0..<next_mux s]" using ok by blast
  show "(h, i) \<in> set (session_loops s) \<Longrightarrow> i < next_mux s"
    using arg_cong[OF sn, of set] by force
  show "mux_sessions s h = Some i \<Longrightarrow> (h, i) \<in> set (session_loops s)" using ok by blast
  show "0 < strong_count s i \<Longrightarrow> i < next_mux s" using ok by blast
  show "(h, i) \<in> set (session_loops s) \<Longrightarrow> 0 < strong_count s i \<Longrightarrow> mux_sessions s h = Some i"
    using ok by blast
  show "(p, h, Some i) \<in> set (routed evs) \<Longrightarrow> (h, i) \<in> set (session_loops s)" using ok by blast
  show "i < next_mux s \<Longrightarrow> p \<in> set (iter_pipes M (mux_heap s i)) \<Longrightarrow>
      \<exists>h. (p, h, Some i) \<in> set (routed evs)" using ok by blast
qed

text \<open>What an operation that makes no session has to keep.\<close>

lemma server_ok_step:
  assumes ok: "server_ok M evs s"
    and "session_loops s' = session_loops s" and "next_mux s' = next_mux s"
    and "\<And>i. 0 < strong_count s' i \<Longrightarrow> 0 < strong_count s i"
    and "\<And>h i. mux_sessions s' h = Some i \<Longrightarrow> mux_sessions s h = Some i"
    and "\<And>h i. mux_sessions s h = Some i \<Longrightarrow> 0 < strong_count s' i \<Longrightarrow> mux_sessions s' h = Some i"
    and "\<And>i p. i < next_mux s \<Longrightarrow> p \<in> set (iter_pipes M (mux_heap s' i)) \<Longrightarrow>
       p \<in> set (iter_pipes M (mux_heap s i)) \<or> (\<exists>h. (p, h, Some i) \<in> set (routed1 e))"
    and "\<And>p h i. (p, h, Some i) \<in> set (routed1 e) \<Longrightarrow> mux_sessions s h = Some i"
  shows "server_ok M (evs @ [e]) s'"
  unfolding server_ok_def
proof (intro conjI allI impI)
  fix h i p
  show "mux_sessions s' h = Some i \<Longrightarrow> (h, i) \<in> set (session_loops s')"
    using assms(2,5) server_okD(1)[OF ok] by metis
  show "map snd (session_loops s') = [0..<next_mux s']"
    using assms(2,3) server_okD(2)[OF ok] by simp
  show "0 < strong_count s' i \<Longrightarrow> i < next_mux s'"
    using assms(3,4) server_okD(3)[OF ok] by metis
  show "(h, i) \<in> set (session_loops s') \<Longrightarrow> 0 < strong_count s' i \<Longrightarrow> mux_sessions s' h = Some i"
    using assms(2,4,6) server_okD(4)[OF ok] by metis
  show "(p, h, Some i) \<in> set (routed (evs @ [e])) \<Longrightarrow> (h, i) \<in> set (session_loops s')"
    using assms(2,8) server_okD(1,5)[OF ok] by auto
  show "i < next_mux s' \<Longrightarrow> p \<in> set (iter_pipes M (mux_heap s' i)) \<Longrightarrow>
      \<exists>h. (p, h, Some i) \<in> set (routed (evs @ [e]))"
    using assms(3,7) server_okD(6)[OF ok] by (simp) metis
qed

lemma session_of_mux:
  assumes "map snd xs = [0..<n]" and "(h, i) \<in> set xs" and "(h', i) \<in> set xs"
  shows "h = h'"
proof -
  have "distinct (map snd xs)" by (simp add: assms(1))
  with assms(2,3) show ?thesis by (metis Pair_inject distinct_map inj_onD snd_conv)
qed

context multiplex
begin

lemma start_server_ok: "server_ok M [] (start_server m)"
  by (simp add: server_ok_def start_server_def)

lemma accept_session_cases:
  assumes "etag_from D server_pk md = Ok h"
  shows "case mux_sessions s h of
     None \<Rightarrow> accept_session M D server_sk server_pk p md s =
       Ok (h, Some (next_mux s), (new_session M server_sk h s)\<lparr>wpl_pc := WplTop,
         mux_heap := (mux_heap s)(next_mux s := add_pipe M (mux_new M server_sk None) p)\<rparr>)
   | Some i \<Rightarrow> accept_session M D server_sk server_pk p md s =
       (if 0 < strong_count s i
        then Ok (h, Some i, s\<lparr>wpl_pc := WplTop, mux_heap := (mux_heap s)(i := add_pipe M (mux_heap s i) p)\<rparr>)
        else Ok (h, None, s\<lparr>wpl_pc := WplTop\<rparr>))"
  using assms by (simp add: accept_session_def new_session_def Let_def split: option.splits)

lemma new_session_ok:
  assumes ok: "server_ok M evs s" and none: "mux_sessions s h = None"
  shows "server_ok M (evs @ [SAccepted p h (Some (next_mux s))])
     ((new_session M server_sk h s)\<lparr>wpl_pc := WplTop,
        mux_heap := (mux_heap s)(next_mux s := add_pipe M (mux_new M server_sk None) p)\<rparr>)"
    (is "server_ok M ?evs ?s")
proof -
  have fields: "session_loops ?s = session_loops s @ [(h, next_mux s)]" "next_mux ?s = Suc (next_mux s)"
    "strong_count ?s = (strong_count s)(next_mux s := 1)" "mux_sessions ?s = (mux_sessions s)(h \<mapsto> next_mux s)"
    "mux_heap ?s = (mux_heap s)(next_mux s := add_pipe M (mux_new M server_sk None) p)"
    by (simp_all add: new_session_def Let_def)
  show ?thesis
    unfolding server_ok_def fields
  proof (intro conjI allI impI)
    fix k i q
    show "((mux_sessions s)(h \<mapsto> next_mux s)) k = Some i \<Longrightarrow>
        (k, i) \<in> set (session_loops s @ [(h, next_mux s)])"
      using server_okD(1)[OF ok, of k i] by (auto split: if_splits)
    show "map snd (session_loops s @ [(h, next_mux s)]) = [0..<Suc (next_mux s)]"
      using server_okD(2)[OF ok] by simp
    show "0 < ((strong_count s)(next_mux s := 1)) i \<Longrightarrow> i < Suc (next_mux s)"
      using server_okD(3)[OF ok, of i] by (auto split: if_splits)
    show "((mux_sessions s)(h \<mapsto> next_mux s)) k = Some i"
      if "(k, i) \<in> set (session_loops s @ [(h, next_mux s)])"
        and "0 < ((strong_count s)(next_mux s := 1)) i"
    proof (cases "i = next_mux s")
      case True
      with that(1) server_okD(7)[OF ok, of k i] show ?thesis by auto
    next
      case False
      with that have "mux_sessions s k = Some i" using server_okD(4)[OF ok, of k i] by auto
      with none show ?thesis by auto
    qed
    show "(q, k, Some i) \<in> set (routed ?evs) \<Longrightarrow> (k, i) \<in> set (session_loops s @ [(h, next_mux s)])"
      using server_okD(5)[OF ok, of q k i] by auto
    show "\<exists>k. (q, k, Some i) \<in> set (routed ?evs)"
      if "i < Suc (next_mux s)"
        and "q \<in> set (iter_pipes M (((mux_heap s)(next_mux s := add_pipe M (mux_new M server_sk None) p)) i))"
    proof (cases "i = next_mux s")
      case True
      with that(2) have "q = p" by (simp add: iter_new)
      with True show ?thesis by (intro exI [of _ h]) simp
    next
      case False
      with that server_okD(6)[OF ok, of i q] show ?thesis by auto
    qed
  qed
qed

lemma accept_session_ok:
  assumes ok: "server_ok M evs s"
    and acc: "accept_session M D server_sk server_pk p md s = Ok (h, target, s')"
  shows "server_ok M (evs @ [SAccepted p h target]) s'"
proof -
  have h: "etag_from D server_pk md = Ok h"
    using acc by (auto simp: accept_session_def outcome_simps Let_def split: if_splits)
  show ?thesis
  proof (cases "mux_sessions s h")
    case None
    with accept_session_cases[OF h, where s = s and p = p and server_sk = server_sk] acc new_session_ok[OF ok None, where p = p and server_sk = server_sk]
    show ?thesis by simp
  next
    case (Some i)
    with accept_session_cases[OF h, where s = s and p = p and server_sk = server_sk] acc show ?thesis
      by (intro server_ok_step[OF ok]) (auto split: if_splits)
  qed
qed

text \<open>Where an accepted pipe goes: to the one live multiplexer of its session, which is the
  session's old one unless that has died, and then to none.\<close>

lemma accepted_in_session:
  assumes ok: "server_ok M evs s" and h: "etag_from D server_pk md = Ok h"
  shows "\<exists>target s'. accept_session M D server_sk server_pk p md s = Ok (h, target, s') \<and>
     (case target of
        Some i \<Rightarrow> p \<in> set (iter_pipes M (mux_heap s' i)) \<and> mux_sessions s' h = Some i \<and> 0 < strong_count s' i \<and>
          (\<forall>h'. (h', i) \<in> set (session_loops s') \<longleftrightarrow> h' = h) \<and> (\<forall>j. mux_sessions s h = Some j \<longrightarrow> i = j)
      | None \<Rightarrow> \<exists>j. mux_sessions s h = Some j \<and> strong_count s j = 0)"
proof -
  note cases_h = accept_session_cases [OF h, where s = s and p = p and server_sk = server_sk]
  obtain target s' where acc: "accept_session M D server_sk server_pk p md s = Ok (h, target, s')"
    using cases_h by (cases "mux_sessions s h") (auto split: if_splits)
  have ok': "server_ok M (evs @ [SAccepted p h target]) s'" by (rule accept_session_ok [OF ok acc])
  have only: "(h', i) \<in> set (session_loops s') \<longleftrightarrow> h' = h" if "mux_sessions s' h = Some i" for h' i
    using server_okD(1) [OF ok' that] session_of_mux [OF server_okD(2) [OF ok']] by blast
  show ?thesis
  proof (cases "mux_sessions s h")
    case None
    with cases_h acc have "target = Some (next_mux s)" "mux_sessions s' h = Some (next_mux s)"
      "p \<in> set (iter_pipes M (mux_heap s' (next_mux s)))" "0 < strong_count s' (next_mux s)"
      by (auto simp: new_session_def Let_def)
    with acc None only show ?thesis by auto
  next
    case (Some j)
    with cases_h acc only show ?thesis by (auto split: if_splits)
  qed
qed

lemma server_step_ok:
  assumes "server_ok M evs s" and "server_step M D server_sk server_pk s e s'"
  shows "server_ok M (evs @ [e]) s'"
  using assms(2)
proof cases
  case server_retains
  then show ?thesis
    by (intro server_ok_step[OF assms(1)])
      (auto simp: retain_sessions_def split: option.splits if_splits)
next
  case (server_accepts p md h target)
  then show ?thesis using accept_session_ok[OF assms(1)] by simp
next
  case (pipes_dropped i peer_addr)
  then show ?thesis
    by (intro server_ok_step[OF assms(1)]) (auto simp: retain_alive_def split: if_splits)
qed (intro server_ok_step[OF assms(1)]; auto split: if_splits)+

end

sublocale multiplex \<subseteq> serving: history_invariant "server_step M D server_sk server_pk"
  "\<lambda>s. s = start_server m" "server_ok M"
  for D server_sk server_pk m
  by unfold_locales (auto intro: start_server_ok server_step_ok)

context multiplex
begin

lemma run_server:
  "run (server_step M D server_sk server_pk) (start_server m) evs s \<Longrightarrow> server_ok M evs s"
  by (rule serving.inv_run) auto

end

section \<open>What the accept loop guarantees\<close>

text \<open>A run in which the session of a client ends while the loop waits for its next pipe.\<close>

lemma returning_client_run:
  assumes M: "multiplex M" and h: "etag_from D server_pk md = Ok h"
  shows "\<exists>s. run (server_step M D server_sk server_pk) (start_server m)
      [SRetain, SAccepted p h (Some 0), SRetain, SArcDropped 0, SAccepted q h None] s \<and>
     iter_pipes M (mux_heap s 0) = [p] \<and> mux_sessions s h = Some 0"
proof -
  let ?step = "server_step M D server_sk server_pk"
  define s1 where "s1 = (retain_sessions (start_server m))\<lparr>wpl_pc := WplAccept\<rparr>"
  define s2 where "s2 = (new_session M server_sk h s1)\<lparr>wpl_pc := WplTop,
     mux_heap := (mux_heap s1)(0 := add_pipe M (mux_new M server_sk None) p)\<rparr>"
  define s3 where "s3 = (retain_sessions s2)\<lparr>wpl_pc := WplAccept\<rparr>"
  define s4 where "s4 = s3\<lparr>strong_count := (strong_count s3)(0 := strong_count s3 0 - 1)\<rparr>"
  define s5 where "s5 = s4\<lparr>wpl_pc := WplTop\<rparr>"
  have f1: "wpl_pc s1 = WplAccept" "mux_sessions s1 h = None" "next_mux s1 = 0"
    by (simp_all add: s1_def start_server_def retain_sessions_def)
  have f2: "wpl_pc s2 = WplTop" "mux_sessions s2 h = Some 0" "strong_count s2 0 = 1"
    "mux_heap s2 0 = add_pipe M (mux_new M server_sk None) p"
    using f1 by (simp_all add: s2_def new_session_def Let_def)
  have f3: "wpl_pc s3 = WplAccept" "mux_sessions s3 h = Some 0" "strong_count s3 0 = 1"
    "mux_heap s3 0 = mux_heap s2 0"
    using f2 by (simp_all add: s3_def retain_sessions_def)
  have f4: "wpl_pc s4 = WplAccept" "mux_sessions s4 h = Some 0" "strong_count s4 0 = 0"
    "mux_heap s4 0 = mux_heap s2 0"
    using f3 by (simp_all add: s4_def)
  have "?step (start_server m) SRetain s1"
    unfolding s1_def by (rule server_retains) (simp add: start_server_def)
  moreover have "?step s1 (SAccepted p h (Some 0)) s2"
  proof (rule server_accepts)
    show "accept_session M D server_sk server_pk p md s1 = Ok (h, Some 0, s2)"
      using multiplex.accept_session_cases [OF M h, where s = s1 and p = p and server_sk = server_sk] f1
      by (simp add: s2_def)
  qed (rule f1)
  moreover have "?step s2 SRetain s3"
    unfolding s3_def by (rule server_retains) (rule f2)
  moreover have "?step s3 (SArcDropped 0) s4"
    unfolding s4_def by (rule arc_dropped) (simp add: f3)
  moreover have "?step s4 (SAccepted q h None) s5"
  proof (rule server_accepts)
    show "accept_session M D server_sk server_pk q md s4 = Ok (h, None, s5)"
      using multiplex.accept_session_cases [OF M h, where s = s4 and p = q and server_sk = server_sk] f4
      by (simp add: s5_def)
  qed (rule f4)
  ultimately have "run ?step (start_server m)
      [SRetain, SAccepted p h (Some 0), SRetain, SArcDropped 0, SAccepted q h None] s5"
    by (meson run_cons run_start)
  moreover have "iter_pipes M (mux_heap s5 0) = [p]" "mux_sessions s5 h = Some 0"
    using f2 f4 multiplex.iter_new_add [OF M] by (simp_all add: s5_def)
  ultimately show ?thesis by blast
qed

lemma demo_etag_from:
  "etag_from demo_etag_deps [1] demo_key16 = Ok (from_be_bytes (xor_crypt (client_etag_hash pad_digest [1]) (replicate 8 0) (replicate 8 0)))"
  if "demo_key16 = b64_encode (replicate 16 0)" for demo_key16
proof -
  have "b64_dec demo_etag_deps demo_key16 = Some (replicate 16 0)"
    using that by (simp add: demo_etag_deps_def b64_decode_encode)
  from demo_etag.from_Ok [OF this, of "[1]"] show ?thesis
    by (simp add: demo_etag_deps_def)
qed

text \<open>
  Property C27. Sessions do not mix. In every interleaving of the accept loop with the tasks
  that hold multiplexers: pipes that were added to the same multiplexer named the same
  session; no two live multiplexers serve one session; and every pipe in a multiplexer was
  accepted for its session.
\<close>

theorem sessions_are_separate:
  assumes "multiplex M" and "run (server_step M D server_sk server_pk) (start_server m) evs s"
  shows "(\<forall>p h p' h' i. (p, h, Some i) \<in> set (routed evs) \<longrightarrow> (p', h', Some i) \<in> set (routed evs) \<longrightarrow>
        h = h') \<and>
     (\<forall>p h i p' i'. (p, h, Some i) \<in> set (routed evs) \<longrightarrow> (p', h, Some i') \<in> set (routed evs) \<longrightarrow>
        0 < strong_count s i \<longrightarrow> 0 < strong_count s i' \<longrightarrow> i = i') \<and>
     (\<forall>i p. i < next_mux s \<longrightarrow> p \<in> set (iter_pipes M (mux_heap s i)) \<longrightarrow>
        (\<exists>h. (p, h, Some i) \<in> set (routed evs)))"
proof -
  have ok: "server_ok M evs s" by (rule multiplex.run_server [OF assms])
  note d = server_okD [OF ok]
  show ?thesis
  proof (intro conjI allI impI)
    fix p h p' h' i
    show "(p, h, Some i) \<in> set (routed evs) \<Longrightarrow> (p', h', Some i) \<in> set (routed evs) \<Longrightarrow> h = h'"
      using session_of_mux [OF d(2)] d(5) by blast
  next
    fix p h i p' i'
    assume "(p, h, Some i) \<in> set (routed evs)" "(p', h, Some i') \<in> set (routed evs)"
      and "0 < strong_count s i" "0 < strong_count s i'"
    with d(4,5) have "mux_sessions s h = Some i" "mux_sessions s h = Some i'" by blast+
    then show "i = i'" by simp
  next
    fix i p
    show "i < next_mux s \<Longrightarrow> p \<in> set (iter_pipes M (mux_heap s i)) \<Longrightarrow>
        \<exists>h. (p, h, Some i) \<in> set (routed evs)"
      by (rule d(6))
  qed
qed

theorem sessions_are_separate_witness:
  "\<exists>h s. run (server_step list_mux demo_etag_deps () [1]) (start_server [])
      [SRetain, SAccepted ''p'' h (Some 0), SRetain, SArcDropped 0, SAccepted ''q'' h None] s \<and>
     (\<forall>p \<in> set (iter_pipes list_mux (mux_heap s 0)). p = ''p'')"
proof -
  obtain h where h: "etag_from demo_etag_deps [1] (b64_encode (replicate 16 0)) = Ok h"
    using demo_etag_from by blast
  obtain s where r: "run (server_step list_mux demo_etag_deps () [1]) (start_server [])
      [SRetain, SAccepted ''p'' h (Some 0), SRetain, SArcDropped 0, SAccepted ''q'' h None] s"
    and "mux_sessions s h = Some 0"
    using returning_client_run [OF list_mux.multiplex_axioms h, where p = "''p''" and q = "''q''"
        and m = "[]" and server_sk = "()"] by blast
  have "0 < next_mux s"
    using server_okD(1,7) [OF list_mux.run_server [OF r]] \<open>mux_sessions s h = Some 0\<close> by blast
  with sessions_are_separate [OF list_mux.multiplex_axioms r] have
    "\<forall>p \<in> set (iter_pipes list_mux (mux_heap s 0)). p = ''p''"
    by (auto simp: routed_def)
  with r show ?thesis by blast
qed

text \<open>
  An accepted pipe is added to the multiplexer of its session, which is made
  if the session is unknown. There is one exception: if the map still has the session but
  its multiplexer is gone, the pipe is dropped and nothing else changes.
\<close>

theorem accept_session_outcome:
  assumes "multiplex M" and "etag_from D server_pk md = Ok h"
    and "accept_session M D server_sk server_pk p md s = Ok r"
  shows "case mux_sessions s h of
     None \<Rightarrow> \<exists>s'. r = (h, Some (next_mux s), s') \<and> mux_sessions s' h = Some (next_mux s) \<and>
       strong_count s' (next_mux s) = 1 \<and>
       iter_pipes M (mux_heap s' (next_mux s)) = [p] \<and>
       session_loops s' = session_loops s @ [(h, next_mux s)]
   | Some i \<Rightarrow>
       if 0 < strong_count s i
       then \<exists>s'. r = (h, Some i, s') \<and> mux_sessions s' = mux_sessions s \<and>
         mset (iter_pipes M (mux_heap s' i)) = add_mset p (mset (iter_pipes M (mux_heap s i)))
       else r = (h, None, s\<lparr>wpl_pc := WplTop\<rparr>)"
  using multiplex.accept_session_cases [OF assms(1,2), where s = s and p = p and server_sk = server_sk]
    assms(3) multiplex.iter_add [OF assms(1)] multiplex.iter_new_add [OF assms(1)]
  by (auto simp: new_session_def Let_def split: option.splits if_splits)

theorem accept_session_outcome_witness:
  "\<exists>h s. accept_session list_mux demo_etag_deps () [1] ''p'' (b64_encode (replicate 16 0)) (start_server []) =
     Ok (h, Some 0, s) \<and> session_loops s = [(h, 0)]"
proof -
  obtain h where h: "etag_from demo_etag_deps [1] (b64_encode (replicate 16 0)) = Ok h"
    using demo_etag_from by blast
  obtain r where r: "accept_session list_mux demo_etag_deps () [1] ''p'' (b64_encode (replicate 16 0))
      (start_server []) = Ok r"
    by (simp add: accept_session_def h new_session_def start_server_def Let_def)
  from accept_session_outcome [OF list_mux.multiplex_axioms h r] r show ?thesis
    by (auto simp: start_server_def)
qed

text \<open>
  The exception happens: when the only reference to a session's multiplexer
  is dropped while the loop waits, the next pipe of the same client is accepted and lost.
  The dead entry is swept only after a pipe has arrived.
\<close>

theorem returning_client_loses_pipe:
  assumes "multiplex M" and "etag_from D server_pk md = Ok h"
  shows "\<exists>s. run (server_step M D server_sk server_pk) (start_server m)
      [SRetain, SAccepted p h (Some 0), SRetain, SArcDropped 0, SAccepted q h None] s \<and>
     iter_pipes M (mux_heap s 0) = [p] \<and> mux_sessions s h = Some 0"
  by (rule returning_client_run [OF assms])

theorem returning_client_loses_pipe_witness:
  "\<exists>h s. run (server_step list_mux demo_etag_deps () [1]) (start_server [])
      [SRetain, SAccepted ''p'' h (Some 0), SRetain, SArcDropped 0, SAccepted ''q'' h None] s"
proof -
  obtain h where h: "etag_from demo_etag_deps [1] (b64_encode (replicate 16 0)) = Ok h"
    using demo_etag_from by blast
  from returning_client_loses_pipe [OF list_mux.multiplex_axioms h, where p = "''p''" and q = "''q''"
      and m = "[]" and server_sk = "()"] show ?thesis by blast
qed

end
