(* ===== verification/KeyFile.thy ===== *)
theory KeyFile
  imports Etag
begin

text \<open>
  The first part of \<open>server\<close> in \<open>src/bin.todo/wsocks.rs\<close>: the loop that obtains the server's
  long-term secret key from its key file, or makes the file. The file system and the
  conversion to a secret key are dependencies, with the contract \<open>key_store\<close>.
\<close>

text \<open>The operations on the one file the loop uses; reading may change the environment too,
  so that an error can be a passing one.\<close>

record ('fs, 'sk) key_deps =
  fs_read :: "'fs \<Rightarrow> (io_error_kind + bytes) \<times> 'fs"
  fs_write :: "'fs \<Rightarrow> bytes \<Rightarrow> (io_error_kind + unit) \<times> 'fs"
  sk_digest :: "bytes \<Rightarrow> bytes \<Rightarrow> bytes"
  sk_from_bytes :: "bytes \<Rightarrow> 'sk"

datatype key_error = NoLongTermKey | CannotWriteKey io_error_kind

text \<open>\<open>pre_sk i\<close> is the fresh random buffer of iteration \<open>i\<close>.\<close>

function key_loop ::
  "('fs, 'sk) key_deps \<Rightarrow> (nat \<Rightarrow> bytes) \<Rightarrow> nat \<Rightarrow> 'fs \<Rightarrow> (key_error, 'sk) outcome \<times> 'fs" where
  "key_loop K pre_sk i fs =
     (let i = i + 1 in
      if 10 \<le> i then (Err NoLongTermKey, fs)
      else
        (case fs_read K fs of
           (Inr data, fs1) \<Rightarrow> (Ok (sk_from_bytes K (server_sk_hash (sk_digest K) data)), fs1)
         | (Inl e, fs1) \<Rightarrow>
             (case fs_write K fs1 (pre_sk i) of
                (Inl e', fs2) \<Rightarrow> (Err (CannotWriteKey e'), fs2)
              | (Inr u, fs2) \<Rightarrow> key_loop K pre_sk i fs2)))"
  by pat_completeness auto

termination
  by (relation "measure (\<lambda>(K, pre_sk, i, fs). 10 - i)") auto

declare key_loop.simps [simp del]

definition server_key ::
  "('fs, 'sk) key_deps \<Rightarrow> (nat \<Rightarrow> bytes) \<Rightarrow> 'fs \<Rightarrow> (key_error, 'sk) outcome \<times> 'fs" where
  "server_key K pre_sk fs = key_loop K pre_sk 0 fs"

text \<open>What was written can be read, and reading a file that is there changes nothing.\<close>

locale key_store =
  fixes K :: "('fs, 'sk) key_deps"
  assumes read_written: "fs_write K fs d = (Inr (), fs') \<Longrightarrow> fs_read K fs' = (Inr d, fs')"
    and read_again: "fs_read K fs = (Inr d, fs') \<Longrightarrow> fs_read K fs' = (Inr d, fs')"
begin

abbreviation sk_of :: "bytes \<Rightarrow> 'sk" where
  "sk_of d \<equiv> sk_from_bytes K (server_sk_hash (sk_digest K) d)"

lemma key_loop_present:
  "i < 9 \<Longrightarrow> fs_read K fs = (Inr d, fs') \<Longrightarrow> key_loop K pre_sk i fs = (Ok (sk_of d), fs')"
  by (simp add: key_loop.simps)

lemma server_key_cases:
  "server_key K pre_sk fs =
     (case fs_read K fs of
        (Inr d, fs1) \<Rightarrow> (Ok (sk_of d), fs1)
      | (Inl e, fs1) \<Rightarrow>
          (case fs_write K fs1 (pre_sk 1) of
             (Inl e', fs2) \<Rightarrow> (Err (CannotWriteKey e'), fs2)
           | (Inr u, fs2) \<Rightarrow> (Ok (sk_of (pre_sk 1)), fs2)))"
  unfolding server_key_def
  by (subst key_loop.simps)
    (auto simp: Let_def key_loop_present read_written split: prod.splits sum.splits)

lemma server_key_stored:
  assumes "server_key K pre_sk fs = (Ok sk, fs')"
  shows "\<exists>d. fs_read K fs' = (Inr d, fs') \<and> sk = sk_of d"
  using assms
  by (auto simp: server_key_cases dest: read_written read_again split: prod.splits sum.splits)

lemma server_key_restart:
  assumes "server_key K pre_sk fs = (Ok sk, fs')"
  shows "server_key K pre_sk' fs' = (Ok sk, fs')"
  using server_key_stored[OF assms] by (auto simp: server_key_cases)

end

text \<open>An instance: a file that is there or not, and whose next read may fail once.\<close>

record demo_disk =
  content :: "bytes option"
  hiccup :: bool

definition demo_key_deps :: "(demo_disk, bytes) key_deps" where
  "demo_key_deps =
     \<lparr>fs_read = (\<lambda>fs. if hiccup fs then (Inl Interrupted, fs\<lparr>hiccup := False\<rparr>)
        else case content fs of None \<Rightarrow> (Inl NotFound, fs) | Some d \<Rightarrow> (Inr d, fs)),
      fs_write = (\<lambda>fs d. (Inr (), fs\<lparr>content := Some d, hiccup := False\<rparr>)),
      sk_digest = pad_digest, sk_from_bytes = id\<rparr>"

interpretation demo_disk: key_store demo_key_deps
  by unfold_locales (auto simp: demo_key_deps_def split: if_splits option.splits)


section \<open>What the loop guarantees\<close>

text \<open>
  Property C35. A server that has started once starts again with the same key, whatever
  random bytes it draws, and leaves the key file as it is.
\<close>

theorem server_key_survives_restart:
  assumes "key_store K" and "server_key K pre_sk fs = (Ok sk, fs')"
  shows "server_key K pre_sk' fs' = (Ok sk, fs')"
  by (rule key_store.server_key_restart [OF assms])

theorem server_key_survives_restart_witness:
  "server_key demo_key_deps (\<lambda>i. [2]) \<lparr>content = Some [1], hiccup = False\<rparr> =
     (Ok (server_sk_hash pad_digest [1]), \<lparr>content = Some [1], hiccup = False\<rparr>)"
proof -
  have "server_key demo_key_deps (\<lambda>i. [1]) \<lparr>content = None, hiccup = False\<rparr> =
      (Ok (server_sk_hash pad_digest [1]), \<lparr>content = Some [1], hiccup = False\<rparr>)"
    by (simp add: demo_disk.server_key_cases) (simp add: demo_key_deps_def)
  from server_key_survives_restart [OF demo_disk.key_store_axioms this] show ?thesis .
qed

text \<open>
  Any error of the first read, not only that the file is missing, replaces
  the file by fresh random bytes: the server goes on with a new key, and what the file held
  is gone.
\<close>

theorem read_error_replaces_key:
  assumes "key_store K" and "fs_read K fs = (Inl e, fs1)" and "fs_write K fs1 (pre_sk 1) = (Inr (), fs2)"
  shows "server_key K pre_sk fs = (Ok (sk_from_bytes K (server_sk_hash (sk_digest K) (pre_sk 1))), fs2) \<and>
     fs_read K fs2 = (Inr (pre_sk 1), fs2)"
  using assms(2,3)
  by (simp add: key_store.server_key_cases [OF assms(1)] key_store.read_written [OF assms(1)])

theorem read_error_replaces_key_witness:
  "server_key demo_key_deps (\<lambda>i. [2]) \<lparr>content = Some [1], hiccup = True\<rparr> =
     (Ok (server_sk_hash pad_digest [2]), \<lparr>content = Some [2], hiccup = False\<rparr>)"
  using read_error_replaces_key [OF demo_disk.key_store_axioms,
      of "\<lparr>content = Some [1], hiccup = True\<rparr>" Interrupted "\<lparr>content = Some [1], hiccup = False\<rparr>"
        "\<lambda>i. [2]" "\<lparr>content = Some [2], hiccup = False\<rparr>"]
  by (simp add: demo_key_deps_def)

text \<open>
  The loop ends: when the file can be written but never read, it gives up
  after nine rounds, each of which has overwritten the file once.
\<close>

theorem server_key_gives_up:
  assumes "\<And>fs. \<exists>e. fs_read K fs = (Inl e, fs)" and "\<And>fs d. fs_write K fs d = (Inr (), write1 fs d)"
  shows "server_key K pre_sk fs = (Err NoLongTermKey, foldl write1 fs (map pre_sk [1..<10]))"
proof -
  have "key_loop K pre_sk i fs = (Err NoLongTermKey, foldl write1 fs (map pre_sk [Suc i..<10]))" for i fs
  proof (induction "9 - i" arbitrary: i fs)
    case 0
    then show ?case by (simp add: key_loop.simps)
  next
    case (Suc n)
    obtain e where "fs_read K fs = (Inl e, fs)" using assms(1) by blast
    moreover have "i < 9" using Suc.hyps(2) by simp
    ultimately show ?case using Suc assms(2)
      by (subst key_loop.simps) (simp add: Let_def upt_conv_Cons)
  qed
  then show ?thesis by (simp add: server_key_def)
qed

theorem server_key_gives_up_witness:
  "server_key (demo_key_deps\<lparr>fs_read := \<lambda>fs. (Inl PermissionDenied, fs)\<rparr>) (\<lambda>i. [of_nat i])
     \<lparr>content = None, hiccup = False\<rparr> = (Err NoLongTermKey, \<lparr>content = Some [9], hiccup = False\<rparr>)"
  using server_key_gives_up
    [of "demo_key_deps\<lparr>fs_read := \<lambda>fs. (Inl PermissionDenied, fs)\<rparr>"
      "\<lambda>fs d. fs\<lparr>content := Some d, hiccup := False\<rparr>" "\<lambda>i. [of_nat i]" "\<lparr>content = None, hiccup = False\<rparr>"]
  by (simp add: demo_key_deps_def upt_rec)

end
