(* ===== verification/Client.thy ===== *)
theory Client
  imports Etag Mux
begin

text \<open>
  The main task of the wsocks client (\<open>client\<close> in \<open>src/bin.todo/wsocks.rs\<close>): the command
  line options, the preparations that can fail, and the loop that keeps pipes to the server
  open. Connecting, binding and the multiplexer are dependencies.
\<close>


section \<open>Options and preparations\<close>

record ('u, 'a) client_opt =
  remote_url :: 'u
  remote_public_key :: string
  remote_pipes_max :: u8
  local_socks_listen :: 'a
  local_http_listen :: 'a

record 'a server_opt =
  listen :: 'a
  key_path :: string
  http_path :: "string option"

datatype ('u, 'a) opt = OptClient "('u, 'a) client_opt" | OptServer "'a server_opt" | OptInfo

datatype 'h client_error = BadPublicKey 'h | CannotBind io_error_kind

text \<open>Everything before the pipe manager runs: the key, the session key, the multiplexer and
  the two listening sockets. \<open>etag_of\<close> draws the session key for the server's public key.\<close>

definition client_setup ::
  "(string \<Rightarrow> nat \<Rightarrow> 'h + bytes) \<Rightarrow> ('a \<Rightarrow> io_error_kind + 'l) \<Rightarrow> ('m, 'p, 'sk, bytes) mux_api \<Rightarrow> 'sk \<Rightarrow>
   (bytes \<Rightarrow> 'e) \<Rightarrow> ('u, 'a) client_opt \<Rightarrow> ('h client_error, nat \<times> 'e \<times> 'm \<times> 'l \<times> 'l) outcome" where
  "client_setup hex_decode bind M client_sk etag_of copt =
     and_then (map_err BadPublicKey (hex2key hex_decode (remote_public_key copt))) (\<lambda>pubkey.
     let etag = etag_of pubkey;
         max_conn = unat (remote_pipes_max copt);
         mux = mux_new M client_sk (Some pubkey) in
     and_then (map_err CannotBind (of_result (bind (local_socks_listen copt)))) (\<lambda>socksd.
     and_then (map_err CannotBind (of_result (bind (local_http_listen copt)))) (\<lambda>httpd.
     Ok (max_conn, etag, mux, socksd, httpd))))"


section \<open>The pipe manager\<close>

text \<open>One round: the seconds it sleeps, and the multiplexer. \<open>connected\<close> is what
  \<open>ObfsWsPipe::connect\<close> returns, if it is called.\<close>

definition client_pipemgr_turn ::
  "('m, 'p, 'sk, 'pk) mux_api \<Rightarrow> nat \<Rightarrow> ('p \<Rightarrow> string) \<times> ('e, 'p) outcome \<Rightarrow> 'm \<Rightarrow>
   ('e, nat \<times> 'm) outcome" where
  "client_pipemgr_turn M max_conn env mux =
     (let m = retain_alive M (fst env) mux in
      if max_conn \<le> length (iter_pipes M m) then Ok (1, m)
      else
        (case snd env of
           Ok p \<Rightarrow> Ok (0, add_pipe M m p)
         | Err e \<Rightarrow> Ok (3, m)
         | Panic s \<Rightarrow> Panic s))"

fun client_pipemgr ::
  "('m, 'p, 'sk, 'pk) mux_api \<Rightarrow> nat \<Rightarrow> (('p \<Rightarrow> string) \<times> ('e, 'p) outcome) list \<Rightarrow> 'm \<Rightarrow>
   ('e, 'm) outcome" where
  "client_pipemgr M max_conn [] m = Ok m"
| "client_pipemgr M max_conn (t # ts) m =
     and_then (client_pipemgr_turn M max_conn t m) (\<lambda>(sleep, m'). client_pipemgr M max_conn ts m')"

context multiplex
begin

lemma pipemgr_turn_bound:
  assumes "client_pipemgr_turn M n t m = Ok (sleep, m')" and "length (iter_pipes M m) \<le> n"
  shows "length (iter_pipes M m') \<le> n"
proof -
  have "length (iter_pipes M (retain_alive M (fst t) m)) \<le> n"
    using assms(2) length_retain_le[of "\<lambda>p. 0 < length (fst t p)" m] by (simp add: retain_alive_def)
  with assms(1) show ?thesis
    by (auto simp: client_pipemgr_turn_def Let_def split: if_splits outcome.splits)
qed

lemma pipemgr_bound:
  assumes "client_pipemgr M n ts m = Ok m'" and "length (iter_pipes M m) \<le> n"
  shows "length (iter_pipes M m') \<le> n"
  using assms
proof (induction ts arbitrary: m)
  case (Cons t ts)
  then show ?case by (auto simp: outcome_simps dest: pipemgr_turn_bound)
qed simp

end


section \<open>What the client guarantees\<close>

text \<open>
  The client never has more pipes than \<open>--remote-pipes-max\<close>, however its
  connections come and go.
\<close>

theorem client_pipes_bounded:
  assumes "multiplex M"
    and "client_setup hex_decode bind M client_sk etag_of copt = Ok (max_conn, etag, mux, socksd, httpd)"
    and "client_pipemgr M max_conn ts mux = Ok mux'"
  shows "length (iter_pipes M mux') \<le> unat (remote_pipes_max copt)"
proof -
  from assms(2) obtain pk where "mux = mux_new M client_sk (Some pk)" "max_conn = unat (remote_pipes_max copt)"
    by (auto simp: client_setup_def outcome_simps Let_def)
  with multiplex.pipemgr_bound [OF assms(1,3)] multiplex.iter_new [OF assms(1)] show ?thesis
    by simp
qed

definition demo_client_opt :: "(string, nat) client_opt" where
  "demo_client_opt =
     \<lparr>remote_url = ''wss://h'', remote_public_key = ''00'', remote_pipes_max = 2,
      local_socks_listen = 1989, local_http_listen = 1986\<rparr>"

definition demo_client_mux :: "(string list, string, unit, bytes) mux_api" where
  "demo_client_mux =
     \<lparr>mux_new = (\<lambda>sk pk. []), mux_retain = filter, iter_pipes = id, add_pipe = (\<lambda>m p. p # m)\<rparr>"

interpretation demo_client_mux: multiplex demo_client_mux
  by unfold_locales (simp_all add: demo_client_mux_def)

theorem client_pipes_bounded_witness:
  "\<exists>mux'. client_pipemgr demo_client_mux 2
      [(id, Ok ''a''), (id, Ok ''b''), (id, Ok ''c''), (\<lambda>p. [], Err ()), (id, Ok ''d'')] [] = Ok mux' \<and>
     length (iter_pipes demo_client_mux mux') \<le> 2"
proof -
  let ?ts = "[(id, Ok ''a''), (id, Ok ''b''), (id, Ok ''c''), (\<lambda>p. [], Err ()), (id, Ok ''d'')]"
  have prep: "client_setup (\<lambda>h n. Inr (replicate n 0) :: unit + bytes) (\<lambda>a. Inr ()) demo_client_mux ()
      (\<lambda>pk. ()) demo_client_opt = Ok (2, (), [], (), ())"
    by (simp add: client_setup_def hex2key_def hex2bytes_def demo_client_opt_def demo_client_mux_def)
  obtain mux' where run: "client_pipemgr demo_client_mux 2 ?ts [] = Ok mux'"
    by (simp add: client_pipemgr_turn_def retain_alive_def demo_client_mux_def)
  have "length (iter_pipes demo_client_mux mux') \<le> unat (remote_pipes_max demo_client_opt)"
    by (rule client_pipes_bounded [OF demo_client_mux.multiplex_axioms prep run])
  with run show ?thesis by (simp add: demo_client_opt_def)
qed

text \<open>
  A round forgets exactly the pipes whose address is gone. It connects only
  if fewer than the limit are left: then a new pipe is added at once, and a failure waits
  three seconds and changes nothing.
\<close>

theorem client_pipemgr_turn_outcome:
  assumes "multiplex M"
  shows "case client_pipemgr_turn M n (addr, connected) m of
     Ok (sleep, m') \<Rightarrow>
       (let live = filter_mset (\<lambda>p. addr p \<noteq> []) (mset (iter_pipes M m)) in
        if n \<le> size live then sleep = 1 \<and> mset (iter_pipes M m') = live
        else (\<exists>p. connected = Ok p \<and> sleep = 0 \<and> mset (iter_pipes M m') = add_mset p live) \<or>
          (\<exists>e. connected = Err e \<and> sleep = 3 \<and> mset (iter_pipes M m') = live))
   | Err e \<Rightarrow> False
   | Panic s \<Rightarrow> connected = Panic s"
proof -
  let ?m = "retain_alive M addr m" and ?live = "filter_mset (\<lambda>p. addr p \<noteq> []) (mset (iter_pipes M m))"
  have live: "mset (iter_pipes M ?m) = ?live"
    by (simp add: retain_alive_def multiplex.iter_retain [OF assms])
  then have size: "size ?live = length (iter_pipes M ?m)" by (metis size_mset)
  show ?thesis
    using live multiplex.iter_add [OF assms, of ?m]
    by (cases connected) (auto simp: client_pipemgr_turn_def Let_def size)
qed

theorem client_pipemgr_turn_outcome_witness:
  "client_pipemgr_turn list_mux 2 (id, (Ok ''c'' :: (unit, string) outcome)) [''a'', []] = Ok (0, [''c'', ''a''])"
  using client_pipemgr_turn_outcome [OF list_mux.multiplex_axioms, where n = 2 and addr = id
      and connected = "Ok ''c'' :: (unit, string) outcome" and m = "[''a'', []]"]
  by (simp add: client_pipemgr_turn_def retain_alive_def list_mux_def)

end
