(* ===== verification/EnvInfo.thy ===== *)
theory EnvInfo
  imports Client Text
begin

text \<open>
  The report about the build (\<open>cfg_info\<close>, \<open>build_info\<close>, \<open>env_info\<close> in
  \<open>src/bin.todo/wsocks.rs\<close>), as a JSON value, and the dispatch of \<open>async_main\<close>. What
  \<open>cfg!\<close> and \<open>option_env!\<close> evaluate to is fixed at compile time: \<open>cfg key value\<close>, \<open>flag name\<close>
  and \<open>var name\<close>.
\<close>

datatype json = JNull | JBool bool | JStr string | JObj "(string \<times> json) list"

definition cfg_values :: "(string \<Rightarrow> string \<Rightarrow> bool) \<Rightarrow> string \<Rightarrow> string list \<Rightarrow> json" where
  "cfg_values cfg key vals = JStr (join '', '' (filter (cfg key) vals))"

text \<open>The keys of the report with the values that are tried, in the order of the code.\<close>

definition cfg_keys :: "(string \<times> string list) list" where
  "cfg_keys =
     [(''target_arch'', [''x86'', ''x86_64'', ''mips'', ''powerpc'', ''powerpc64'', ''arm'', ''aarch64'']),
      (''target_feature'', [''avx'', ''avx2'', ''crt-static'', ''rdrand'', ''sse'', ''sse2'', ''sse4.1'']),
      (''target_os'', [''linux'', ''windows'', ''macos'', ''android'', ''ios'', ''freebsd'', ''dragonfly'',
         ''openbsd'', ''none'']),
      (''target_family'', [''unix'', ''windows'', ''wasm'']),
      (''target_env'', [''gnu'', ''musl'', ''sgx'', ''msvc'']),
      (''target_endian'', [''little'', ''big'']),
      (''target_pointer_width'', [''64'', ''32'', ''16'']),
      (''target_vendor'', [''pc'', ''apple'', ''fortanix'', ''unknown'']),
      (''target_has_atomic'', [''8'', ''16'', ''32'', ''64'', ''128'', ''ptr'']),
      (''panic'', [''unwind'', ''abort''])]"

definition cfg_flags :: "string list" where
  "cfg_flags = [''test'', ''debug_assertions'', ''proc_macro'']"

definition cfg_info :: "(string \<Rightarrow> string \<Rightarrow> bool) \<Rightarrow> (string \<Rightarrow> bool) \<Rightarrow> json" where
  "cfg_info cfg flag =
     JObj (map (\<lambda>(key, vals). (key, cfg_values cfg key vals)) cfg_keys @
       map (\<lambda>name. (name, JBool (flag name))) cfg_flags)"

definition option_env :: "(string \<Rightarrow> string option) \<Rightarrow> string \<Rightarrow> json" where
  "option_env var name = (case var name of None \<Rightarrow> JNull | Some v \<Rightarrow> JStr v)"

definition build_info :: "(string \<Rightarrow> string option) \<Rightarrow> json" where
  "build_info var =
     JObj
       [(''time'', option_env var ''VERGEN_BUILD_TIMESTAMP''),
        (''git'', JObj
           [(''commit'', option_env var ''VERGEN_GIT_SHA''),
            (''branch'', option_env var ''VERGEN_GIT_BRANCH'')]),
        (''cargo'', JObj
           [(''opt-level'', option_env var ''VERGEN_CARGO_OPT_LEVEL''),
            (''features'', option_env var ''VERGEN_CARGO_FEATURES''),
            (''debug'', option_env var ''VERGEN_CARGO_DEBUG'')]),
        (''rustc'', JObj
           [(''llvm_version'', option_env var ''VERGEN_RUSTC_LLVM_VERSION''),
            (''rustc_version'', option_env var ''VERGEN_RUSTC_SEMVER''),
            (''rustc_channel'', option_env var ''VERGEN_RUSTC_CHANNEL''),
            (''rustc_git_commit'', option_env var ''VERGEN_RUSTC_COMMIT_HASH''),
            (''host_triple'', option_env var ''VERGEN_RUSTC_HOST_TRIPLE''),
            (''target_triple'', option_env var ''VERGEN_CARGO_TARGET_TRIPLE'')])]"

definition env_info ::
  "(string \<Rightarrow> string option) \<Rightarrow> (string \<Rightarrow> string \<Rightarrow> bool) \<Rightarrow> (string \<Rightarrow> bool) \<Rightarrow> json" where
  "env_info var cfg flag =
     JObj
       [(''build'', build_info var),
        (''name'', JStr ''wsocks - web socks''),
        (''license'', option_env var ''CARGO_PKG_LICENSE''),
        (''repo'', option_env var ''CARGO_PKG_REPOSITORY''),
        (''version'', option_env var ''CARGO_PKG_VERSION''),
        (''cfg'', cfg_info cfg flag)]"

text \<open>What \<open>async_main\<close> goes on to do.\<close>

datatype ('u, 'a) main_action =
    RunClient "('u, 'a) client_opt" | RunServer "'a server_opt" | PrintInfo json

fun async_main ::
  "(string \<Rightarrow> string option) \<Rightarrow> (string \<Rightarrow> string \<Rightarrow> bool) \<Rightarrow> (string \<Rightarrow> bool) \<Rightarrow> ('u, 'a) opt \<Rightarrow>
   ('u, 'a) main_action" where
  "async_main var cfg flag (OptClient copt) = RunClient copt"
| "async_main var cfg flag (OptServer sopt) = RunServer sopt"
| "async_main var cfg flag OptInfo = PrintInfo (env_info var cfg flag)"

lemma split_join_comma:
  assumes "ss \<noteq> []" and "\<And>s. s \<in> set ss \<Longrightarrow> CHR '','' \<notin> set s"
  shows "split_on (CHR '','') (join '', '' ss) = hd ss # map ((#) (CHR '' '')) (tl ss)"
  using assms by (induction "'', ''" ss rule: join.induct) (auto simp: split_on_plain split_on_append)

lemma join_comma_inj:
  assumes "\<And>s. s \<in> set ss \<Longrightarrow> CHR '','' \<notin> set s \<and> s \<noteq> []"
    and "\<And>s. s \<in> set ts \<Longrightarrow> CHR '','' \<notin> set s \<and> s \<noteq> []"
    and eq: "join '', '' ss = join '', '' ts"
  shows "ss = ts"
proof -
  have empty: "join '', '' us = [] \<longleftrightarrow> us = []" if "\<And>s. s \<in> set us \<Longrightarrow> s \<noteq> []" for us
    using that by (cases "('', '', us)" rule: join.cases) auto
  show ?thesis
  proof (cases "ss = [] \<or> ts = []")
    case True
    with assms empty[of ss] empty[of ts] show ?thesis by auto
  next
    case False
    with assms split_join_comma[of ss] split_join_comma[of ts] have
      "hd ss # map ((#) (CHR '' '')) (tl ss) = hd ts # map ((#) (CHR '' '')) (tl ts)" by simp
    then have "hd ss = hd ts" "tl ss = tl ts" by (simp_all add: inj_map_eq_map inj_def)
    with False show ?thesis by (metis list.collapse)
  qed
qed

lemma cfg_values_eq:
  assumes "\<And>s. s \<in> set vals \<Longrightarrow> CHR '','' \<notin> set s \<and> s \<noteq> []"
  shows "cfg_values cfg k vals = cfg_values cfg' k vals \<longleftrightarrow> (\<forall>v \<in> set vals. cfg k v = cfg' k v)"
proof
  assume "cfg_values cfg k vals = cfg_values cfg' k vals"
  then have "filter (cfg k) vals = filter (cfg' k) vals"
    unfolding cfg_values_def using assms by (intro join_comma_inj) auto
  then show "\<forall>v \<in> set vals. cfg k v = cfg' k v" by (metis (mono_tags) mem_Collect_eq set_filter)
qed (auto simp: cfg_values_def cong: filter_cong)

lemma cfg_keys_plain:
  "(k, vals) \<in> set cfg_keys \<Longrightarrow> s \<in> set vals \<Longrightarrow> CHR '','' \<notin> set s \<and> s \<noteq> []"
  by (auto simp: cfg_keys_def)

text \<open>
  The report about the configuration loses nothing: two builds print the same
  report exactly when they agree on every listed value and flag.
\<close>

theorem cfg_report_faithful:
  "cfg_info cfg flag = cfg_info cfg' flag' \<longleftrightarrow>
     (\<forall>(k, vals) \<in> set cfg_keys. \<forall>v \<in> set vals. cfg k v = cfg' k v) \<and>
     (\<forall>f \<in> set cfg_flags. flag f = flag' f)"
proof -
  have "cfg_info cfg flag = cfg_info cfg' flag' \<longleftrightarrow>
      (\<forall>(k, vals) \<in> set cfg_keys. cfg_values cfg k vals = cfg_values cfg' k vals) \<and>
      (\<forall>f \<in> set cfg_flags. flag f = flag' f)"
    by (auto simp: cfg_info_def)
  then show ?thesis using cfg_values_eq[OF cfg_keys_plain] by fastforce
qed

end
