(* ===== verification/Hex.thy ===== *)
theory Hex
  imports Etag Text
begin

text \<open>
  The contract of the \<open>hex\<close> crate, as far as the program relies on it (\<open>hex::encode\<close> for the
  public key the server prints, \<open>hex::decode_to_slice\<close> for the one a client is given), and
  an instance: lower-case digits out, digits of either case in.
\<close>

locale hex_codec =
  fixes hex_enc :: "bytes \<Rightarrow> string" and hex_dec :: "string \<Rightarrow> nat \<Rightarrow> 'h + bytes"
  assumes dec_hex_enc: "hex_dec (hex_enc bs) (length bs) = Inr bs"
    and dec_length: "hex_dec h n = Inr bs \<Longrightarrow> length bs = n"
begin

lemma hex2bytes_enc: "hex2bytes hex_dec (length bs) (hex_enc bs) = Ok bs"
  by (simp add: hex2bytes_def dec_hex_enc)

lemma hex2key_enc: "length bs = 32 \<Longrightarrow> hex2key hex_dec (hex_enc bs) = Ok bs"
  using hex2bytes_enc [of bs] by (simp add: hex2key_def)

lemma hex2key_length: "hex2key hex_dec h = Ok k \<Longrightarrow> length k = 32"
  using dec_length [of h 32 k]
  by (cases "hex_dec h 32") (simp_all add: hex2key_def hex2bytes_def)

end


section \<open>An instance\<close>

datatype hex_error = OddLength | InvalidHexCharacter | InvalidStringLength

definition hex_value :: "char \<Rightarrow> nat option" where
  "hex_value c =
     (let n = of_char c :: nat in
      if 48 \<le> n \<and> n \<le> 57 then Some (n - 48)
      else if 97 \<le> n \<and> n \<le> 102 then Some (n - 87)
      else if 65 \<le> n \<and> n \<le> 70 then Some (n - 55)
      else None)"

fun hex_pairs :: "string \<Rightarrow> bytes option" where
  "hex_pairs (a # b # s) =
     (case (hex_value a, hex_value b, hex_pairs s) of
        (Some x, Some y, Some bs) \<Rightarrow> Some (of_nat (16 * x + y) # bs)
      | _ \<Rightarrow> None)"
| "hex_pairs [] = Some []"
| "hex_pairs [c] = None"

definition hex_encode :: "bytes \<Rightarrow> string" where
  "hex_encode bs = concat (map (\<lambda>b. [hex_digit (unat b div 16), hex_digit (unat b mod 16)]) bs)"

definition hex_decode_to_slice :: "string \<Rightarrow> nat \<Rightarrow> hex_error + bytes" where
  "hex_decode_to_slice h n =
     (if odd (length h) then Inl OddLength
      else if length h div 2 \<noteq> n then Inl InvalidStringLength
      else (case hex_pairs h of None \<Rightarrow> Inl InvalidHexCharacter | Some bs \<Rightarrow> Inr bs))"

lemma hex_value_digit [simp]: "n < 16 \<Longrightarrow> hex_value (hex_digit n) = Some n"
  by (auto simp: hex_value_def hex_digit_def)

lemma length_hex_encode [simp]: "length (hex_encode bs) = 2 * length bs"
  by (induction bs) (simp_all add: hex_encode_def)

lemma hex_pairs_encode: "hex_pairs (hex_encode bs) = Some bs"
proof (induction bs)
  case (Cons b bs)
  have "unat b < 256" using unsigned_less [of b, where 'a = nat] by simp
  then have "unat b div 16 < 16" by simp
  moreover have "of_nat (16 * (unat b div 16) + unat b mod 16) = b"
    by (simp only: mult_div_mod_eq) simp
  ultimately show ?case using Cons by (simp add: hex_encode_def)
qed (simp add: hex_encode_def)

lemma hex_pairs_length: "hex_pairs h = Some bs \<Longrightarrow> length h = 2 * length bs"
  by (induction h arbitrary: bs rule: hex_pairs.induct) (auto split: option.splits)

interpretation hex_ref: hex_codec hex_encode hex_decode_to_slice
proof unfold_locales
  fix bs :: bytes
  show "hex_decode_to_slice (hex_encode bs) (length bs) = Inr bs"
    by (simp add: hex_decode_to_slice_def hex_pairs_encode)
next
  fix h n and bs :: bytes
  show "hex_decode_to_slice h n = Inr bs \<Longrightarrow> length bs = n"
    by (auto simp: hex_decode_to_slice_def dest: hex_pairs_length split: if_splits option.splits)
qed

end
