(* ===== verification/Server.thy ===== *)
theory Server
  imports Listener Sessions KeyFile EnvInfo Hex
begin

text \<open>
  The wsocks server as a whole (\<open>server\<close> in \<open>src/bin.todo/wsocks.rs\<close>): its preparations (the
  secret key, the report it prints, \<open>ObfsWsListener::bind\<close> of \<open>src/listener.rs\<close>), and the
  composition of the listener of theory \<open>Listener\<close> with the accept loop of theory
  \<open>Sessions\<close>, which meet in \<open>accept_pipe\<close>. A run of the whole projects to a run of each.
\<close>


section \<open>Preparations\<close>

text \<open>\<open>tcp_bind\<close> is \<open>TcpListener::bind\<close>.\<close>

definition listener_bind ::
  "('d, 'p) chan_api \<Rightarrow> ('a \<Rightarrow> io_error_kind + 'l) \<Rightarrow> 'a \<Rightarrow> (io_error_kind, ('d, 'p) listener) outcome" where
  "listener_bind q_api tcp_bind addr =
     and_then (of_result (tcp_bind addr)) (\<lambda>sock. Ok (listener_from q_api))"

definition server_report ::
  "(bytes \<Rightarrow> string) \<Rightarrow> ('a \<Rightarrow> string) \<Rightarrow> json \<Rightarrow> bytes \<Rightarrow> 'a \<Rightarrow> json" where
  "server_report hex_enc addr_text env server_pk addr =
     JObj
       [(''env'', env),
        (''public_key'', JStr (hex_enc server_pk)),
        (''listen'', JStr (addr_text addr))]"

datatype server_error = ServerKey key_error | ServerBind io_error_kind

text \<open>What is printed, how the preparations end, and the key file after them. \<open>to_public\<close> is
  the public key of a secret key.\<close>

definition server_setup ::
  "('fs, 'sk) key_deps \<Rightarrow> (nat \<Rightarrow> bytes) \<Rightarrow> ('sk \<Rightarrow> bytes) \<Rightarrow> (bytes \<Rightarrow> string) \<Rightarrow> ('a \<Rightarrow> string) \<Rightarrow> json \<Rightarrow>
   ('d, 'p) chan_api \<Rightarrow> ('a \<Rightarrow> io_error_kind + 'l) \<Rightarrow> 'a server_opt \<Rightarrow> 'fs \<Rightarrow>
   json option \<times> (server_error, 'sk \<times> bytes \<times> ('d, 'p) listener) outcome \<times> 'fs" where
  "server_setup K pre_sk to_public hex_enc addr_text env q_api tcp_bind sopt fs =
     (case server_key K pre_sk fs of
        (Err e, fs') \<Rightarrow> (None, Err (ServerKey e), fs')
      | (Panic m, fs') \<Rightarrow> (None, Panic m, fs')
      | (Ok server_sk, fs') \<Rightarrow>
          let server_pk = to_public server_sk;
              info = server_report hex_enc addr_text env server_pk (listen sopt) in
          (Some info,
           and_then (map_err ServerBind (listener_bind q_api tcp_bind (listen sopt))) (\<lambda>wpl.
             Ok (server_sk, server_pk, wpl)),
           fs'))"

fun json_field :: "string \<Rightarrow> json \<Rightarrow> json option" where
  "json_field k (JObj kvs) = map_of kvs k"
| "json_field k _ = None"

lemma server_setup_Ok:
  assumes "server_setup K pre_sk to_public hex_enc addr_text env q_api tcp_bind sopt fs =
     (printed, Ok (server_sk, server_pk, wpl), fs')"
  shows "server_key K pre_sk fs = (Ok server_sk, fs')" and "server_pk = to_public server_sk"
    and "wpl = listener_from q_api"
    and "printed = Some (server_report hex_enc addr_text env server_pk (listen sopt))"
  using assms
  by (auto simp: server_setup_def listener_bind_def outcome_simps Let_def split: prod.splits outcome.splits)


section \<open>The listener and the accept loop together\<close>

text \<open>
  An event is one of either side, or a pipe that the listener hands to the loop: it is
  routed, or its header is refused and the loop ends. \<open>SysGone\<close> is a failed \<open>accept_pipe\<close>.
  When the loop ends, \<open>server\<close> returns and the process ends with it.
\<close>

datatype 'p sys_event =
    SysListener "'p listener_event" | SysServer "'p server_event"
  | SysAccept 'p u64 "nat option" | SysRefused 'p etag_error | SysPanic 'p | SysGone io_error_kind

fun takes_pipe :: "'p listener_event \<Rightarrow> bool" where
  "takes_pipe (LAccepted p) = True"
| "takes_pipe (LAcceptFailed e) = True"
| "takes_pipe _ = False"

fun of_accept :: "'p server_event \<Rightarrow> bool" where
  "of_accept (SAccepted p h target) = True"
| "of_accept (SBadPipe e) = True"
| "of_accept SListenerGone = True"
| "of_accept _ = False"

inductive server_sys_step ::
  "('m, string) chan_api \<Rightarrow> ('c, bytes) chan_api \<Rightarrow> ('d, 'c wires \<times> pipe_handle) chan_api \<Rightarrow>
   (string \<Rightarrow> unit + string) \<Rightarrow> ('x, 'c wires \<times> pipe_handle, 'sk, 'pk) mux_api \<Rightarrow> ('t, 'i) etag_deps \<Rightarrow>
   ('c wires \<times> pipe_handle \<Rightarrow> string) \<Rightarrow> 'sk \<Rightarrow> bytes \<Rightarrow>
   ('d, 'c) pipe_listener \<times> 'x server \<Rightarrow> ('c wires \<times> pipe_handle) sys_event \<Rightarrow>
   ('d, 'c) pipe_listener \<times> 'x server \<Rightarrow> bool"
  for m_api api q_api to_str M D peer_metadata server_sk server_pk where
  sys_listener:
    "wpl_pc s \<noteq> WplEnded \<Longrightarrow> listener_step m_api api q_api (b64_dec D) to_str l e l' \<Longrightarrow> \<not> takes_pipe e \<Longrightarrow>
     server_sys_step m_api api q_api to_str M D peer_metadata server_sk server_pk
       (l, s) (SysListener e) (l', s)"
| sys_server:
    "server_step M D server_sk server_pk s e s' \<Longrightarrow> \<not> of_accept e \<Longrightarrow>
     server_sys_step m_api api q_api to_str M D peer_metadata server_sk server_pk
       (l, s) (SysServer e) (l, s')"
| sys_accept:
    "wpl_pc s = WplAccept \<Longrightarrow> accept q_api l = Ready (Inr (made, l')) \<Longrightarrow> pipe_meanwhile api made p \<Longrightarrow>
     accept_session M D server_sk server_pk p (peer_metadata p) s = Ok (h, target, s') \<Longrightarrow>
     server_sys_step m_api api q_api to_str M D peer_metadata server_sk server_pk
       (l, s) (SysAccept p h target) (l', s')"
| sys_refused:
    "wpl_pc s = WplAccept \<Longrightarrow> accept q_api l = Ready (Inr (made, l')) \<Longrightarrow> pipe_meanwhile api made p \<Longrightarrow>
     accept_session M D server_sk server_pk p (peer_metadata p) s = Err e \<Longrightarrow>
     server_sys_step m_api api q_api to_str M D peer_metadata server_sk server_pk
       (l, s) (SysRefused p e) (l', s\<lparr>wpl_pc := WplEnded\<rparr>)"
| sys_panic:
    "wpl_pc s = WplAccept \<Longrightarrow> accept q_api l = Ready (Inr (made, l')) \<Longrightarrow> pipe_meanwhile api made p \<Longrightarrow>
     accept_session M D server_sk server_pk p (peer_metadata p) s = Panic msg \<Longrightarrow>
     server_sys_step m_api api q_api to_str M D peer_metadata server_sk server_pk
       (l, s) (SysPanic p) (l', s\<lparr>wpl_pc := WplEnded\<rparr>)"
| sys_gone:
    "wpl_pc s = WplAccept \<Longrightarrow> accept q_api l = Ready (Inl e) \<Longrightarrow>
     server_sys_step m_api api q_api to_str M D peer_metadata server_sk server_pk
       (l, s) (SysGone e) (l, s\<lparr>wpl_pc := WplEnded\<rparr>)"

text \<open>What each side sees of an event of the whole.\<close>

fun listener_part1 :: "'p sys_event \<Rightarrow> 'p listener_event list" where
  "listener_part1 (SysListener e) = [e]"
| "listener_part1 (SysServer e) = []"
| "listener_part1 (SysAccept p h target) = [LAccepted p]"
| "listener_part1 (SysRefused p e) = [LAccepted p]"
| "listener_part1 (SysPanic p) = [LAccepted p]"
| "listener_part1 (SysGone e) = [LAcceptFailed e]"

fun server_part1 :: "'p sys_event \<Rightarrow> 'p server_event list" where
  "server_part1 (SysListener e) = []"
| "server_part1 (SysServer e) = [e]"
| "server_part1 (SysAccept p h target) = [SAccepted p h target]"
| "server_part1 (SysRefused p e) = [SBadPipe e]"
| "server_part1 (SysPanic p) = []"
| "server_part1 (SysGone e) = [SListenerGone]"

definition listener_part :: "'p sys_event list \<Rightarrow> 'p listener_event list" where
  "listener_part evs = concat (map listener_part1 evs)"

definition server_part :: "'p sys_event list \<Rightarrow> 'p server_event list" where
  "server_part evs = concat (map server_part1 evs)"

lemma parts_simps [simp]:
  "listener_part [] = []" "listener_part (evs @ [e]) = listener_part evs @ listener_part1 e"
  "server_part [] = []" "server_part (evs @ [e]) = server_part evs @ server_part1 e"
  by (simp_all add: listener_part_def server_part_def)

definition start_system :: "('d, 'c wires \<times> pipe_handle) chan_api \<Rightarrow> 'x \<Rightarrow> ('d, 'c) pipe_listener \<times> 'x server" where
  "start_system q_api m = (listener_from q_api, start_server m)"

section \<open>The invariant of the whole\<close>

definition listener_over :: "('d \<Rightarrow> 'p fifo) \<Rightarrow> ('d, 'p) listener \<Rightarrow> bool" where
  "listener_over qview l \<longleftrightarrow> \<not> listening l \<and> conn_tasks l = [] \<and> queue (qview (pipe_queue l)) = []"

lemma server_internal_pc:
  assumes "server_step M D server_sk server_pk s e s'" and "\<not> of_accept e"
  shows "wpl_pc s' = WplEnded \<longleftrightarrow> wpl_pc s = WplEnded" and "routed1 e = []"
  using assms by (cases; auto)+

lemma listener_internal_taken: "\<not> takes_pipe e \<Longrightarrow> taken1 e = []"
  by (cases e) auto

text \<open>\<open>peer_metadata\<close> is a method of the trait \<open>Pipe\<close>: the part of the address behind the hash
  sign.\<close>

locale server_system =
  fixes m_api :: "('m, string) chan_api" and mview :: "'m \<Rightarrow> string fifo"
    and api :: "('c, bytes) chan_api"
    and q_api :: "('d, 'c wires \<times> pipe_handle) chan_api"
    and qview :: "'d \<Rightarrow> ('c wires \<times> pipe_handle) fifo"
    and to_str :: "string \<Rightarrow> unit + string"
    and M :: "('x, 'c wires \<times> pipe_handle, 'sk, 'pk) mux_api" and D :: "('t, 'i) etag_deps"
    and peer_metadata :: "'c wires \<times> pipe_handle \<Rightarrow> string"
  assumes deps: "listener_deps m_api mview q_api qview (b64_enc D) (b64_dec D) to_str"
    and etag: "etag_ops D" and mux: "multiplex M"
    and metadata_of_url: "peer_url (snd p) = ''#'' @ md \<Longrightarrow> peer_metadata p = md"
begin

abbreviation listener_run where
  "listener_run \<equiv> run (listener_step m_api api q_api (b64_dec D) to_str) (listener_from q_api)"

lemma listener_extend:
  "listener_run evs l \<Longrightarrow> listener_step m_api api q_api (b64_dec D) to_str l e l' \<Longrightarrow>
   listener_run (evs @ [e]) l'"
  by (rule run_step)

lemma server_extend:
  "run (server_step M D server_sk server_pk) s0 evs s \<Longrightarrow> server_step M D server_sk server_pk s e s' \<Longrightarrow>
   run (server_step M D server_sk server_pk) s0 (evs @ [e]) s'"
  by (rule run_step)

definition system_ok ::
  "'sk \<Rightarrow> bytes \<Rightarrow> 'x \<Rightarrow> ('c wires \<times> pipe_handle) sys_event list \<Rightarrow> ('d, 'c) pipe_listener \<times> 'x server \<Rightarrow> bool" where
  "system_ok server_sk server_pk m evs ls \<longleftrightarrow>
     listener_run (listener_part evs) (fst ls) \<and>
     run (server_step M D server_sk server_pk) (start_server m) (server_part evs) (snd ls) \<and>
     taken_pipes (listener_part evs) = map fst (routed (server_part evs)) \<and>
     (\<forall>p h target. (p, h, target) \<in> set (routed (server_part evs)) \<longrightarrow>
        etag_from D server_pk (peer_metadata p) = Ok h) \<and>
     (\<forall>p e. SysRefused p e \<notin> set evs \<and> SysPanic p \<notin> set evs) \<and>
     (wpl_pc (snd ls) = WplEnded \<longrightarrow> listener_over qview (fst ls))"

lemma system_start: "system_ok server_sk server_pk m [] (start_system q_api m)"
  by (simp add: system_ok_def start_system_def start_server_def run_start)

lemma taken_pipe_hash:
  assumes "listener_run evs l" and "p \<in> set (taken_pipes evs)"
  shows "\<exists>md h. peer_url (snd p) = ''#'' @ md \<and> peer_metadata p = md \<and> etag_from D server_pk md = Ok h"
proof -
  have "listener_ok api qview (b64_dec D) evs l"
    by (rule listener_deps.run_listener [OF deps assms(1)])
  from listener_ok_taken [OF this assms(2)] have "pipe_with_key (b64_dec D) p" .
  then obtain md buf where md: "peer_url (snd p) = ''#'' @ md" "b64_dec D md = Some buf" "length buf = 16"
    by (auto simp: pipe_with_key_def valid_key_def split: option.splits)
  with etag_ops.from_Ok [OF etag md(2,3), of server_pk] metadata_of_url [OF md(1)] show ?thesis by blast
qed

lemma accept_takes:
  assumes "listener_run evs l" and "accept q_api l = Ready (Inr (made, l'))" and "pipe_meanwhile api made p"
  shows "listener_run (evs @ [LAccepted p]) l'"
    and "\<exists>h. etag_from D server_pk (peer_metadata p) = Ok h"
proof -
  show r: "listener_run (evs @ [LAccepted p]) l'"
    by (rule listener_extend [OF assms(1) accepted [OF assms(2,3)]])
  show "\<exists>h. etag_from D server_pk (peer_metadata p) = Ok h"
    using taken_pipe_hash [OF r, of p] by auto
qed

lemma accept_session_hash:
  "accept_session M D server_sk server_pk p md s = Ok (h, target, s') \<Longrightarrow>
     etag_from D server_pk md = Ok h \<and> wpl_pc s' = WplTop"
  "etag_from D server_pk md = Ok h \<Longrightarrow> \<exists>r. accept_session M D server_sk server_pk p md s = Ok r"
  by (auto simp: accept_session_def outcome_simps Let_def split: if_splits)

lemma system_step:
  assumes ok: "system_ok server_sk server_pk m evs ls"
    and st: "server_sys_step m_api api q_api to_str M D peer_metadata server_sk server_pk ls e ls'"
  shows "system_ok server_sk server_pk m (evs @ [e]) ls'"
  using st
proof cases
  case (sys_listener s l e' l')
  with ok listener_extend [OF _ sys_listener(5)] listener_internal_taken
  show ?thesis by (simp add: system_ok_def)
next
  case (sys_server s e' s' l)
  with ok server_extend [OF _ sys_server(4)] server_internal_pc [OF sys_server(4,5)]
  show ?thesis by (simp add: system_ok_def)
next
  case (sys_accept s l made l' p h target s')
  have "listener_run (listener_part evs) l" and
    sr: "run (server_step M D server_sk server_pk) (start_server m) (server_part evs) s"
    using ok sys_accept(1) by (simp_all add: system_ok_def)
  from accept_takes(1) [OF this(1) sys_accept(5,6)]
    server_extend [OF sr server_accepts [OF sys_accept(4,7)]] accept_session_hash(1) [OF sys_accept(7)] ok
  show ?thesis by (auto simp: system_ok_def sys_accept(1-3))
next
  case (sys_refused s l made l' p e')
  have "listener_run (listener_part evs) l" using ok sys_refused(1) by (simp add: system_ok_def)
  from accept_takes(2) [OF this sys_refused(5,6)] accept_session_hash(2) sys_refused(7) show ?thesis
    by (metis outcome.distinct(1))
next
  case (sys_panic s l made l' p msg)
  have "listener_run (listener_part evs) l" using ok sys_panic(1) by (simp add: system_ok_def)
  from accept_takes(2) [OF this sys_panic(5,6)] accept_session_hash(2) sys_panic(7) show ?thesis
    by (metis outcome.distinct(3))
next
  case (sys_gone s l e')
  have lr: "listener_run (listener_part evs) l" and
    sr: "run (server_step M D server_sk server_pk) (start_server m) (server_part evs) s"
    using ok sys_gone(1) by (simp_all add: system_ok_def)
  have "listener_over qview l"
    using listener_deps.accept_open [OF deps listener_deps.run_listener [OF deps lr], of e'] sys_gone(5)
    by (simp add: listener_over_def)
  with listener_extend [OF lr accept_failed [OF sys_gone(5)]] server_extend [OF sr listener_gone [OF sys_gone(4)]] ok
  show ?thesis by (simp add: system_ok_def sys_gone(1-3))
qed

end

sublocale server_system \<subseteq> system: history_invariant
  "server_sys_step m_api api q_api to_str M D peer_metadata server_sk server_pk"
  "\<lambda>ls. ls = start_system q_api m" "system_ok server_sk server_pk m"
  for server_sk server_pk m
  by unfold_locales (use system_start system_step in \<open>blast+\<close>)

context server_system
begin

lemma run_system:
  "run (server_sys_step m_api api q_api to_str M D peer_metadata server_sk server_pk) (start_system q_api m) evs ls \<Longrightarrow>
   system_ok server_sk server_pk m evs ls"
  by (rule system.inv_run) auto

end

section \<open>What the server guarantees\<close>

text \<open>
  Every pipe that the listener hands out is routed, in order and under the
  session hash of its own header: no request can end the accept loop, and when the loop has
  ended, its listener was over and nothing waited in the queue. What a multiplexer holds
  are pipes whose headers name the session of that multiplexer.
\<close>

theorem server_routes_every_pipe:
  assumes "server_system m_api mview q_api qview to_str M D peer_metadata"
    and "run (server_sys_step m_api api q_api to_str M D peer_metadata server_sk server_pk)
       (start_system q_api m) evs (l, s)"
  shows "map fst (routed (server_part evs)) = taken_pipes (listener_part evs) \<and>
     (\<forall>p h target. (p, h, target) \<in> set (routed (server_part evs)) \<longrightarrow>
        (\<exists>md. peer_url (snd p) = ''#'' @ md \<and> etag_from D server_pk md = Ok h)) \<and>
     (\<forall>i p. i < next_mux s \<longrightarrow> p \<in> set (iter_pipes M (mux_heap s i)) \<longrightarrow>
        (\<exists>h. etag_from D server_pk (peer_metadata p) = Ok h \<and> (h, i) \<in> set (session_loops s))) \<and>
     (wpl_pc s = WplEnded \<longrightarrow>
        \<not> listening l \<and> conn_tasks l = [] \<and> queue (qview (pipe_queue l)) = [])"
proof -
  have ok: "server_system.system_ok m_api api q_api qview to_str M D peer_metadata server_sk server_pk m evs (l, s)"
    by (rule server_system.run_system [OF assms])
  note ok' = ok [unfolded server_system.system_ok_def [OF assms(1)]]
  have lr: "run (listener_step m_api api q_api (b64_dec D) to_str) (listener_from q_api) (listener_part evs) l"
    and sr: "run (server_step M D server_sk server_pk) (start_server m) (server_part evs) s"
    using ok' by simp_all
  have order: "taken_pipes (listener_part evs) = map fst (routed (server_part evs))" using ok' by blast
  have hash: "etag_from D server_pk (peer_metadata p) = Ok h"
    if "(p, h, target) \<in> set (routed (server_part evs))" for p h target using ok' that by blast
  have url: "\<exists>md. peer_url (snd p) = ''#'' @ md \<and> etag_from D server_pk md = Ok h"
    if r: "(p, h, target) \<in> set (routed (server_part evs))" for p h target
  proof -
    have "p \<in> set (taken_pipes (listener_part evs))" using r by (force simp: order)
    from server_system.taken_pipe_hash [OF assms(1) lr this] hash [OF r] show ?thesis by auto
  qed
  have sok: "server_ok M (server_part evs) s"
    by (rule multiplex.run_server [OF server_system.mux [OF assms(1)] sr])
  have "\<exists>h. etag_from D server_pk (peer_metadata p) = Ok h \<and> (h, i) \<in> set (session_loops s)"
    if "i < next_mux s" and "p \<in> set (iter_pipes M (mux_heap s i))" for i p
    using server_okD(6) [OF sok that] server_okD(5) [OF sok] hash by blast
  then show ?thesis using order url ok' by (simp add: listener_over_def)
qed

text \<open>The system on queues and on lists, for the witness: one client connects, is served and
  gets a session.\<close>

abbreviation url_metadata :: "bytes fifo wires \<times> pipe_handle \<Rightarrow> string" where
  "url_metadata p \<equiv> tl (peer_url (snd p))"

lemma demo_listener_deps:
  "listener_deps fifo_api id (fifo_api :: ((bytes fifo wires \<times> pipe_handle) fifo, _) chan_api) id
     (b64_enc demo_etag_deps) (b64_dec demo_etag_deps) ascii_to_str"
  using fifo_listener.listener_deps_axioms by (simp add: demo_etag_deps_def)

interpretation demo_system: server_system fifo_api id "fifo_api :: (bytes fifo, bytes) chan_api" fifo_api id
  ascii_to_str list_mux demo_etag_deps url_metadata
  by (rule server_system.intro)
    (simp_all add: demo_listener_deps demo_etag.etag_ops_axioms list_mux.multiplex_axioms)

abbreviation demo_system_step where
  "demo_system_step \<equiv> server_sys_step fifo_api (fifo_api :: (bytes fifo, bytes) chan_api)
     (fifo_api :: ((bytes fifo wires \<times> pipe_handle) fifo, _) chan_api) ascii_to_str
     list_mux demo_etag_deps url_metadata () [1]"

lemma demo_system_listener:
  "wpl_pc s \<noteq> WplEnded \<Longrightarrow> demo_listener_step l e l' \<Longrightarrow> \<not> takes_pipe e \<Longrightarrow>
   demo_system_step (l, s) (SysListener e) (l', s)"
  by (rule sys_listener) (simp_all add: demo_etag_deps_def)

lemma demo_system_run:
  assumes h: "etag_from demo_etag_deps [1] demo_key = Ok h"
  shows "\<exists>s. run demo_system_step (start_system fifo_api [])
     [SysListener LIncoming, SysListener LServed, SysListener (LQueued demo_pipe), SysServer SRetain,
      SysAccept demo_pipe h (Some 0)] (demo_listener [] [] True, s)"
proof -
  let ?s0 = "start_server [] :: (bytes fifo wires \<times> pipe_handle) list server"
  let ?s1 = "(retain_sessions ?s0)\<lparr>wpl_pc := WplAccept\<rparr>"
  have top: "wpl_pc ?s0 = WplTop" by (simp add: start_server_def)
  have none: "mux_sessions ?s1 h = None" by (simp add: start_server_def retain_sessions_def)
  obtain s where acc: "accept_session list_mux demo_etag_deps () [1] demo_pipe (url_metadata demo_pipe) ?s1 =
      Ok (h, Some 0, s)"
    using list_mux.accept_session_cases [OF h, where s = ?s1 and p = demo_pipe and server_sk = "()"] none
    by (simp add: demo_pipe_def new_pipe_def) (simp add: start_server_def retain_sessions_def)
  have "demo_system_step (listener_from fifo_api, ?s0) (SysListener LIncoming)
      (demo_listener [] [TaskServe (Callback (Some demo_key))] True, ?s0)"
    by (rule demo_system_listener [OF _ demo_incoming]) (simp_all add: top)
  moreover have "demo_system_step (demo_listener [] [TaskServe (Callback (Some demo_key))] True, ?s0) (SysListener LServed)
      (demo_listener [] [TaskPush demo_pipe] True, ?s0)"
    by (rule demo_system_listener [OF _ demo_serving]) (simp_all add: top)
  moreover have "demo_system_step (demo_listener [] [TaskPush demo_pipe] True, ?s0)
      (SysListener (LQueued demo_pipe)) (demo_listener [demo_pipe] [] True, ?s0)"
    by (rule demo_system_listener [OF _ demo_queued]) (simp_all add: top)
  moreover have "demo_system_step (demo_listener [demo_pipe] [] True, ?s0) (SysServer SRetain)
      (demo_listener [demo_pipe] [] True, ?s1)"
    by (rule sys_server [OF server_retains]) (simp_all add: top)
  moreover have "demo_system_step (demo_listener [demo_pipe] [] True, ?s1) (SysAccept demo_pipe h (Some 0))
      (demo_listener [] [] True, s)"
    by (rule sys_accept [where peer_metadata = url_metadata, OF _ demo_accepts pipe_meanwhile_refl acc]) simp
  ultimately show ?thesis unfolding start_system_def by (meson run_cons run_start)
qed

theorem server_routes_every_pipe_witness:
  "\<exists>evs l s h. run demo_system_step (start_system fifo_api []) evs (l, s) \<and>
     taken_pipes (listener_part evs) = [demo_pipe] \<and> map fst (routed (server_part evs)) = [demo_pipe] \<and>
     etag_from demo_etag_deps [1] demo_key = Ok h \<and> (demo_pipe, h, Some 0) \<in> set (routed (server_part evs))"
proof -
  have "b64_dec demo_etag_deps demo_key \<noteq> None \<and> length (the (b64_dec demo_etag_deps demo_key)) = 16"
    using demo_key_valid by (auto simp: valid_key_def demo_etag_deps_def split: option.splits)
  then obtain h where h: "etag_from demo_etag_deps [1] demo_key = Ok h"
    using demo_etag.from_Ok [of demo_key _ "[1]"] by auto
  let ?evs = "[SysListener LIncoming, SysListener LServed, SysListener (LQueued demo_pipe), SysServer SRetain,
      SysAccept demo_pipe h (Some 0)]"
  obtain s where r: "run demo_system_step (start_system fifo_api []) ?evs (demo_listener [] [] True, s)"
    using demo_system_run [OF h] by blast
  have "routed (server_part ?evs) = [(demo_pipe, h, Some 0)]" by (simp add: server_part_def routed_def)
  with server_routes_every_pipe [OF demo_system.server_system_axioms r] r h show ?thesis
    by (intro exI [of _ ?evs] exI [of _ h] exI conjI) auto
qed

text \<open>
  Property C36. The key that a server prints is the key that its clients need: the text in
  the field \<open>public_key\<close> of its report, given to a client as \<open>--remote-public-key\<close>, is read
  back as the server's public key, and the client's multiplexer and session key are made
  for it. No client that uses the text is refused for its key.
\<close>

theorem printed_key_is_the_servers:
  assumes "hex_codec hex_enc hex_dec" and "\<And>sk. length (to_public sk) = 32"
    and "server_setup K pre_sk to_public hex_enc addr_text env q_api tcp_bind sopt fs =
       (Some info, Ok (server_sk, server_pk, wpl), fs')"
    and "json_field ''public_key'' info = Some (JStr (remote_public_key copt))"
  shows "client_setup hex_dec bind M client_sk etag_of copt =
     and_then (map_err CannotBind (of_result (bind (local_socks_listen copt)))) (\<lambda>socksd.
     and_then (map_err CannotBind (of_result (bind (local_http_listen copt)))) (\<lambda>httpd.
     Ok (unat (remote_pipes_max copt), etag_of (to_public server_sk),
         mux_new M client_sk (Some (to_public server_sk)), socksd, httpd)))"
proof -
  from server_setup_Ok [OF assms(3)] assms(4) have "remote_public_key copt = hex_enc (to_public server_sk)"
    by (auto simp: server_report_def)
  with hex_codec.hex2key_enc [OF assms(1,2)] show ?thesis by (simp add: client_setup_def Let_def)
qed

definition demo_server_opt :: "nat server_opt" where
  "demo_server_opt = \<lparr>listen = 1990, key_path = ''key'', http_path = None\<rparr>"

theorem printed_key_is_the_servers_witness:
  "\<exists>info. fst (server_setup demo_key_deps (\<lambda>i. [1]) (pad_digest []) hex_encode show_nat JNull
       (fifo_api :: (nat fifo, nat) chan_api) (\<lambda>a. Inr () :: io_error_kind + unit) demo_server_opt
       \<lparr>content = Some [7], hiccup = False\<rparr>) = Some info \<and>
     client_setup hex_decode_to_slice (\<lambda>a. Inr () :: io_error_kind + unit) demo_client_mux () (\<lambda>pk. ())
       (demo_client_opt\<lparr>remote_public_key := hex_encode (pad_digest [] (server_sk_hash pad_digest [7]))\<rparr>) =
     Ok (2, (), [], (), ())"
proof -
  let ?sk = "server_sk_hash pad_digest [7]" and ?fs = "\<lparr>content = Some [7], hiccup = False\<rparr>"
  let ?info = "server_report hex_encode show_nat JNull (pad_digest [] ?sk) (listen demo_server_opt)"
  let ?copt = "demo_client_opt\<lparr>remote_public_key := hex_encode (pad_digest [] ?sk)\<rparr>"
  have "server_key demo_key_deps (\<lambda>i. [1]) ?fs = (Ok ?sk, ?fs)"
    by (simp add: demo_disk.server_key_cases) (simp add: demo_key_deps_def)
  then have s: "server_setup demo_key_deps (\<lambda>i. [1]) (pad_digest []) hex_encode show_nat JNull
      (fifo_api :: (nat fifo, nat) chan_api) (\<lambda>a. Inr () :: io_error_kind + unit) demo_server_opt ?fs =
      (Some ?info, Ok (?sk, pad_digest [] ?sk, listener_from fifo_api), ?fs)"
    by (simp add: server_setup_def listener_bind_def Let_def)
  have f: "json_field ''public_key'' ?info = Some (JStr (remote_public_key ?copt))"
    by (simp add: server_report_def)
  from printed_key_is_the_servers [OF hex_ref.hex_codec_axioms pad_digest.length_digest s f,
      where bind = "\<lambda>a. Inr () :: io_error_kind + unit" and M = demo_client_mux and client_sk = "()"
        and etag_of = "\<lambda>pk. ()"] s
  show ?thesis by (simp add: demo_client_opt_def demo_client_mux_def)
qed

end
