(* ===== verification/SessionTasks.thy ===== *)
theory SessionTasks
  imports Sessions SessionLoop
begin

text \<open>
  The sessions of the wsocks server with the tasks that keep them alive. Theory \<open>Sessions\<close>
  lets anyone clone and drop references to a multiplexer; here each reference belongs to a
  task of \<open>server_session_loop\<close> (\<open>src/bin.todo/wsocks.rs\<close>): the loop that accepts the
  streams of a session and the watch over its pipes, which share the deadline channel with
  the tasks of the accepted streams. The accept loop of the server and the tasks of all its
  sessions are one labelled step relation, of which every run is a run of \<open>server_step\<close>.
\<close>


section \<open>The tasks of a session\<close>

text \<open>The loop has been spawned, is about to look at the deadline, waits for a stream, or has
  returned. The watch is spawned by the loop's first poll; it reads the clock, goes round,
  finds its session idle, and ends.\<close>

datatype loop_pc = LoopNew | LoopCheck | LoopAccept | LoopOver

datatype watch_pc = WatchOff | WatchNew | WatchRuns nat | WatchFound | WatchOver

record 'd session =
  loop_pc :: loop_pc
  watch_pc :: watch_pc
  dl_chan :: 'd
  dl_conns :: nat

definition spawned_session :: "('d, unit) chan_api \<Rightarrow> 'd session" where
  "spawned_session dl_api =
     \<lparr>loop_pc = LoopNew, watch_pc = WatchOff, dl_chan = chan_bounded dl_api 1, dl_conns = 0\<rparr>"

text \<open>The first poll of \<open>server_session_loop\<close>: the channel, and the watch with its own \<open>Arc\<close>.\<close>

definition start_session :: "('d, unit) chan_api \<Rightarrow> 'd session \<Rightarrow> 'd session" where
  "start_session dl_api x = x\<lparr>loop_pc := LoopCheck, watch_pc := WatchNew, dl_chan := chan_bounded dl_api 1\<rparr>"

text \<open>A round of the watch, on the multiplexer it finds.\<close>

definition watch_round ::
  "('m, 'p, 'sk, 'pk) mux_api \<Rightarrow> ('m, 'p) beat \<Rightarrow> nat \<Rightarrow> 'd session \<Rightarrow> 'm \<times> 'd session" where
  "watch_round M b last_alive x =
     (case pipemgr_turn M b last_alive of
        (m, seen, dead) \<Rightarrow> (m, x\<lparr>watch_pc := if dead then WatchFound else WatchRuns seen\<rparr>))"

text \<open>\<open>deadline_tx.send(()).await.unwrap(); break\<close>: the task ends, or panics if no receiver is
  left; either way it drops its sender and its \<open>Arc\<close>.\<close>

definition watch_notify :: "('d, unit) chan_api \<Rightarrow> 'd session \<Rightarrow> 'd session poll" where
  "watch_notify dl_api x =
     map_poll
       (\<lambda>r. x\<lparr>watch_pc := WatchOver,
              dl_chan := hang_up dl_api (case r of Ok c \<Rightarrow> c | _ \<Rightarrow> dl_chan x)\<rparr>)
       (notify_deadline dl_api (dl_chan x))"

text \<open>Dropping the last receiver closes the channel.\<close>

definition loop_runs :: "'d session \<Rightarrow> bool" where
  "loop_runs x \<longleftrightarrow> loop_pc x = LoopCheck \<or> loop_pc x = LoopAccept"

definition receivers :: "'d session \<Rightarrow> nat" where
  "receivers x = (if loop_runs x then 1 else 0) + dl_conns x"

definition close_unheard :: "('d, unit) chan_api \<Rightarrow> 'd session \<Rightarrow> 'd session" where
  "close_unheard dl_api x =
     (if receivers x = 0 then x\<lparr>dl_chan := hang_up dl_api (dl_chan x)\<rparr> else x)"

text \<open>An iteration of the loop in its two parts: the look at the deadline, and what
  \<open>accept_conn().timeout(5 s)\<close> came to. \<open>Err\<close> is the return of the loop, \<open>Ok\<close> has the streams
  for which a task was spawned. The parts make up \<open>session_turn\<close>.\<close>

definition loop_check :: "('d, unit) chan_api \<Rightarrow> 'd session \<Rightarrow> (session_error, unit) outcome \<times> 'd session" where
  "loop_check dl_api x =
     (case check_deadline dl_api (Some (dl_chan x)) of
        (hit, dl) \<Rightarrow>
          if hit then (Err SessionDeadline, close_unheard dl_api (x\<lparr>loop_pc := LoopOver, dl_chan := the dl\<rparr>))
          else (Ok (), x\<lparr>loop_pc := LoopAccept, dl_chan := the dl\<rparr>))"

definition loop_accept ::
  "('d, unit) chan_api \<Rightarrow> 'rc accepted_conn \<Rightarrow> 'd session \<Rightarrow> (session_error, 'rc list) outcome \<times> 'd session" where
  "loop_accept dl_api a x =
     (case a of
        AcceptTimeout \<Rightarrow> (Ok [], x\<lparr>loop_pc := LoopCheck\<rparr>)
      | AcceptError \<Rightarrow> (Err SessionMuxError, close_unheard dl_api (x\<lparr>loop_pc := LoopOver\<rparr>))
      | AcceptedConn rc \<Rightarrow> (Ok [rc], x\<lparr>loop_pc := LoopCheck, dl_conns := dl_conns x + 1\<rparr>))"

text \<open>The task of a stream looks at the deadline, or ends.\<close>

definition conn_look :: "('d, unit) chan_api \<Rightarrow> 'd session \<Rightarrow> bool \<times> 'd session" where
  "conn_look dl_api x =
     (case check_deadline dl_api (Some (dl_chan x)) of (hit, dl) \<Rightarrow> (hit, x\<lparr>dl_chan := the dl\<rparr>))"

definition conn_ends :: "('d, unit) chan_api \<Rightarrow> 'd session \<Rightarrow> 'd session" where
  "conn_ends dl_api x = close_unheard dl_api (x\<lparr>dl_conns := dl_conns x - 1\<rparr>)"


section \<open>The server and the tasks of its sessions\<close>

definition arc_clone :: "nat \<Rightarrow> 'm server \<Rightarrow> 'm server" where
  "arc_clone i s = s\<lparr>strong_count := (strong_count s)(i := strong_count s i + 1)\<rparr>"

definition arc_drop :: "nat \<Rightarrow> 'm server \<Rightarrow> 'm server" where
  "arc_drop i s = s\<lparr>strong_count := (strong_count s)(i := strong_count s i - 1)\<rparr>"

definition put_mux :: "nat \<Rightarrow> 'm \<Rightarrow> 'm server \<Rightarrow> 'm server" where
  "put_mux i m s = s\<lparr>mux_heap := (mux_heap s)(i := m)\<rparr>"

datatype ('m, 'p, 'rc) tasks_event =
    TServer "'p server_event"
  | TStart nat | TCheck nat | TAccept nat "'rc list" | TEnd nat session_error
  | TWatchStart nat nat | TBeat nat "('m, 'p) beat" | TNotify nat
  | TLook nat bool | TConnEnd nat

fun of_tasks :: "'p server_event \<Rightarrow> bool" where
  "of_tasks (SArcCloned i) = True"
| "of_tasks (SArcDropped i) = True"
| "of_tasks (SPipesDropped i) = True"
| "of_tasks _ = False"

inductive tasks_step ::
  "('m, 'p, 'sk, 'pk) mux_api \<Rightarrow> ('t, 'i) etag_deps \<Rightarrow> ('d, unit) chan_api \<Rightarrow> 'sk \<Rightarrow> bytes \<Rightarrow>
   'm server \<times> (nat \<Rightarrow> 'd session) \<Rightarrow> ('m, 'p, 'rc) tasks_event \<Rightarrow> 'm server \<times> (nat \<Rightarrow> 'd session) \<Rightarrow> bool"
  for M D dl_api server_sk server_pk where
  t_server:
    "server_step M D server_sk server_pk s e s' \<Longrightarrow> \<not> of_tasks e \<Longrightarrow>
     tasks_step M D dl_api server_sk server_pk (s, t) (TServer e) (s', t)"
| t_start:
    "i < next_mux s \<Longrightarrow> loop_pc (t i) = LoopNew \<Longrightarrow>
     tasks_step M D dl_api server_sk server_pk (s, t) (TStart i)
       (arc_clone i s, t(i := start_session dl_api (t i)))"
| t_check:
    "loop_pc (t i) = LoopCheck \<Longrightarrow> loop_check dl_api (t i) = (Ok u, x) \<Longrightarrow>
     tasks_step M D dl_api server_sk server_pk (s, t) (TCheck i) (s, t(i := x))"
| t_deadline:
    "loop_pc (t i) = LoopCheck \<Longrightarrow> loop_check dl_api (t i) = (Err e, x) \<Longrightarrow>
     tasks_step M D dl_api server_sk server_pk (s, t) (TEnd i e) (arc_drop i s, t(i := x))"
| t_accept:
    "loop_pc (t i) = LoopAccept \<Longrightarrow> loop_accept dl_api a (t i) = (Ok rcs, x) \<Longrightarrow>
     tasks_step M D dl_api server_sk server_pk (s, t) (TAccept i rcs) (s, t(i := x))"
| t_mux_error:
    "loop_pc (t i) = LoopAccept \<Longrightarrow> loop_accept dl_api (a :: 'rc accepted_conn) (t i) = (Err e, x) \<Longrightarrow>
     tasks_step M D dl_api server_sk server_pk (s, t) (TEnd i e) (arc_drop i s, t(i := x))"
| t_watch_start:
    "watch_pc (t i) = WatchNew \<Longrightarrow>
     tasks_step M D dl_api server_sk server_pk (s, t) (TWatchStart i now)
       (s, t(i := (t i)\<lparr>watch_pc := WatchRuns now\<rparr>))"
| t_beat:
    "watch_pc (t i) = WatchRuns seen \<Longrightarrow> found b = mux_heap s i \<Longrightarrow> watch_round M b seen (t i) = (m, x) \<Longrightarrow>
     tasks_step M D dl_api server_sk server_pk (s, t) (TBeat i b) (put_mux i m s, t(i := x))"
| t_notify:
    "watch_pc (t i) = WatchFound \<Longrightarrow> watch_notify dl_api (t i) = Ready x \<Longrightarrow>
     tasks_step M D dl_api server_sk server_pk (s, t) (TNotify i) (arc_drop i s, t(i := x))"
| t_look:
    "0 < dl_conns (t i) \<Longrightarrow> conn_look dl_api (t i) = (hit, x) \<Longrightarrow>
     tasks_step M D dl_api server_sk server_pk (s, t) (TLook i hit) (s, t(i := x))"
| t_conn_end:
    "0 < dl_conns (t i) \<Longrightarrow>
     tasks_step M D dl_api server_sk server_pk (s, t) (TConnEnd i) (s, t(i := conn_ends dl_api (t i)))"

definition start_tasks :: "('d, unit) chan_api \<Rightarrow> 'm \<Rightarrow> 'm server \<times> (nat \<Rightarrow> 'd session)" where
  "start_tasks dl_api m = (start_server m, \<lambda>i. spawned_session dl_api)"

text \<open>What the accept loop of theory \<open>Sessions\<close> sees of an event.\<close>

fun server_view1 :: "('m, 'p, 'rc) tasks_event \<Rightarrow> 'p server_event list" where
  "server_view1 (TServer e) = [e]"
| "server_view1 (TStart i) = [SArcCloned i]"
| "server_view1 (TEnd i e) = [SArcDropped i]"
| "server_view1 (TBeat i b) = [SPipesDropped i]"
| "server_view1 (TNotify i) = [SArcDropped i]"
| "server_view1 _ = []"

definition server_view :: "('m, 'p, 'rc) tasks_event list \<Rightarrow> 'p server_event list" where
  "server_view evs = concat (map server_view1 evs)"

fun beat1 :: "nat \<Rightarrow> ('m, 'p, 'rc) tasks_event \<Rightarrow> ('m, 'p) beat list" where
  "beat1 i (TBeat j b) = (if i = j then [b] else [])"
| "beat1 i _ = []"

definition beats :: "nat \<Rightarrow> ('m, 'p, 'rc) tasks_event list \<Rightarrow> ('m, 'p) beat list" where
  "beats i evs = concat (map (beat1 i) evs)"

definition starts :: "nat \<Rightarrow> ('m, 'p, 'rc) tasks_event list \<Rightarrow> nat set" where
  "starts i evs = {t0. TWatchStart i t0 \<in> set evs}"

lemma tasks_history [simp]:
  "server_view [] = []" "server_view (evs @ [e]) = server_view evs @ server_view1 e"
  "beats i [] = []" "beats i (evs @ [e]) = beats i evs @ beat1 i e"
  "starts i [] = {}" "starts i (evs @ [e]) = starts i evs \<union> {t0. e = TWatchStart i t0}"
  by (auto simp: server_view_def beats_def starts_def)

section \<open>The tasks keep what the abstract server needs\<close>

lemma session_turn_parts:
  assumes "loop_pc x = LoopCheck"
  shows "session_turn dl_api a (Some (dl_chan x), rcs) =
     (case loop_check dl_api x of
        (Ok u, x1) \<Rightarrow>
          (case loop_accept dl_api a x1 of
             (Ok new, x2) \<Rightarrow> Ok (Some (dl_chan x2), rcs @ new)
           | (Err e, x2) \<Rightarrow> Err e
           | (Panic m, x2) \<Rightarrow> Panic m)
      | (Err e, x1) \<Rightarrow> Err e
      | (Panic m, x1) \<Rightarrow> Panic m)"
  by (auto simp: session_turn_def loop_check_def loop_accept_def check_deadline_def
      split: prod.splits sum.splits accepted_conn.splits)

text \<open>The references of a session's two tasks.\<close>

definition watch_holds :: "'d session \<Rightarrow> bool" where
  "watch_holds x \<longleftrightarrow> watch_pc x \<noteq> WatchOff \<and> watch_pc x \<noteq> WatchOver"

definition refs :: "'d session \<Rightarrow> nat" where
  "refs x = (if loop_pc x = LoopOver then 0 else 1) + (if watch_holds x then 1 else 0)"

text \<open>When the watch last saw a live pipe.\<close>

fun seen_after :: "('m, 'p, 'sk, 'pk) mux_api \<Rightarrow> nat \<Rightarrow> ('m, 'p) beat list \<Rightarrow> nat" where
  "seen_after M t [] = t"
| "seen_after M t (b # bs) = seen_after M (fst (snd (pipemgr_turn M b t))) bs"

lemma seen_after_snoc:
  "seen_after M t (bs @ [b]) = fst (snd (pipemgr_turn M b (seen_after M t bs)))"
  by (induction bs arbitrary: t) simp_all

lemma session_watch_snoc:
  "session_watch M t bs = None \<Longrightarrow>
   session_watch M t (bs @ [b]) =
     (if snd (snd (pipemgr_turn M b (seen_after M t bs))) then Some (length bs) else None)"
proof (induction bs arbitrary: t)
  case Nil
  then show ?case by (simp split: prod.splits)
next
  case (Cons c bs)
  obtain m seen dead where "pipemgr_turn M c t = (m, seen, dead)" by (cases "pipemgr_turn M c t") auto
  with Cons show ?case by (cases dead) auto
qed

text \<open>What the rounds so far say about where the watch stands.\<close>

definition watch_hist ::
  "('m, 'p, 'sk, 'pk) mux_api \<Rightarrow> nat set \<Rightarrow> ('m, 'p) beat list \<Rightarrow> watch_pc \<Rightarrow> bool" where
  "watch_hist M ts bs pc \<longleftrightarrow>
     (case pc of
        WatchOff \<Rightarrow> bs = []
      | WatchNew \<Rightarrow> bs = []
      | WatchRuns seen \<Rightarrow> \<exists>t0 \<in> ts. session_watch M t0 bs = None \<and> seen_after M t0 bs = seen
      | _ \<Rightarrow> \<exists>t0 \<in> ts. session_watch M t0 bs = Some (length bs - 1))"

definition deadline_ok :: "('d \<Rightarrow> unit fifo) \<Rightarrow> 'd session \<Rightarrow> bool" where
  "deadline_ok dview x \<longleftrightarrow>
     capacity (dview (dl_chan x)) = Some 1 \<and> length (queue (dview (dl_chan x))) \<le> 1 \<and>
     (watch_pc x \<noteq> WatchOver \<longrightarrow> queue (dview (dl_chan x)) = []) \<and>
     (hung_up (dview (dl_chan x)) \<longrightarrow> watch_pc x = WatchOver \<or> receivers x = 0) \<and>
     (loop_pc x = LoopNew \<longleftrightarrow> watch_pc x = WatchOff) \<and>
     (loop_pc x = LoopNew \<longrightarrow> dl_conns x = 0 \<and> \<not> hung_up (dview (dl_chan x)))"

definition session_ok ::
  "('m, 'p, 'sk, 'pk) mux_api \<Rightarrow> ('d \<Rightarrow> unit fifo) \<Rightarrow> nat set \<Rightarrow> ('m, 'p) beat list \<Rightarrow> nat \<Rightarrow> 'd session \<Rightarrow> bool" where
  "session_ok M dview ts bs n x \<longleftrightarrow> n = refs x \<and> watch_hist M ts bs (watch_pc x) \<and> deadline_ok dview x"

definition tasks_ok ::
  "('m, 'p, 'sk, 'pk) mux_api \<Rightarrow> ('t, 'i) etag_deps \<Rightarrow> ('d, unit) chan_api \<Rightarrow> ('d \<Rightarrow> unit fifo) \<Rightarrow> 'sk \<Rightarrow> bytes \<Rightarrow> 'm \<Rightarrow>
   ('m, 'p, 'rc) tasks_event list \<Rightarrow> 'm server \<times> (nat \<Rightarrow> 'd session) \<Rightarrow> bool" where
  "tasks_ok M D dl_api dview server_sk server_pk m evs st \<longleftrightarrow> (case st of (s, t) \<Rightarrow>
     run (server_step M D server_sk server_pk) (start_server m) (server_view evs) s \<and>
     (\<forall>i < next_mux s. session_ok M dview (starts i evs) (beats i evs) (strong_count s i) (t i)) \<and>
     (\<forall>i. next_mux s \<le> i \<longrightarrow> t i = spawned_session dl_api \<and> beats i evs = []) \<and>
     (\<forall>q h. (q, h, None) \<in> set (routed (server_view evs)) \<longrightarrow>
        (\<exists>i. (h, i) \<in> set (session_loops s) \<and> strong_count s i = 0)) \<and>
     (\<forall>i. \<forall>b \<in> set (beats i evs). \<forall>p \<in> set (iter_pipes M (found b)).
        \<exists>h. (p, h, Some i) \<in> set (routed (server_view evs))))"

lemma server_step_counts:
  assumes "server_step M D server_sk server_pk s e s'" and "\<not> of_tasks e"
  shows "next_mux s' = next_mux s \<and> strong_count s' = strong_count s \<or>
     next_mux s' = Suc (next_mux s) \<and> strong_count s' = (strong_count s)(next_mux s := 1)"
  using assms
  by (cases; auto simp: retain_sessions_def accept_session_def new_session_def outcome_simps Let_def
      split: option.splits if_splits)

lemma server_step_loops:
  "server_step M D server_sk server_pk s e s' \<Longrightarrow> set (session_loops s) \<subseteq> set (session_loops s')"
  by (cases rule: server_step.cases)
    (auto simp: retain_sessions_def accept_session_def new_session_def outcome_simps Let_def
      split: option.splits if_splits)

lemma server_step_lost:
  assumes "server_step M D server_sk server_pk s e s'" and "(q, h, None) \<in> set (routed1 e)"
  shows "\<exists>i. mux_sessions s h = Some i \<and> strong_count s i = 0 \<and> \<not> of_tasks e \<and>
     next_mux s' = next_mux s \<and> strong_count s' = strong_count s \<and> session_loops s' = session_loops s"
  using assms
  by (cases; auto simp: accept_session_def new_session_def outcome_simps Let_def
      split: option.splits if_splits)

locale session_tasks = multiplex M + dl: smol_channel dl_api dview
  for M :: "('m, 'p, 'sk, 'pk) mux_api" and dl_api :: "('d, unit) chan_api" and dview :: "'d \<Rightarrow> unit fifo"
begin

lemma look_cases:
  "check_deadline dl_api (Some c) = (queue (dview c) \<noteq> [], Some c') \<Longrightarrow>
   hung_up (dview c') = hung_up (dview c) \<and> capacity (dview c') = capacity (dview c) \<and>
   queue (dview c') = tl (queue (dview c))"
  "\<exists>c'. check_deadline dl_api (Some c) = (queue (dview c) \<noteq> [], Some c')"
proof -
  have *: "\<exists>c'. check_deadline dl_api (Some c) = (queue (dview c) \<noteq> [], Some c') \<and>
     hung_up (dview c') = hung_up (dview c) \<and> capacity (dview c') = capacity (dview c) \<and>
     queue (dview c') = tl (queue (dview c))"
  proof (cases "queue (dview c)")
    case Nil
    then obtain e where "try_recv dl_api c = Inl e" by (rule dl.try_recv_empty)
    with Nil show ?thesis by (simp add: check_deadline_def)
  next
    case (Cons u us)
    then obtain c' where "try_recv dl_api c = Inr (u, c')" "dview c' = (dview c)\<lparr>queue := us\<rparr>"
      by (rule dl.try_recv_Cons)
    with Cons show ?thesis by (simp add: check_deadline_def)
  qed
  then show "\<exists>c'. check_deadline dl_api (Some c) = (queue (dview c) \<noteq> [], Some c')" by blast
  show "check_deadline dl_api (Some c) = (queue (dview c) \<noteq> [], Some c') \<Longrightarrow>
     hung_up (dview c') = hung_up (dview c) \<and> capacity (dview c') = capacity (dview c) \<and>
     queue (dview c') = tl (queue (dview c))" using * by auto
qed

lemma close_unheard_simps:
  "loop_pc (close_unheard dl_api x) = loop_pc x" "watch_pc (close_unheard dl_api x) = watch_pc x"
  "dl_conns (close_unheard dl_api x) = dl_conns x" "receivers (close_unheard dl_api x) = receivers x"
  "capacity (dview (dl_chan (close_unheard dl_api x))) = capacity (dview (dl_chan x))"
  "queue (dview (dl_chan (close_unheard dl_api x))) = queue (dview (dl_chan x))"
  "hung_up (dview (dl_chan (close_unheard dl_api x))) \<longleftrightarrow> hung_up (dview (dl_chan x)) \<or> receivers x = 0"
  by (auto simp: close_unheard_def dl.view_hang_up fifo_hang_up_def receivers_def loop_runs_def)

lemma spawned_ok: "session_ok M dview ts [] 1 (spawned_session dl_api)"
  by (simp add: session_ok_def spawned_session_def refs_def watch_holds_def watch_hist_def deadline_ok_def
      dl.view_bounded bounded_def)

lemma start_session_ok:
  assumes "session_ok M dview ts bs n x" and "loop_pc x = LoopNew"
  shows "session_ok M dview ts bs (n + 1) (start_session dl_api x)"
  using assms
  by (auto simp: session_ok_def start_session_def refs_def watch_holds_def watch_hist_def deadline_ok_def
      dl.view_bounded bounded_def)

lemma loop_check_ok:
  assumes ok: "session_ok M dview ts bs n x" and pc: "loop_pc x = LoopCheck" and lc: "loop_check dl_api x = (r, y)"
  shows "case r of Ok u \<Rightarrow> session_ok M dview ts bs n y | Err e \<Rightarrow> session_ok M dview ts bs (n - 1) y | Panic p \<Rightarrow> False"
proof -
  obtain c' where c': "check_deadline dl_api (Some (dl_chan x)) = (queue (dview (dl_chan x)) \<noteq> [], Some c')"
    using look_cases(2) by blast
  note v = look_cases(1) [OF c']
  from lc c' pc ok v show ?thesis
    by (cases "queue (dview (dl_chan x))")
      (auto simp: loop_check_def session_ok_def refs_def watch_holds_def deadline_ok_def close_unheard_simps
        receivers_def loop_runs_def)
qed

lemma loop_accept_ok:
  assumes "session_ok M dview ts bs n x" and "loop_pc x = LoopAccept" and "loop_accept dl_api a x = (r, y)"
  shows "case r of Ok rcs \<Rightarrow> session_ok M dview ts bs n y | Err e \<Rightarrow> session_ok M dview ts bs (n - 1) y | Panic p \<Rightarrow> False"
  using assms
  by (cases a) (auto simp: loop_accept_def session_ok_def refs_def watch_holds_def deadline_ok_def
      close_unheard_simps receivers_def loop_runs_def)

lemma watch_start_ok:
  assumes "session_ok M dview ts bs n x" and "watch_pc x = WatchNew"
  shows "session_ok M dview (ts \<union> {now}) bs n (x\<lparr>watch_pc := WatchRuns now\<rparr>)"
  using assms
  by (auto simp: session_ok_def refs_def watch_holds_def watch_hist_def deadline_ok_def receivers_def loop_runs_def)

lemma watch_round_ok:
  assumes ok: "session_ok M dview ts bs n x" and "watch_pc x = WatchRuns seen" and rd: "watch_round M b seen x = (m, y)"
  shows "session_ok M dview ts (bs @ [b]) n y \<and> m = retain_alive M (answers b) (found b)"
proof -
  obtain t0 where t0: "t0 \<in> ts" "session_watch M t0 bs = None" "seen_after M t0 bs = seen"
    using ok assms(2) by (auto simp: session_ok_def watch_hist_def)
  obtain m' seen' dead where turn: "pipemgr_turn M b seen = (m', seen', dead)" by (cases "pipemgr_turn M b seen") auto
  with rd have y: "y = x\<lparr>watch_pc := if dead then WatchFound else WatchRuns seen'\<rparr>" and m: "m' = m"
    by (auto simp: watch_round_def)
  have "watch_hist M ts (bs @ [b]) (watch_pc y)"
    using t0 turn session_watch_snoc [OF t0(2), of b] seen_after_snoc [of M t0 bs b]
    by (auto simp: watch_hist_def y)
  moreover have "m = retain_alive M (answers b) (found b)"
    using turn by (simp add: pipemgr_turn_def m Let_def)
  ultimately show ?thesis using ok assms(2)
    by (auto simp: y session_ok_def refs_def watch_holds_def deadline_ok_def receivers_def loop_runs_def)
qed

lemma watch_notify_ok:
  assumes ok: "session_ok M dview ts bs n x" and pc: "watch_pc x = WatchFound"
  shows "\<exists>y. watch_notify dl_api x = Ready y \<and> session_ok M dview ts bs (n - 1) y \<and>
     loop_pc y = loop_pc x \<and> watch_pc y = WatchOver \<and> dl_conns y = dl_conns x \<and>
     (0 < receivers x \<longrightarrow> queue (dview (dl_chan y)) = [()])"
proof -
  note d = ok [unfolded session_ok_def deadline_ok_def]
  have empty: "queue (dview (dl_chan x)) = []" "capacity (dview (dl_chan x)) = Some 1" using d pc by auto
  show ?thesis
  proof (cases "hung_up (dview (dl_chan x))")
    case True
    then have "send_await dl_api (dl_chan x) () = Ready (Inl ())" by (rule dl.send_await_closed)
    moreover have "receivers x = 0" using d pc True by auto
    ultimately show ?thesis
      using ok pc
      by (auto simp: watch_notify_def notify_deadline_def session_ok_def refs_def watch_holds_def watch_hist_def
          deadline_ok_def receivers_def loop_runs_def dl.view_hang_up fifo_hang_up_def)
  next
    case False
    moreover have "\<not> fifo_full (dview (dl_chan x))" using empty by (simp add: fifo_full_def)
    ultimately obtain c where
      c: "send_await dl_api (dl_chan x) () = Ready (Inr c)" "dview c = fifo_push (dview (dl_chan x)) ()"
      by (rule dl.send_await_open)
    then show ?thesis
      using ok pc empty
      by (auto simp: watch_notify_def notify_deadline_def session_ok_def refs_def watch_holds_def watch_hist_def
          deadline_ok_def receivers_def loop_runs_def dl.view_hang_up fifo_hang_up_def fifo_push_def)
  qed
qed

lemma conn_look_ok:
  assumes ok: "session_ok M dview ts bs n x" and "0 < dl_conns x" and lk: "conn_look dl_api x = (hit, y)"
  shows "session_ok M dview ts bs n y"
proof -
  obtain c' where c': "check_deadline dl_api (Some (dl_chan x)) = (queue (dview (dl_chan x)) \<noteq> [], Some c')"
    using look_cases(2) by blast
  note v = look_cases(1) [OF c']
  from lk c' have y: "y = x\<lparr>dl_chan := c'\<rparr>" by (simp add: conn_look_def)
  have "deadline_ok dview y"
    using ok v by (auto simp: y session_ok_def deadline_ok_def receivers_def loop_runs_def)
  then show ?thesis using ok by (simp add: y session_ok_def refs_def watch_holds_def)
qed

lemma conn_ends_ok:
  assumes "session_ok M dview ts bs n x" and "0 < dl_conns x"
  shows "session_ok M dview ts bs n (conn_ends dl_api x)"
  using assms
  by (auto simp: conn_ends_def session_ok_def refs_def watch_holds_def deadline_ok_def close_unheard_simps
      receivers_def loop_runs_def)

end

section \<open>Every run of the tasks is a run of the accept loop\<close>

context session_tasks
begin

abbreviation ok where
  "ok D server_sk server_pk m evs st \<equiv> tasks_ok M D dl_api dview server_sk server_pk m evs st"

lemma tasks_start: "ok D server_sk server_pk m [] (start_tasks dl_api m)"
  by (simp add: tasks_ok_def start_tasks_def start_server_def run_start)

lemma tasks_okD:
  assumes "ok D server_sk server_pk m evs (s, t)"
  shows "run (server_step M D server_sk server_pk) (start_server m) (server_view evs) s"
    and "server_ok M (server_view evs) s"
    and "i < next_mux s \<Longrightarrow> session_ok M dview (starts i evs) (beats i evs) (strong_count s i) (t i)"
    and "next_mux s \<le> i \<Longrightarrow> t i = spawned_session dl_api \<and> beats i evs = []"
    and "(q, h, None) \<in> set (routed (server_view evs)) \<Longrightarrow>
       \<exists>i. (h, i) \<in> set (session_loops s) \<and> strong_count s i = 0"
    and "b \<in> set (beats i evs) \<Longrightarrow> p \<in> set (iter_pipes M (found b)) \<Longrightarrow>
       \<exists>h. (p, h, Some i) \<in> set (routed (server_view evs))"
proof -
  note a = assms [unfolded tasks_ok_def prod.case]
  show r: "run (server_step M D server_sk server_pk) (start_server m) (server_view evs) s" using a by blast
  show "server_ok M (server_view evs) s" by (rule run_server [OF r])
qed (use assms in \<open>auto simp: tasks_ok_def\<close>)

lemma live_task_exists:
  assumes "ok D server_sk server_pk m evs (s, t)" and "t i \<noteq> spawned_session dl_api"
  shows "i < next_mux s"
  using tasks_okD(4) [OF assms(1)] assms(2) by (metis not_less)

text \<open>What an event of one task has to keep.\<close>

lemma tasks_ok_task:
  assumes ok: "ok D server_sk server_pk m evs (s, t)" and i: "i < next_mux s"
    and r: "run (server_step M D server_sk server_pk) (start_server m) (server_view (evs @ [e])) s'"
    and same: "next_mux s' = next_mux s" "session_loops s' = session_loops s"
      "\<And>j. j \<noteq> i \<Longrightarrow> strong_count s' j = strong_count s j" "strong_count s i = 0 \<Longrightarrow> strong_count s' i = 0"
    and x: "session_ok M dview (starts i (evs @ [e])) (beats i (evs @ [e])) (strong_count s' i) x"
    and others: "\<And>j. j \<noteq> i \<Longrightarrow> beat1 j e = [] \<and> (\<forall>t0. e \<noteq> TWatchStart j t0)"
    and lost: "routed (server_view (evs @ [e])) = routed (server_view evs)"
    and found: "\<And>b. b \<in> set (beat1 i e) \<Longrightarrow> found b = mux_heap s i"
  shows "ok D server_sk server_pk m (evs @ [e]) (s', t(i := x))"
  unfolding tasks_ok_def prod.case
proof (intro conjI allI impI ballI)
  note d = tasks_okD [OF ok]
  show "run (server_step M D server_sk server_pk) (start_server m) (server_view (evs @ [e])) s'" by (rule r)
  fix j
  show "session_ok M dview (starts j (evs @ [e])) (beats j (evs @ [e])) (strong_count s' j) ((t(i := x)) j)"
    if "j < next_mux s'"
    using that x d(3) [of j] others [of j] by (cases "j = i") (simp_all add: same)
  show "(t(i := x)) j = spawned_session dl_api" and "beats j (evs @ [e]) = []" if "next_mux s' \<le> j"
    using that i d(4) [of j] others [of j] by (auto simp: same)
  show "\<exists>k. (h, k) \<in> set (session_loops s') \<and> strong_count s' k = 0"
    if "(q, h, None) \<in> set (routed (server_view (evs @ [e])))" for q h
    using d(5) [of q h] that same(2-4) unfolding lost by (metis (full_types))
  fix b p
  assume b: "b \<in> set (beats j (evs @ [e]))" and p: "p \<in> set (iter_pipes M (found b))"
  show "\<exists>h. (p, h, Some j) \<in> set (routed (server_view (evs @ [e])))"
  proof (cases "b \<in> set (beats j evs)")
    case True
    with d(6) [OF True p] show ?thesis unfolding lost by blast
  next
    case False
    with b have "b \<in> set (beat1 j e)" by simp
    with others [of j] have "j = i" and "b \<in> set (beat1 i e)" by (cases "j = i"; simp)+
    with found p server_okD(6) [OF d(2) i] show ?thesis unfolding lost by auto
  qed
qed

lemma tasks_ok_server:
  assumes ok: "ok D server_sk server_pk m evs (s, t)"
    and st: "server_step M D server_sk server_pk s e s'" and e: "\<not> of_tasks e"
  shows "ok D server_sk server_pk m (evs @ [TServer e]) (s', t)"
  unfolding tasks_ok_def prod.case
proof (intro conjI allI impI ballI)
  note d = tasks_okD [OF ok]
  show "run (server_step M D server_sk server_pk) (start_server m) (server_view (evs @ [TServer e])) s'"
    using run_step [OF d(1) st] by simp
  have counts: "next_mux s' = next_mux s \<and> strong_count s' = strong_count s \<or>
     next_mux s' = Suc (next_mux s) \<and> strong_count s' = (strong_count s)(next_mux s := 1)"
    by (rule server_step_counts [OF st e])
  fix j
  show "session_ok M dview (starts j (evs @ [TServer e])) (beats j (evs @ [TServer e])) (strong_count s' j) (t j)"
    if "j < next_mux s'"
  proof (cases "j < next_mux s")
    case True
    with d(3) [OF True] counts show ?thesis by auto
  next
    case False
    with that counts have "j = next_mux s" and "strong_count s' j = 1" by auto
    with d(4) [of j] spawned_ok show ?thesis by simp
  qed
  show "t j = spawned_session dl_api" "beats j (evs @ [TServer e]) = []" if "next_mux s' \<le> j"
    using that counts d(4) [of j] by auto
  show "\<exists>k. (h, k) \<in> set (session_loops s') \<and> strong_count s' k = 0"
    if "(q, h, None) \<in> set (routed (server_view (evs @ [TServer e])))" for q h
  proof (cases "(q, h, None) \<in> set (routed (server_view evs))")
    case True
    with d(5) obtain k where k: "(h, k) \<in> set (session_loops s)" "strong_count s k = 0" by blast
    with server_okD(7) [OF d(2) k(1)] server_step_loops [OF st] counts show ?thesis by (auto intro!: exI [of _ k])
  next
    case False
    with that have "(q, h, None) \<in> set (routed1 e)" by simp
    from server_step_lost [OF st this] server_okD(1) [OF d(2)] show ?thesis by metis
  qed
  show "\<exists>h. (p, h, Some j) \<in> set (routed (server_view (evs @ [TServer e])))"
    if "b \<in> set (beats j (evs @ [TServer e]))" "p \<in> set (iter_pipes M (found b))" for b p
    using d(6) [of b j p] that by auto
qed

end

context session_tasks
begin

lemma strong_pos:
  assumes "session_ok M dview ts bs n x" and "loop_pc x \<noteq> LoopOver \<or> watch_holds x"
  shows "0 < n"
  using assms by (auto simp: session_ok_def refs_def)

lemma view_dropped:
  assumes "run (server_step M D server_sk server_pk) (start_server m) evs s" and "0 < strong_count s i"
  shows "run (server_step M D server_sk server_pk) (start_server m) (evs @ [SArcDropped i]) (arc_drop i s)"
  unfolding arc_drop_def using assms by (intro run_step [OF assms(1)] arc_dropped)

lemma tasks_ok_loop:
  assumes ok: "ok D server_sk server_pk m evs (s, t)"
    and x: "case r of Ok u \<Rightarrow> session_ok M dview (starts i evs) (beats i evs) (strong_count s i) x
       | Err e \<Rightarrow> session_ok M dview (starts i evs) (beats i evs) (strong_count s i - 1) x | Panic p \<Rightarrow> False"
    and i: "i < next_mux s" and pos: "0 < strong_count s i"
  shows "r = Ok u \<Longrightarrow> server_view1 e = [] \<Longrightarrow> (\<And>j. beat1 j e = [] \<and> (\<forall>t0. e \<noteq> TWatchStart j t0)) \<Longrightarrow>
       ok D server_sk server_pk m (evs @ [e]) (s, t(i := x))"
    and "r = Err err \<Longrightarrow> ok D server_sk server_pk m (evs @ [TEnd i err]) (arc_drop i s, t(i := x))"
proof -
  note d = tasks_okD [OF ok]
  show "ok D server_sk server_pk m (evs @ [e]) (s, t(i := x))"
    if "r = Ok u" "server_view1 e = []" "\<And>j. beat1 j e = [] \<and> (\<forall>t0. e \<noteq> TWatchStart j t0)"
  proof (rule tasks_ok_task [OF ok i])
    show "run (server_step M D server_sk server_pk) (start_server m) (server_view (evs @ [e])) s"
      using d(1) that(2) by simp
    show "session_ok M dview (starts i (evs @ [e])) (beats i (evs @ [e])) (strong_count s i) x"
      using x that(1,3) by auto
    show "routed (server_view (evs @ [e])) = routed (server_view evs)" using that(2) by simp
  qed (use that(3) in auto)
  show "ok D server_sk server_pk m (evs @ [TEnd i err]) (arc_drop i s, t(i := x))" if "r = Err err"
  proof (rule tasks_ok_task [OF ok i])
    show "run (server_step M D server_sk server_pk) (start_server m) (server_view (evs @ [TEnd i err])) (arc_drop i s)"
      using view_dropped [OF d(1) pos] by simp
    show "session_ok M dview (starts i (evs @ [TEnd i err])) (beats i (evs @ [TEnd i err]))
        (strong_count (arc_drop i s) i) x"
      using x that by (simp add: arc_drop_def)
  qed (auto simp: arc_drop_def)
qed

text \<open>A session whose tasks have been at work is one the server has made.\<close>

lemma spawned_simps [simp]:
  "loop_pc (spawned_session dl_api) = LoopNew" "watch_pc (spawned_session dl_api) = WatchOff"
  "dl_conns (spawned_session dl_api) = 0"
  by (simp_all add: spawned_session_def)

lemma at_work:
  assumes ok: "ok D server_sk server_pk m evs (s, t)"
    and "loop_pc (t i) \<noteq> LoopNew \<or> watch_pc (t i) \<noteq> WatchOff \<or> 0 < dl_conns (t i)"
  shows "i < next_mux s" and "session_ok M dview (starts i evs) (beats i evs) (strong_count s i) (t i)"
proof -
  show i: "i < next_mux s" using live_task_exists [OF ok, of i] assms(2) by force
  show "session_ok M dview (starts i evs) (beats i evs) (strong_count s i) (t i)" by (rule tasks_okD(3) [OF ok i])
qed

lemma tasks_ok_start:
  assumes ok: "ok D server_sk server_pk m evs (s, t)" and i: "i < next_mux s" and new: "loop_pc (t i) = LoopNew"
  shows "ok D server_sk server_pk m (evs @ [TStart i]) (arc_clone i s, t(i := start_session dl_api (t i)))"
proof (rule tasks_ok_task [OF ok i])
  note d = tasks_okD [OF ok]
  have pos: "0 < strong_count s i" using d(3) [OF i] new by (auto intro: strong_pos)
  show "run (server_step M D server_sk server_pk) (start_server m) (server_view (evs @ [TStart i])) (arc_clone i s)"
    using run_step [OF d(1) arc_cloned [OF pos]] by (simp add: arc_clone_def)
  show "session_ok M dview (starts i (evs @ [TStart i])) (beats i (evs @ [TStart i]))
      (strong_count (arc_clone i s) i) (start_session dl_api (t i))"
    using start_session_ok [OF d(3) [OF i] new] by (simp add: arc_clone_def)
  show "strong_count s i = 0 \<Longrightarrow> strong_count (arc_clone i s) i = 0" using pos by simp
qed (auto simp: arc_clone_def)

lemma tasks_ok_watch_start:
  assumes ok: "ok D server_sk server_pk m evs (s, t)" and new: "watch_pc (t i) = WatchNew"
  shows "ok D server_sk server_pk m (evs @ [TWatchStart i now]) (s, t(i := (t i)\<lparr>watch_pc := WatchRuns now\<rparr>))"
proof (rule tasks_ok_task [OF ok at_work(1) [OF ok]])
  have "session_ok M dview (starts i evs) (beats i evs) (strong_count s i) (t i)"
    by (rule at_work(2) [OF ok]) (simp add: new)
  from watch_start_ok [OF this new, of now]
  show "session_ok M dview (starts i (evs @ [TWatchStart i now])) (beats i (evs @ [TWatchStart i now]))
      (strong_count s i) ((t i)\<lparr>watch_pc := WatchRuns now\<rparr>)" by simp
qed (use tasks_okD(1) [OF ok] new in auto)

lemma tasks_ok_beat:
  assumes ok: "ok D server_sk server_pk m evs (s, t)" and pc: "watch_pc (t i) = WatchRuns seen"
    and b: "found b = mux_heap s i" and rd: "watch_round M b seen (t i) = (mx, x)"
  shows "ok D server_sk server_pk m (evs @ [TBeat i b]) (put_mux i mx s, t(i := x))"
proof -
  have i: "i < next_mux s" and old: "session_ok M dview (starts i evs) (beats i evs) (strong_count s i) (t i)"
    using at_work [OF ok, of i] pc by simp_all
  from watch_round_ok [OF old pc rd]
  have x: "session_ok M dview (starts i evs) (beats i evs @ [b]) (strong_count s i) x"
    and mx: "mx = retain_alive M (answers b) (found b)" by auto
  have pos: "0 < strong_count s i" by (rule strong_pos [OF old]) (simp add: watch_holds_def pc)
  show ?thesis
  proof (rule tasks_ok_task [OF ok i])
    show "run (server_step M D server_sk server_pk) (start_server m) (server_view (evs @ [TBeat i b])) (put_mux i mx s)"
      using run_step [OF tasks_okD(1) [OF ok] pipes_dropped [OF pos]] by (simp add: put_mux_def mx b)
    show "session_ok M dview (starts i (evs @ [TBeat i b])) (beats i (evs @ [TBeat i b]))
        (strong_count (put_mux i mx s) i) x" using x by (simp add: put_mux_def)
  qed (use b in \<open>auto simp: put_mux_def\<close>)
qed

lemma tasks_ok_notify:
  assumes ok: "ok D server_sk server_pk m evs (s, t)" and pc: "watch_pc (t i) = WatchFound"
    and x: "watch_notify dl_api (t i) = Ready x"
  shows "ok D server_sk server_pk m (evs @ [TNotify i]) (arc_drop i s, t(i := x))"
proof -
  have i: "i < next_mux s" and old: "session_ok M dview (starts i evs) (beats i evs) (strong_count s i) (t i)"
    using at_work [OF ok, of i] pc by simp_all
  have pos: "0 < strong_count s i" by (rule strong_pos [OF old]) (simp add: watch_holds_def pc)
  show ?thesis
  proof (rule tasks_ok_task [OF ok i])
    show "run (server_step M D server_sk server_pk) (start_server m) (server_view (evs @ [TNotify i])) (arc_drop i s)"
      using view_dropped [OF tasks_okD(1) [OF ok] pos] by simp
    show "session_ok M dview (starts i (evs @ [TNotify i])) (beats i (evs @ [TNotify i]))
        (strong_count (arc_drop i s) i) x" using watch_notify_ok [OF old pc] x by (simp add: arc_drop_def)
  qed (auto simp: arc_drop_def)
qed

lemma tasks_ok_look:
  assumes ok: "ok D server_sk server_pk m evs (s, t)" and pos: "0 < dl_conns (t i)"
    and x: "conn_look dl_api (t i) = (hit, x)"
  shows "ok D server_sk server_pk m (evs @ [TLook i hit]) (s, t(i := x))"
  by (rule tasks_ok_task [OF ok at_work(1) [OF ok]])
    (use tasks_okD(1) [OF ok] conn_look_ok [OF at_work(2) [OF ok] pos x] pos in simp_all)

lemma tasks_ok_conn_end:
  assumes ok: "ok D server_sk server_pk m evs (s, t)" and pos: "0 < dl_conns (t i)"
  shows "ok D server_sk server_pk m (evs @ [TConnEnd i]) (s, t(i := conn_ends dl_api (t i)))"
  by (rule tasks_ok_task [OF ok at_work(1) [OF ok]])
    (use tasks_okD(1) [OF ok] conn_ends_ok [OF at_work(2) [OF ok] pos] pos in simp_all)

lemma tasks_ok_step:
  assumes ok: "ok D server_sk server_pk m evs st" and step: "tasks_step M D dl_api server_sk server_pk st e st'"
  shows "ok D server_sk server_pk m (evs @ [e]) st'"
  using step
proof cases
  case (t_server s e' s' t)
  with ok show ?thesis using tasks_ok_server by blast
next
  case (t_start i s t)
  with ok tasks_ok_start show ?thesis by blast
next
  case (t_check t i u x s)
  note w = at_work [OF ok [unfolded t_check(1)], of i]
  from w t_check(4) loop_check_ok [OF w(2) t_check(4,5)]
    tasks_ok_loop(1) [OF ok [unfolded t_check(1)] _ w(1), where e = "TCheck i" and r = "Ok u" and u = u and x = x]
  show ?thesis by (auto simp: t_check(2,3) strong_pos)
next
  case (t_deadline t i e' x s)
  note w = at_work [OF ok [unfolded t_deadline(1)], of i]
  from w t_deadline(4) loop_check_ok [OF w(2) t_deadline(4,5)]
    tasks_ok_loop(2) [OF ok [unfolded t_deadline(1)] _ w(1), where r = "Err e'" and err = e' and x = x]
  show ?thesis by (auto simp: t_deadline(2,3) strong_pos)
next
  case (t_accept t i a rcs x s)
  note w = at_work [OF ok [unfolded t_accept(1)], of i]
  from w t_accept(4) loop_accept_ok [OF w(2) t_accept(4,5)]
    tasks_ok_loop(1) [OF ok [unfolded t_accept(1)] _ w(1), where e = "TAccept i rcs" and r = "Ok rcs" and u = rcs and x = x]
  show ?thesis by (auto simp: t_accept(2,3) strong_pos)
next
  case (t_mux_error t i a e' x s)
  note w = at_work [OF ok [unfolded t_mux_error(1)], of i]
  from w t_mux_error(4) loop_accept_ok [OF w(2) t_mux_error(4,5)]
    tasks_ok_loop(2) [OF ok [unfolded t_mux_error(1)] _ w(1), where r = "Err e'" and err = e' and x = x]
  show ?thesis by (auto simp: t_mux_error(2,3) strong_pos)
next
  case (t_watch_start t i now s)
  with ok tasks_ok_watch_start show ?thesis by blast
next
  case (t_beat t i seen b s mx x)
  with ok tasks_ok_beat show ?thesis by blast
next
  case (t_notify t i x s)
  with ok tasks_ok_notify show ?thesis by blast
next
  case (t_look t i hit x s)
  with ok tasks_ok_look show ?thesis by blast
next
  case (t_conn_end t i s)
  with ok tasks_ok_conn_end show ?thesis by blast
qed

end

sublocale session_tasks \<subseteq> tasks: history_invariant "tasks_step M D dl_api server_sk server_pk"
  "\<lambda>st. st = start_tasks dl_api m0" "tasks_ok M D dl_api dview server_sk server_pk m0"
  for D server_sk server_pk m0
  by unfold_locales (use tasks_start tasks_ok_step in \<open>blast+\<close>)

context session_tasks
begin

lemma run_tasks:
  "run (tasks_step M D dl_api server_sk server_pk) (start_tasks dl_api m) evs st \<Longrightarrow>
   tasks_ok M D dl_api dview server_sk server_pk m evs st"
  by (rule tasks.inv_run) auto

end

interpretation demo_tasks: session_tasks "list_mux :: (string list, string, unit, unit) mux_api" fifo_api id
  by unfold_locales

section \<open>What the tasks guarantee\<close>

context session_tasks
begin

lemma refs_zero:
  assumes "session_ok M dview ts bs 0 x"
  shows "loop_pc x = LoopOver" and "watch_pc x = WatchOver"
    and "\<exists>t0 \<in> ts. session_watch M t0 bs = Some (length bs - 1)"
proof -
  from assms show l: "loop_pc x = LoopOver" by (auto simp: session_ok_def refs_def split: if_splits)
  from assms l show w: "watch_pc x = WatchOver"
    by (auto simp: session_ok_def refs_def watch_holds_def deadline_ok_def split: if_splits)
  from assms w show "\<exists>t0 \<in> ts. session_watch M t0 bs = Some (length bs - 1)"
    by (simp add: session_ok_def watch_hist_def)
qed

lemma watch_over_idle:
  assumes "session_watch M t0 bs = Some (length bs - 1)" and "clock_runs t0 bs"
  shows "idle_at M t0 bs (length bs - 1)"
proof -
  let ?P = "\<lambda>k. k < length bs \<and> idle_at M t0 bs k"
  from session_watch_spec [OF assms(2)] assms(1) obtain k where "?P k" and "(LEAST k. ?P k) = length bs - 1"
    by (auto split: if_splits)
  with LeastI [of ?P k] show ?thesis by simp
qed

lemma lost_after_idle:
  assumes ok: "ok D server_sk server_pk m evs (s, t)" and lost: "(q, h, None) \<in> set (routed (server_view evs))"
  shows "\<exists>i t0. (h, i) \<in> set (session_loops s) \<and> loop_pc (t i) = LoopOver \<and> watch_pc (t i) = WatchOver \<and>
     TWatchStart i t0 \<in> set evs \<and>
     (clock_runs t0 (beats i evs) \<longrightarrow> idle_at M t0 (beats i evs) (length (beats i evs) - 1)) \<and>
     (\<forall>b \<in> set (beats i evs). \<forall>p \<in> set (iter_pipes M (found b)).
        (p, h, Some i) \<in> set (routed (server_view evs)))"
proof -
  note d = tasks_okD [OF ok]
  obtain i where i: "(h, i) \<in> set (session_loops s)" "strong_count s i = 0" using d(5) [OF lost] by blast
  have dead: "session_ok M dview (starts i evs) (beats i evs) 0 (t i)"
    using d(3) [OF server_okD(7) [OF d(2) i(1)]] i(2) by simp
  obtain t0 where t0: "t0 \<in> starts i evs" "session_watch M t0 (beats i evs) = Some (length (beats i evs) - 1)"
    using refs_zero(3) [OF dead] by blast
  have "(p, h, Some i) \<in> set (routed (server_view evs))"
    if b: "b \<in> set (beats i evs)" and p: "p \<in> set (iter_pipes M (found b))" for b p
    using d(6) [OF b p] server_okD(5) [OF d(2)] session_of_mux [OF server_okD(2) [OF d(2)] _ i(1)] by blast
  then show ?thesis
    using i(1) t0(1) watch_over_idle [OF t0(2)] refs_zero(1,2) [OF dead]
    by (intro exI [of _ i] exI [of _ t0]) (auto simp: starts_def)
qed

text \<open>A session that ends tells its deadline and its loop hears it.\<close>

lemma reclaim_run:
  assumes ok: "ok D server_sk server_pk m evs (s, t)" and pc: "watch_pc (t i) = WatchFound" and loop: "loop_runs (t i)"
  shows "\<exists>evs' s' t'. run (tasks_step M D dl_api server_sk server_pk) (s, t) evs' (s', t') \<and>
     last evs' = TEnd i SessionDeadline \<and> set evs' \<subseteq> {TNotify i, TAccept i [], TEnd i SessionDeadline} \<and>
     strong_count s' i = 0 \<and> mux_sessions s' = mux_sessions s \<and> wpl_pc s' = wpl_pc s"
proof -
  let ?step = "tasks_step M D dl_api server_sk server_pk"
  have w: "session_ok M dview (starts i evs) (beats i evs) (strong_count s i) (t i)"
    by (rule at_work(2) [OF ok]) (simp add: pc)
  have "strong_count s i = 2"
    using w pc loop by (auto simp: session_ok_def refs_def watch_holds_def loop_runs_def)
  have heard: "0 < receivers (t i)" using loop by (simp add: receivers_def)
  obtain y where y: "watch_notify dl_api (t i) = Ready y" "loop_pc y = loop_pc (t i)" "queue (dview (dl_chan y)) = [()]"
    using watch_notify_ok [OF w pc] heard by blast
  have s1: "?step (s, t) (TNotify i) (arc_drop i s, t(i := y))" by (rule t_notify) (simp_all add: pc y(1))
  define z where "z = (if loop_pc y = LoopAccept then y\<lparr>loop_pc := LoopCheck\<rparr> else y)"
  have z: "loop_pc z = LoopCheck" "queue (dview (dl_chan z)) = [()]"
    using loop y by (auto simp: z_def loop_runs_def)
  have s2: "run ?step (arc_drop i s, t(i := y)) (if loop_pc y = LoopAccept then [TAccept i []] else [])
      (arc_drop i s, t(i := z))"
  proof (cases "loop_pc y = LoopAccept")
    case True
    have "?step (arc_drop i s, t(i := y)) (TAccept i []) (arc_drop i s, (t(i := y))(i := z))"
      by (rule t_accept [where a = AcceptTimeout]) (simp_all add: True loop_accept_def z_def)
    then show ?thesis using run_cons [OF _ run_start] by (simp add: True)
  qed (simp add: z_def run_start)
  obtain c' where "check_deadline dl_api (Some (dl_chan z)) = (queue (dview (dl_chan z)) \<noteq> [], Some c')"
    using look_cases(2) by blast
  then obtain x where "loop_check dl_api z = (Err SessionDeadline, x)" by (simp add: loop_check_def z(2))
  then have "?step (arc_drop i s, t(i := z)) (TEnd i SessionDeadline) (arc_drop i (arc_drop i s), (t(i := z))(i := x))"
    by (intro t_deadline) (simp_all add: z(1))
  from run_cons [OF s1 run_step [OF s2 this]] \<open>strong_count s i = 2\<close> show ?thesis
    by (intro exI [of _ "TNotify i # (if loop_pc y = LoopAccept then [TAccept i []] else []) @ [TEnd i SessionDeadline]"]
        exI [of _ "arc_drop i (arc_drop i s)"] exI [of _ "(t(i := z))(i := x)"] conjI) (auto simp: arc_drop_def)
qed

text \<open>A session whose deadline was taken by the task of a stream.\<close>

definition deaf :: "'m server \<Rightarrow> (nat \<Rightarrow> 'd session) \<Rightarrow> nat \<Rightarrow> bool" where
  "deaf s t i \<longleftrightarrow> i < next_mux s \<and> watch_pc (t i) = WatchOver \<and> queue (dview (dl_chan (t i))) = [] \<and> loop_runs (t i)"

lemma server_step_keeps_pipes:
  assumes "server_step M D server_sk server_pk s e s'" and "\<not> of_tasks e" and "i < next_mux s"
  shows "set (iter_pipes M (mux_heap s i)) \<subseteq> set (iter_pipes M (mux_heap s' i)) \<and> i < next_mux s'"
  using assms
  by (cases; auto simp: retain_sessions_def accept_session_def new_session_def outcome_simps Let_def
      split: option.splits if_splits)

lemma check_empty:
  "queue (dview c) = [] \<Longrightarrow> check_deadline dl_api (Some c) = (False, Some c)"
  by (rule dl.try_recv_empty) (auto simp: check_deadline_def)

lemma deaf_step:
  assumes deaf: "deaf s t i" and st: "tasks_step M D dl_api server_sk server_pk (s, t) e (s', t')"
    and e: "e \<noteq> TEnd i SessionMuxError"
  shows "deaf s' t' i \<and> beat1 i e = [] \<and> set (iter_pipes M (mux_heap s i)) \<subseteq> set (iter_pipes M (mux_heap s' i))"
proof -
  note d = deaf [unfolded deaf_def]
  have chk: "check_deadline dl_api (Some (dl_chan (t i))) = (False, Some (dl_chan (t i)))"
    using check_empty d by blast
  from st show ?thesis
  proof cases
    case (t_server e')
    from server_step_keeps_pipes [OF t_server(3,4), of i] d t_server(1,2) show ?thesis by (simp add: deaf_def)
  next
    case (t_start j)
    with d show ?thesis by (cases "j = i") (auto simp: deaf_def arc_clone_def loop_runs_def)
  next
    case (t_check j u x)
    with d chk show ?thesis by (cases "j = i") (auto simp: deaf_def loop_check_def loop_runs_def)
  next
    case (t_deadline j e' x)
    with d chk show ?thesis by (cases "j = i") (auto simp: deaf_def loop_check_def loop_runs_def arc_drop_def)
  next
    case (t_accept j a rcs x)
    with d show ?thesis
      by (cases "j = i") (auto simp: deaf_def loop_accept_def loop_runs_def split: accepted_conn.splits)
  next
    case (t_mux_error j a e' x)
    with d e show ?thesis
      by (cases "j = i") (auto simp: deaf_def loop_accept_def arc_drop_def split: accepted_conn.splits)
  next
    case (t_watch_start j now)
    with d show ?thesis by (cases "j = i") (auto simp: deaf_def)
  next
    case (t_beat j seen b m x)
    with d show ?thesis by (cases "j = i") (auto simp: deaf_def put_mux_def)
  next
    case (t_notify j x)
    with d show ?thesis by (cases "j = i") (auto simp: deaf_def arc_drop_def)
  next
    case (t_look j hit x)
    with d chk show ?thesis by (cases "j = i") (auto simp: deaf_def conn_look_def loop_runs_def)
  next
    case (t_conn_end j)
    have "queue (dview (dl_chan (conn_ends dl_api (t i)))) = []"
      using d by (simp add: conn_ends_def close_unheard_simps)
    with t_conn_end d show ?thesis
      by (cases "j = i") (auto simp: deaf_def conn_ends_def close_unheard_simps loop_runs_def)
  qed
qed

lemma deaf_after_look:
  assumes ok: "ok D server_sk server_pk m evs (s, t)" and pc: "watch_pc (t i) = WatchFound"
    and loop: "loop_runs (t i)" and conn: "0 < dl_conns (t i)"
  shows "\<exists>x. run (tasks_step M D dl_api server_sk server_pk) (s, t) [TNotify i, TLook i True] (arc_drop i s, t(i := x)) \<and>
     deaf (arc_drop i s) (t(i := x)) i"
proof -
  let ?step = "tasks_step M D dl_api server_sk server_pk"
  have i: "i < next_mux s" and w: "session_ok M dview (starts i evs) (beats i evs) (strong_count s i) (t i)"
    using at_work [OF ok, of i] pc by simp_all
  have heard: "0 < receivers (t i)" using loop by (simp add: receivers_def)
  obtain y where y: "watch_notify dl_api (t i) = Ready y" "loop_pc y = loop_pc (t i)" "watch_pc y = WatchOver"
    "queue (dview (dl_chan y)) = [()]" "dl_conns y = dl_conns (t i)"
    using watch_notify_ok [OF w pc] heard by blast
  have s1: "?step (s, t) (TNotify i) (arc_drop i s, t(i := y))" by (rule t_notify) (simp_all add: pc y(1))
  obtain c' where c': "check_deadline dl_api (Some (dl_chan y)) = (queue (dview (dl_chan y)) \<noteq> [], Some c')"
    using look_cases(2) by blast
  note v = look_cases(1) [OF c']
  have "?step (arc_drop i s, t(i := y)) (TLook i True) (arc_drop i s, (t(i := y))(i := y\<lparr>dl_chan := c'\<rparr>))"
    by (rule t_look) (use c' y conn in \<open>simp_all add: conn_look_def\<close>)
  then have "run ?step (s, t) [TNotify i, TLook i True] (arc_drop i s, t(i := y\<lparr>dl_chan := c'\<rparr>))"
    using run_cons [where step = ?step, OF s1 run_cons [where step = ?step, OF _ run_start]] by simp
  moreover have "deaf (arc_drop i s) (t(i := y\<lparr>dl_chan := c'\<rparr>)) i"
    using i y v loop by (simp add: deaf_def arc_drop_def loop_runs_def)
  ultimately show ?thesis by blast
qed

lemma deaf_run:
  assumes "run (tasks_step M D dl_api server_sk server_pk) st evs st'" and "deaf (fst st) (snd st) i"
    and "TEnd i SessionMuxError \<notin> set evs"
  shows "deaf (fst st') (snd st') i \<and> beats i evs = [] \<and>
     set (iter_pipes M (mux_heap (fst st) i)) \<subseteq> set (iter_pipes M (mux_heap (fst st') i))"
  using assms
proof (induction rule: run.induct)
  case (run_step st evs st' e st'')
  obtain s t s' t' where st': "st' = (s, t)" "st'' = (s', t')" by (cases st', cases st'') auto
  with run_step have "deaf s t i" "tasks_step M D dl_api server_sk server_pk (s, t) e (s', t')"
    "e \<noteq> TEnd i SessionMuxError" by auto
  from deaf_step [OF this] run_step st' show ?case by auto
qed (simp add: run_start)

end

text \<open>
  Property C39. The server of theory \<open>Sessions\<close> is what the tasks refine: every run of the accept loop
  with the tasks of its sessions is one of its runs, in which the strong count of a
  multiplexer is the number of the tasks of its session that have not ended, and the map
  has every session of which one is left.
\<close>

theorem tasks_refine_server:
  assumes "session_tasks M dl_api dview"
    and "run (tasks_step M D dl_api server_sk server_pk) (start_tasks dl_api m) evs (s, t)"
  shows "run (server_step M D server_sk server_pk) (start_server m) (server_view evs) s \<and>
     (\<forall>i < next_mux s. strong_count s i =
        (if loop_pc (t i) = LoopOver then 0 else 1) + (if watch_holds (t i) then 1 else 0)) \<and>
     (\<forall>h i. (h, i) \<in> set (session_loops s) \<longrightarrow> loop_pc (t i) \<noteq> LoopOver \<or> watch_holds (t i) \<longrightarrow>
        mux_sessions s h = Some i)"
proof -
  have ok: "tasks_ok M D dl_api dview server_sk server_pk m evs (s, t)"
    by (rule session_tasks.run_tasks [OF assms])
  note d = session_tasks.tasks_okD [OF assms(1) ok]
  have counts: "strong_count s i = (if loop_pc (t i) = LoopOver then 0 else 1) + (if watch_holds (t i) then 1 else 0)"
    if "i < next_mux s" for i using d(3) [OF that] by (simp add: session_ok_def refs_def)
  have "mux_sessions s h = Some i"
    if "(h, i) \<in> set (session_loops s)" and "loop_pc (t i) \<noteq> LoopOver \<or> watch_holds (t i)" for h i
    using server_okD(4) [OF d(2) that(1)] counts [OF server_okD(7) [OF d(2) that(1)]] that(2) by auto
  with counts d(1) show ?thesis by blast
qed

text \<open>
  A pipe is lost only by a session that was idle. If the server dropped an
  accepted pipe, then the session it named had a watch, started at some time, whose rounds
  found, for every multiplexer only of that session's pipes, none alive for more than a
  hundred seconds before its last round; and both tasks of that session had ended.
\<close>

theorem pipe_lost_only_after_idle:
  assumes "session_tasks M dl_api dview"
    and "run (tasks_step M D dl_api server_sk server_pk) (start_tasks dl_api m) evs (s, t)"
    and "(q, h, None) \<in> set (routed (server_view evs))"
  shows "\<exists>i t0. (h, i) \<in> set (session_loops s) \<and> loop_pc (t i) = LoopOver \<and> watch_pc (t i) = WatchOver \<and>
     TWatchStart i t0 \<in> set evs \<and>
     (clock_runs t0 (beats i evs) \<longrightarrow> idle_at M t0 (beats i evs) (length (beats i evs) - 1)) \<and>
     (\<forall>b \<in> set (beats i evs). \<forall>p \<in> set (iter_pipes M (found b)).
        (p, h, Some i) \<in> set (routed (server_view evs)))"
  by (rule session_tasks.lost_after_idle [OF assms(1) session_tasks.run_tasks [OF assms(1,2)] assms(3)])

text \<open>
  Property C28. A session that its watch has found idle can be brought down by its own tasks:
  the watch sends the deadline, the loop hears it and returns, and no reference is left; the
  next sweep of the accept loop takes the session out of the map.
\<close>

theorem idle_session_can_end:
  fixes evs :: "('m, 'p, 'rc) tasks_event list"
  assumes "session_tasks M dl_api dview"
    and "run (tasks_step M D dl_api server_sk server_pk) (start_tasks dl_api m) evs (s, t)"
    and "watch_pc (t i) = WatchFound" and "loop_runs (t i)"
  shows "\<exists>(evs' :: ('m, 'p, 'rc) tasks_event list) s' t'.
     run (tasks_step M D dl_api server_sk server_pk) (s, t) evs' (s', t') \<and>
     last evs' = TEnd i SessionDeadline \<and> set evs' \<subseteq> {TNotify i, TAccept i [], TEnd i SessionDeadline} \<and>
     strong_count s' i = 0 \<and> (\<forall>h. mux_sessions (retain_sessions s') h \<noteq> Some i)"
proof -
  have ok: "tasks_ok M D dl_api dview server_sk server_pk m evs (s, t)"
    by (rule session_tasks.run_tasks [OF assms(1,2)])
  from session_tasks.reclaim_run [OF assms(1) ok assms(3,4)] show ?thesis
    by (fastforce simp: retain_sessions_def split: option.splits)
qed

text \<open>
  Property C30. If the task of a stream takes the deadline first, the session never ends:
  as long as the multiplexer accepts streams without error, its loop goes on and its
  multiplexer stays in the map, but no round of a watch looks at its pipes again, so none of
  them is ever dropped.
\<close>

theorem missed_deadline_session_stays:
  fixes evs :: "('m, 'p, 'rc) tasks_event list"
  assumes "session_tasks M dl_api dview"
    and "run (tasks_step M D dl_api server_sk server_pk) (start_tasks dl_api m) evs (s, t)"
    and "watch_pc (t i) = WatchFound" and "loop_runs (t i)" and "0 < dl_conns (t i)"
  shows "\<exists>s1 t1. run (tasks_step M D dl_api server_sk server_pk) (s, t)
       ([TNotify i, TLook i True] :: ('m, 'p, 'rc) tasks_event list) (s1, t1) \<and>
     (\<forall>(evs' :: ('m, 'p, 'rc) tasks_event list) s' t'. run (tasks_step M D dl_api server_sk server_pk) (s1, t1) evs' (s', t') \<longrightarrow>
        TEnd i SessionMuxError \<notin> set evs' \<longrightarrow>
        loop_runs (t' i) \<and> strong_count s' i = 1 \<and> beats i evs' = [] \<and>
        set (iter_pipes M (mux_heap s i)) \<subseteq> set (iter_pipes M (mux_heap s' i)))"
proof -
  have ok: "tasks_ok M D dl_api dview server_sk server_pk m evs (s, t)"
    by (rule session_tasks.run_tasks [OF assms(1,2)])
  from session_tasks.deaf_after_look [OF assms(1) ok assms(3-5)] obtain x where
    r: "run (tasks_step M D dl_api server_sk server_pk) (s, t)
       ([TNotify i, TLook i True] :: ('m, 'p, 'rc) tasks_event list) (arc_drop i s, t(i := x))"
    and deaf: "session_tasks.deaf dview (arc_drop i s) (t(i := x)) i" by blast
  note deaf_def = session_tasks.deaf_def [OF assms(1)]
  have "loop_runs (t' i) \<and> strong_count s' i = 1 \<and> beats i evs' = [] \<and>
      set (iter_pipes M (mux_heap s i)) \<subseteq> set (iter_pipes M (mux_heap s' i))"
    if r': "run (tasks_step M D dl_api server_sk server_pk) (arc_drop i s, t(i := x)) evs' (s', t')"
      and e: "TEnd i SessionMuxError \<notin> set evs'" for evs' :: "('m, 'p, 'rc) tasks_event list" and s' t'
  proof -
    from session_tasks.deaf_run [OF assms(1) r' _ e] deaf have deaf': "session_tasks.deaf dview s' t' i"
      and rest: "beats i evs' = []" "set (iter_pipes M (mux_heap s i)) \<subseteq> set (iter_pipes M (mux_heap s' i))"
      by (simp_all add: arc_drop_def)
    have "tasks_ok M D dl_api dview server_sk server_pk m (evs @ [TNotify i, TLook i True] @ evs') (s', t')"
      by (rule session_tasks.run_tasks [OF assms(1) run_trans [OF assms(2) run_trans [OF r r']]])
    from session_tasks.tasks_okD(3) [OF assms(1) this, of i] deaf' rest show ?thesis
      by (auto simp: deaf_def session_ok_def refs_def watch_holds_def loop_runs_def)
  qed
  with r show ?thesis by blast
qed

section \<open>A session that is found idle\<close>

text \<open>A client connects once, its session accepts a stream, and the watch finds its pipe dead.\<close>

abbreviation demo_tasks_step ::
  "string list server \<times> (nat \<Rightarrow> unit fifo session) \<Rightarrow> (string list, string, nat) tasks_event \<Rightarrow>
   string list server \<times> (nat \<Rightarrow> unit fifo session) \<Rightarrow> bool" where
  "demo_tasks_step \<equiv> tasks_step (list_mux :: (string list, string, unit, unit) mux_api) demo_etag_deps
     (fifo_api :: (unit fifo, unit) chan_api) () [1]"

abbreviation demo_tasks_run where
  "demo_tasks_run evs st \<equiv> run demo_tasks_step (start_tasks fifo_api []) evs st"

definition demo_beat :: "(string list, string) beat" where
  "demo_beat = \<lparr>found = [''p''], answers = (\<lambda>p. []), now1 = 1, now2 = 200 * 10 ^ 9\<rparr>"

definition demo_idle_events :: "u64 \<Rightarrow> (string list, string, nat) tasks_event list" where
  "demo_idle_events h =
     [TServer SRetain, TServer (SAccepted ''p'' h (Some 0)), TServer SRetain, TStart 0, TWatchStart 0 0,
      TCheck 0, TAccept 0 [7], TBeat 0 demo_beat]"

definition demo_session :: "watch_pc \<Rightarrow> nat \<Rightarrow> unit fifo session" where
  "demo_session w n = \<lparr>loop_pc = LoopCheck, watch_pc = w, dl_chan = bounded 1, dl_conns = n\<rparr>"

lemma demo_session_steps:
  "t i = demo_session WatchNew n \<Longrightarrow>
     demo_tasks_step (s, t) (TWatchStart i now) (s, t(i := demo_session (WatchRuns now) n))"
  "t i = demo_session w n \<Longrightarrow>
     demo_tasks_step (s, t) (TCheck i) (s, t(i := (demo_session w n)\<lparr>loop_pc := LoopAccept\<rparr>))"
  "t i = (demo_session w n)\<lparr>loop_pc := LoopAccept\<rparr> \<Longrightarrow>
     demo_tasks_step (s, t) (TAccept i [rc]) (s, t(i := demo_session w (n + 1)))"
  "t i = demo_session (WatchRuns 0) n \<Longrightarrow> mux_heap s i = [''p''] \<Longrightarrow>
     demo_tasks_step (s, t) (TBeat i demo_beat) (put_mux i [] s, t(i := demo_session WatchFound n))"
proof -
  show "t i = demo_session WatchNew n \<Longrightarrow>
     demo_tasks_step (s, t) (TWatchStart i now) (s, t(i := demo_session (WatchRuns now) n))"
    using t_watch_start [of t i list_mux demo_etag_deps fifo_api "()" "[1]" s now] by (simp add: demo_session_def)
  show "t i = demo_session w n \<Longrightarrow>
     demo_tasks_step (s, t) (TCheck i) (s, t(i := (demo_session w n)\<lparr>loop_pc := LoopAccept\<rparr>))"
    by (rule t_check) (simp_all add: demo_session_def loop_check_def check_deadline_def fifo_api_def
        fifo_try_recv_def bounded_def)
  show "t i = (demo_session w n)\<lparr>loop_pc := LoopAccept\<rparr> \<Longrightarrow>
     demo_tasks_step (s, t) (TAccept i [rc]) (s, t(i := demo_session w (n + 1)))"
    by (rule t_accept [where a = "AcceptedConn rc"]) (simp_all add: demo_session_def loop_accept_def)
  show "t i = demo_session (WatchRuns 0) n \<Longrightarrow> mux_heap s i = [''p''] \<Longrightarrow>
     demo_tasks_step (s, t) (TBeat i demo_beat) (put_mux i [] s, t(i := demo_session WatchFound n))"
    by (rule t_beat [where seen = 0])
      (simp_all add: demo_session_def demo_beat_def watch_round_def pipemgr_turn_def retain_alive_def list_mux_def
        over_100_secs)
qed

lemma demo_idle_run:
  assumes h: "etag_from demo_etag_deps [1] md = Ok h"
  shows "\<exists>s t. demo_tasks_run (demo_idle_events h) (s, t) \<and> t 0 = demo_session WatchFound 1 \<and>
     wpl_pc s = WplAccept \<and> mux_sessions s h = Some 0"
proof -
  let ?M = "list_mux :: (string list, string, unit, unit) mux_api" and ?s0 = "start_server [] :: string list server"
  let ?t0 = "\<lambda>i :: nat. spawned_session fifo_api :: unit fifo session"
  define s1 where "s1 = (retain_sessions ?s0)\<lparr>wpl_pc := WplAccept\<rparr>"
  have s1: "mux_sessions s1 h = None" "next_mux s1 = 0" "wpl_pc s1 = WplAccept"
    by (simp_all add: s1_def start_server_def retain_sessions_def)
  define s2 where "s2 = (new_session ?M () h s1)\<lparr>wpl_pc := WplTop, mux_heap := (mux_heap s1)(0 := [''p''])\<rparr>"
  have acc: "accept_session ?M demo_etag_deps () [1] ''p'' md s1 = Ok (h, Some 0, s2)"
    using list_mux.accept_session_cases [OF h, where s = s1 and p = "''p''" and server_sk = "()"] s1
    by (simp add: s2_def) (simp add: list_mux_def)
  have s2: "wpl_pc s2 = WplTop" "mux_sessions s2 h = Some 0" "next_mux s2 = 1" "mux_heap s2 0 = [''p'']"
    "strong_count s2 0 = 1"
    using s1 by (simp_all add: s2_def new_session_def Let_def)
  define s3 where "s3 = (retain_sessions s2)\<lparr>wpl_pc := WplAccept\<rparr>"
  have s3: "wpl_pc s3 = WplAccept" "mux_sessions s3 h = Some 0" "next_mux s3 = 1" "mux_heap s3 0 = [''p'']"
    using s2 by (simp_all add: s3_def retain_sessions_def)
  define s4 where "s4 = arc_clone 0 s3"
  have s4: "wpl_pc s4 = WplAccept" "mux_sessions s4 h = Some 0" "mux_heap s4 0 = [''p'']"
    using s3 by (simp_all add: s4_def arc_clone_def)
  have "demo_tasks_step (?s0, ?t0) (TServer SRetain) (s1, ?t0)"
    unfolding s1_def by (rule t_server [OF server_retains]) (simp_all add: start_server_def)
  moreover have "demo_tasks_step (s1, ?t0) (TServer (SAccepted ''p'' h (Some 0))) (s2, ?t0)"
    by (rule t_server [OF server_accepts [OF s1(3) acc]]) simp
  moreover have "demo_tasks_step (s2, ?t0) (TServer SRetain) (s3, ?t0)"
    unfolding s3_def by (rule t_server [OF server_retains]) (simp_all add: s2)
  moreover have "demo_tasks_step (s3, ?t0) (TStart 0) (s4, ?t0(0 := demo_session WatchNew 0))"
    using t_start [of 0 s3 ?t0 ?M demo_etag_deps fifo_api "()" "[1]"] s3(3)
    by (simp add: s4_def demo_session_def start_session_def spawned_session_def fifo_api_def)
  moreover have "demo_tasks_step (s4, ?t0(0 := demo_session WatchNew 0)) (TWatchStart 0 0)
      (s4, ?t0(0 := demo_session (WatchRuns 0) 0))"
    using demo_session_steps(1) [of "?t0(0 := demo_session WatchNew 0)" 0 0 s4 0] by simp
  moreover have "demo_tasks_step (s4, ?t0(0 := demo_session (WatchRuns 0) 0)) (TCheck 0)
      (s4, ?t0(0 := (demo_session (WatchRuns 0) 0)\<lparr>loop_pc := LoopAccept\<rparr>))"
    using demo_session_steps(2) [of "?t0(0 := demo_session (WatchRuns 0) 0)" 0 "WatchRuns 0" 0 s4] by simp
  moreover have "demo_tasks_step (s4, ?t0(0 := (demo_session (WatchRuns 0) 0)\<lparr>loop_pc := LoopAccept\<rparr>))
      (TAccept 0 [7]) (s4, ?t0(0 := demo_session (WatchRuns 0) 1))"
    using demo_session_steps(3) [of "?t0(0 := (demo_session (WatchRuns 0) 0)\<lparr>loop_pc := LoopAccept\<rparr>)" 0 "WatchRuns 0" 0 s4 7]
    by simp
  moreover have "demo_tasks_step (s4, ?t0(0 := demo_session (WatchRuns 0) 1)) (TBeat 0 demo_beat)
      (put_mux 0 [] s4, ?t0(0 := demo_session WatchFound 1))"
    using demo_session_steps(4) [of "?t0(0 := demo_session (WatchRuns 0) 1)" 0 1 s4] s4(3) by simp
  ultimately have "demo_tasks_run (demo_idle_events h) (put_mux 0 [] s4, ?t0(0 := demo_session WatchFound 1))"
    unfolding demo_idle_events_def start_tasks_def by (meson run_cons run_start)
  then show ?thesis using s4(1,2)
    by (intro exI [of _ "put_mux 0 [] s4"] exI [of _ "?t0(0 := demo_session WatchFound 1)"]) (simp add: put_mux_def)
qed

lemma demo_hash: "\<exists>h. etag_from demo_etag_deps [1] (b64_encode (replicate 16 0)) = Ok h"
  using demo_etag_from by blast

theorem tasks_refine_server_witness:
  "\<exists>h s t. demo_tasks_run (demo_idle_events h) (s, t) \<and> 0 < next_mux s \<and> strong_count s 0 = 2 \<and>
     run (server_step list_mux demo_etag_deps () [1]) (start_server [])
       [SRetain, SAccepted ''p'' h (Some 0), SRetain, SArcCloned 0, SPipesDropped 0] s"
proof -
  obtain h where h: "etag_from demo_etag_deps [1] (b64_encode (replicate 16 0)) = Ok h" using demo_hash by blast
  from demo_idle_run [OF h] obtain s t where r: "demo_tasks_run (demo_idle_events h) (s, t)"
    and t: "t 0 = demo_session WatchFound 1" by blast
  from demo_tasks.at_work(1) [OF demo_tasks.run_tasks [OF r], of 0] t have "0 < next_mux s"
    by (simp add: demo_session_def)
  with tasks_refine_server [OF demo_tasks.session_tasks_axioms r] r t show ?thesis
    by (intro exI [of _ h] exI [of _ s] exI [of _ t])
      (simp add: demo_session_def watch_holds_def server_view_def demo_idle_events_def)
qed

theorem pipe_lost_only_after_idle_witness:
  "\<exists>h evs s t. demo_tasks_run (demo_idle_events h @ evs @ [TServer (SAccepted ''q'' h None)]) (s, t) \<and>
     (\<exists>i. (h, i) \<in> set (session_loops s) \<and> loop_pc (t i) = LoopOver)"
proof -
  obtain h where h: "etag_from demo_etag_deps [1] (b64_encode (replicate 16 0)) = Ok h" using demo_hash by blast
  from demo_idle_run [OF h] obtain s t where r: "demo_tasks_run (demo_idle_events h) (s, t)"
    and t: "t 0 = demo_session WatchFound 1" and s: "wpl_pc s = WplAccept" "mux_sessions s h = Some 0" by blast
  from demo_tasks.reclaim_run [OF demo_tasks.run_tasks [OF r], of 0] t obtain evs s' t' where
    r': "run demo_tasks_step (s, t) evs (s', t')" and s': "strong_count s' 0 = 0" "mux_sessions s' = mux_sessions s"
      "wpl_pc s' = wpl_pc s"
    by (auto simp: demo_session_def loop_runs_def)
  have "accept_session list_mux demo_etag_deps () [1] ''q'' (b64_encode (replicate 16 0)) s' =
      Ok (h, None, s'\<lparr>wpl_pc := WplTop\<rparr>)"
    using list_mux.accept_session_cases [OF h, where s = s' and p = "''q''" and server_sk = "()"] s s' by simp
  then have "demo_tasks_step (s', t') (TServer (SAccepted ''q'' h None)) (s'\<lparr>wpl_pc := WplTop\<rparr>, t')"
    by (intro t_server [OF server_accepts]) (simp_all add: s s')
  from run_trans [OF r run_step [OF r' this]]
  have r2: "demo_tasks_run (demo_idle_events h @ evs @ [TServer (SAccepted ''q'' h None)]) (s'\<lparr>wpl_pc := WplTop\<rparr>, t')"
    by simp
  have "(''q'', h, None) \<in> set (routed (server_view (demo_idle_events h @ evs @ [TServer (SAccepted ''q'' h None)])))"
    by (simp add: server_view_def routed_def)
  from pipe_lost_only_after_idle [OF demo_tasks.session_tasks_axioms r2 this] r2 show ?thesis by blast
qed

theorem idle_session_can_end_witness:
  "\<exists>h evs s t. demo_tasks_run (demo_idle_events h @ evs) (s, t) \<and> strong_count s 0 = 0"
proof -
  obtain h where h: "etag_from demo_etag_deps [1] (b64_encode (replicate 16 0)) = Ok h" using demo_hash by blast
  from demo_idle_run [OF h] obtain s t where r: "demo_tasks_run (demo_idle_events h) (s, t)"
    and t: "t 0 = demo_session WatchFound 1" by blast
  from idle_session_can_end [OF demo_tasks.session_tasks_axioms r, of 0] t obtain evs s' t' where
    "run demo_tasks_step (s, t) evs (s', t')" "strong_count s' 0 = 0"
    by (auto simp: demo_session_def loop_runs_def)
  with run_trans [OF r] show ?thesis by blast
qed

theorem missed_deadline_session_stays_witness:
  "\<exists>h s t. demo_tasks_run (demo_idle_events h @ [TNotify 0, TLook 0 True]) (s, t) \<and> strong_count s 0 = 1"
proof -
  obtain h where h: "etag_from demo_etag_deps [1] (b64_encode (replicate 16 0)) = Ok h" using demo_hash by blast
  from demo_idle_run [OF h] obtain s t where r: "demo_tasks_run (demo_idle_events h) (s, t)"
    and t: "t 0 = demo_session WatchFound 1" by blast
  from missed_deadline_session_stays [OF demo_tasks.session_tasks_axioms r, of 0] t obtain s1 t1 where
    r1: "run demo_tasks_step (s, t) [TNotify 0, TLook 0 True] (s1, t1)" and
    stays: "\<forall>evs' s' t'. run demo_tasks_step (s1, t1) evs' (s', t') \<longrightarrow> TEnd 0 SessionMuxError \<notin> set evs' \<longrightarrow>
      loop_runs (t' 0) \<and> strong_count s' 0 = 1 \<and> beats 0 evs' = [] \<and>
      set (iter_pipes list_mux (mux_heap s 0)) \<subseteq> set (iter_pipes list_mux (mux_heap s' 0))"
    by (auto simp: demo_session_def loop_runs_def)
  from stays run_start [of demo_tasks_step "(s1, t1)"] have "strong_count s1 0 = 1" by fastforce
  with run_trans [OF r r1] show ?thesis by blast
qed

end
