(* ===== verification/WholeServer.thy ===== *)
theory WholeServer
  imports Server SessionTasks
begin

text \<open>
  The wsocks server as a whole: the listener with its connections, the accept loop, and the
  tasks of every session, in one step relation. Everything theory \<open>Server\<close> says of the first
  two, and everything theory \<open>SessionTasks\<close> says of the last two, holds of it, because its
  runs project to theirs.
\<close>


section \<open>The relation\<close>

fun sys_of_tasks :: "'p sys_event \<Rightarrow> bool" where
  "sys_of_tasks (SysServer e) = of_tasks e"
| "sys_of_tasks _ = False"

fun tasks_of_server :: "('m, 'p, 'rc) tasks_event \<Rightarrow> bool" where
  "tasks_of_server (TServer e) = True"
| "tasks_of_server _ = False"

datatype ('m, 'p, 'rc) whole_event = WSys "'p sys_event" | WTask "('m, 'p, 'rc) tasks_event"

text \<open>When the accept loop has ended, the process ends, and with it the tasks.\<close>

inductive whole_step ::
  "('n, string) chan_api \<Rightarrow> ('c, bytes) chan_api \<Rightarrow> ('q, 'c wires \<times> pipe_handle) chan_api \<Rightarrow>
   (string \<Rightarrow> unit + string) \<Rightarrow> ('m, 'c wires \<times> pipe_handle, 'sk, 'pk) mux_api \<Rightarrow> ('t, 'i) etag_deps \<Rightarrow>
   ('c wires \<times> pipe_handle \<Rightarrow> string) \<Rightarrow> ('d, unit) chan_api \<Rightarrow> 'sk \<Rightarrow> bytes \<Rightarrow>
   ('q, 'c) pipe_listener \<times> 'm server \<times> (nat \<Rightarrow> 'd session) \<Rightarrow> ('m, 'c wires \<times> pipe_handle, 'rc) whole_event \<Rightarrow>
   ('q, 'c) pipe_listener \<times> 'm server \<times> (nat \<Rightarrow> 'd session) \<Rightarrow> bool"
  for m_api api q_api to_str M D peer_metadata dl_api server_sk server_pk where
  w_sys:
    "server_sys_step m_api api q_api to_str M D peer_metadata server_sk server_pk (l, s) e (l', s') \<Longrightarrow>
     \<not> sys_of_tasks e \<Longrightarrow>
     whole_step m_api api q_api to_str M D peer_metadata dl_api server_sk server_pk (l, s, t) (WSys e) (l', s', t)"
| w_task:
    "tasks_step M D dl_api server_sk server_pk (s, t) e (s', t') \<Longrightarrow> \<not> tasks_of_server e \<Longrightarrow> wpl_pc s \<noteq> WplEnded \<Longrightarrow>
     whole_step m_api api q_api to_str M D peer_metadata dl_api server_sk server_pk (l, s, t) (WTask e) (l, s', t')"

definition start_whole ::
  "('q, 'c wires \<times> pipe_handle) chan_api \<Rightarrow> ('d, unit) chan_api \<Rightarrow> 'm \<Rightarrow>
   ('q, 'c) pipe_listener \<times> 'm server \<times> (nat \<Rightarrow> 'd session)" where
  "start_whole q_api dl_api m = (listener_from q_api, start_tasks dl_api m)"

text \<open>The events as listener and accept loop see them, and as accept loop and tasks do.\<close>

fun sys_part1 :: "('m, 'p, 'rc) whole_event \<Rightarrow> 'p sys_event list" where
  "sys_part1 (WSys e) = [e]"
| "sys_part1 (WTask e) = map SysServer (server_view1 e)"

fun tasks_part1 :: "('m, 'p, 'rc) whole_event \<Rightarrow> ('m, 'p, 'rc) tasks_event list" where
  "tasks_part1 (WSys e) = map TServer (server_part1 e)"
| "tasks_part1 (WTask e) = [e]"

definition sys_part :: "('m, 'p, 'rc) whole_event list \<Rightarrow> 'p sys_event list" where
  "sys_part evs = concat (map sys_part1 evs)"

definition tasks_part :: "('m, 'p, 'rc) whole_event list \<Rightarrow> ('m, 'p, 'rc) tasks_event list" where
  "tasks_part evs = concat (map tasks_part1 evs)"

lemma whole_parts [simp]:
  "sys_part [] = []" "sys_part (evs @ [e]) = sys_part evs @ sys_part1 e"
  "tasks_part [] = []" "tasks_part (evs @ [e]) = tasks_part evs @ tasks_part1 e"
  by (simp_all add: sys_part_def tasks_part_def)

lemma tasks_view_length: "length (server_view1 e) \<le> 1"
  by (cases e) auto

lemma server_view_part:
  "server_view (tasks_part evs) = server_part (sys_part evs)"
proof (induction evs rule: rev_induct)
  case (snoc e evs)
  have "server_view (map TServer xs) = xs" for xs :: "'a server_event list"
    by (induction xs) (auto simp: server_view_def)
  moreover have "server_part (map SysServer xs) = xs" for xs :: "'a server_event list"
    by (induction xs) (auto simp: server_part_def)
  moreover have "server_view (a @ b) = server_view a @ server_view b" "server_part (c @ d) = server_part c @ server_part d"
    for a b :: "('b, 'a, 'c) tasks_event list" and c d :: "'a sys_event list"
    by (simp_all add: server_view_def server_part_def)
  ultimately show ?case using snoc by (cases e) (simp_all, simp_all add: server_view_def server_part_def)
qed simp

section \<open>Both invariants hold of the whole\<close>

locale whole_server = server_system m_api mview api q_api qview to_str M D peer_metadata + dl: smol_channel dl_api dview
  for m_api :: "('n, string) chan_api" and mview :: "'n \<Rightarrow> string fifo" and api :: "('c, bytes) chan_api"
    and q_api :: "('q, 'c wires \<times> pipe_handle) chan_api" and qview :: "'q \<Rightarrow> ('c wires \<times> pipe_handle) fifo"
    and to_str :: "string \<Rightarrow> unit + string" and M :: "('m, 'c wires \<times> pipe_handle, 'sk, 'pk) mux_api"
    and D :: "('t, 'i) etag_deps" and peer_metadata :: "'c wires \<times> pipe_handle \<Rightarrow> string"
    and dl_api :: "('d, unit) chan_api" and dview :: "'d \<Rightarrow> unit fifo"
begin

definition whole_ok ::
  "'sk \<Rightarrow> bytes \<Rightarrow> 'm \<Rightarrow> ('m, 'c wires \<times> pipe_handle, 'rc) whole_event list \<Rightarrow>
   ('q, 'c) pipe_listener \<times> 'm server \<times> (nat \<Rightarrow> 'd session) \<Rightarrow> bool" where
  "whole_ok server_sk server_pk m evs x \<longleftrightarrow> (case x of (l, s, t) \<Rightarrow>
     system_ok server_sk server_pk m (sys_part evs) (l, s) \<and>
     tasks_ok M D dl_api dview server_sk server_pk m (tasks_part evs) (s, t))"

lemma tasks_locale: "session_tasks M dl_api dview"
  by (intro session_tasks.intro mux dl.smol_channel_axioms)

lemma whole_start: "whole_ok server_sk server_pk m [] (start_whole q_api dl_api m)"
  using system_start [of server_sk server_pk m] session_tasks.tasks_start [OF tasks_locale, of D server_sk server_pk m]
  by (simp add: whole_ok_def start_whole_def start_system_def start_tasks_def)

lemma task_keeps_pc:
  assumes "tasks_step M D dl_api server_sk server_pk (s, t) e (s', t')" and "\<not> tasks_of_server e"
  shows "wpl_pc s' = wpl_pc s" and "routed (server_view1 e) = []"
  using assms by (cases; auto simp: arc_clone_def arc_drop_def put_mux_def routed_def)+

lemma system_ok_task:
  assumes ok: "system_ok server_sk server_pk m evs (l, s)"
    and r: "run (server_step M D server_sk server_pk) (start_server m) (server_part evs @ xs) s'"
    and quiet: "routed xs = []" and pc: "wpl_pc s' = wpl_pc s"
  shows "system_ok server_sk server_pk m (evs @ map SysServer xs) (l, s')"
proof -
  have "server_part (evs @ map SysServer xs) = server_part evs @ xs"
    by (simp add: server_part_def) (induction xs; simp)
  moreover have "listener_part (evs @ map SysServer xs) = listener_part evs"
    by (simp add: listener_part_def)
  moreover have "routed (server_part evs @ xs) = routed (server_part evs)"
    using quiet by (simp add: routed_def)
  ultimately show ?thesis using ok r pc by (auto simp: system_ok_def)
qed

lemma whole_step_ok:
  assumes ok: "whole_ok server_sk server_pk m evs x"
    and st: "whole_step m_api api q_api to_str M D peer_metadata dl_api server_sk server_pk x e x'"
  shows "whole_ok server_sk server_pk m (evs @ [e]) x'"
  using st
proof cases
  case (w_sys l s e' l' s' t)
  have sys: "system_ok server_sk server_pk m (sys_part evs) (l, s)"
    and tasks: "tasks_ok M D dl_api dview server_sk server_pk m (tasks_part evs) (s, t)"
    using ok by (simp_all add: whole_ok_def w_sys(1))
  note sys' = system_step [OF sys w_sys(4)]
  note on_server = session_tasks.tasks_ok_server [OF tasks_locale tasks]
  have "tasks_ok M D dl_api dview server_sk server_pk m (tasks_part evs @ map TServer (server_part1 e')) (s', t)"
    using w_sys(4)
  proof cases
    case sys_listener
    with tasks show ?thesis by simp
  next
    case (sys_server e'')
    with on_server [OF sys_server(3)] w_sys(5) show ?thesis by simp
  next
    case (sys_accept made p h target)
    from on_server [OF server_accepts [OF sys_accept(2,5)]] sys_accept(1) show ?thesis by simp
  next
    case (sys_refused made p e'')
    from on_server [OF server_rejects [OF sys_refused(3,6)]] sys_refused(1,2) show ?thesis by simp
  next
    case (sys_panic made p msg)
    with sys' show ?thesis by (cases p) (auto simp: system_ok_def)
  next
    case (sys_gone e'')
    from on_server [OF listener_gone [OF sys_gone(4)]] sys_gone(1-3) show ?thesis by simp
  qed
  with sys' show ?thesis by (simp add: whole_ok_def w_sys(2,3))
next
  case (w_task s t e' s' t' l)
  have sys: "system_ok server_sk server_pk m (sys_part evs) (l, s)"
    and tasks: "tasks_ok M D dl_api dview server_sk server_pk m (tasks_part evs) (s, t)"
    using ok by (simp_all add: whole_ok_def w_task(1))
  note tasks' = session_tasks.tasks_ok_step [OF tasks_locale tasks w_task(4)]
  have "run (server_step M D server_sk server_pk) (start_server m) (server_part (sys_part evs) @ server_view1 e') s'"
    using session_tasks.tasks_okD(1) [OF tasks_locale tasks'] by (simp add: server_view_part)
  from system_ok_task [OF sys this task_keeps_pc(2,1) [OF w_task(4,5)]] tasks' show ?thesis
    by (simp add: whole_ok_def w_task(2,3))
qed

end

sublocale whole_server \<subseteq> whole: history_invariant
  "whole_step m_api api q_api to_str M D peer_metadata dl_api server_sk server_pk"
  "\<lambda>x. x = start_whole q_api dl_api m0" "whole_ok server_sk server_pk m0"
  for server_sk server_pk m0
  by unfold_locales (use whole_start whole_step_ok in \<open>blast+\<close>)

context whole_server
begin

lemma run_whole:
  "run (whole_step m_api api q_api to_str M D peer_metadata dl_api server_sk server_pk) (start_whole q_api dl_api m) evs x \<Longrightarrow>
   whole_ok server_sk server_pk m evs x"
  by (rule whole.inv_run) auto

end

section \<open>What the whole server guarantees\<close>

text \<open>
  Property C16. Every pipe that the listener hands out is routed, in order and under the
  session hash of its own header, to a multiplexer made for that session. Only if the two
  tasks of that session have ended is it dropped instead, and then the watch of the session
  had seen no live pipe for over a hundred seconds. No request can end the accept loop: when
  it has ended, its listener was over and nothing waited in the queue.
\<close>

theorem every_pipe_reaches_its_session:
  assumes "whole_server m_api mview q_api qview to_str M D peer_metadata dl_api dview"
    and "run (whole_step m_api api q_api to_str M D peer_metadata dl_api server_sk server_pk)
       (start_whole q_api dl_api m) evs (l, s, t)"
  shows "map fst (routed (server_part (sys_part evs))) = taken_pipes (listener_part (sys_part evs)) \<and>
     (\<forall>p h target. (p, h, target) \<in> set (routed (server_part (sys_part evs))) \<longrightarrow>
        (\<exists>md. peer_url (snd p) = ''#'' @ md \<and> etag_from D server_pk md = Ok h) \<and>
        (case target of
           Some i \<Rightarrow> (h, i) \<in> set (session_loops s)
         | None \<Rightarrow> \<exists>i t0. (h, i) \<in> set (session_loops s) \<and> loop_pc (t i) = LoopOver \<and> watch_pc (t i) = WatchOver \<and>
             TWatchStart i t0 \<in> set (tasks_part evs) \<and>
             (clock_runs t0 (beats i (tasks_part evs)) \<longrightarrow>
                idle_at M t0 (beats i (tasks_part evs)) (length (beats i (tasks_part evs)) - 1)))) \<and>
     (wpl_pc s = WplEnded \<longrightarrow> \<not> listening l \<and> conn_tasks l = [] \<and> queue (qview (pipe_queue l)) = [])"
proof -
  note sys_loc = whole_server.axioms(1) [OF assms(1)] and task_loc = whole_server.tasks_locale [OF assms(1)]
  have ok: "whole_server.whole_ok m_api api q_api qview to_str M D peer_metadata dl_api dview server_sk server_pk m evs (l, s, t)"
    by (rule whole_server.run_whole [OF assms])
  then have sys: "server_system.system_ok m_api api q_api qview to_str M D peer_metadata server_sk server_pk m
      (sys_part evs) (l, s)"
    and tasks: "tasks_ok M D dl_api dview server_sk server_pk m (tasks_part evs) (s, t)"
    by (simp_all add: whole_server.whole_ok_def [OF assms(1)])
  note sys' = sys [unfolded server_system.system_ok_def [OF sys_loc]]
  have lr: "run (listener_step m_api api q_api (b64_dec D) to_str) (listener_from q_api) (listener_part (sys_part evs)) l"
    and order: "taken_pipes (listener_part (sys_part evs)) = map fst (routed (server_part (sys_part evs)))"
    using sys' by simp_all
  have hash: "etag_from D server_pk (peer_metadata p) = Ok h"
    if "(p, h, target) \<in> set (routed (server_part (sys_part evs)))" for p h target using sys' that by blast
  have url: "\<exists>md. peer_url (snd p) = ''#'' @ md \<and> etag_from D server_pk md = Ok h"
    if r: "(p, h, target) \<in> set (routed (server_part (sys_part evs)))" for p h target
  proof -
    have "p \<in> set (taken_pipes (listener_part (sys_part evs)))" using r by (force simp: order)
    from server_system.taken_pipe_hash [OF sys_loc lr this] hash [OF r] show ?thesis by auto
  qed
  have target: "case target of
        Some i \<Rightarrow> (h, i) \<in> set (session_loops s)
      | None \<Rightarrow> \<exists>i t0. (h, i) \<in> set (session_loops s) \<and> loop_pc (t i) = LoopOver \<and> watch_pc (t i) = WatchOver \<and>
          TWatchStart i t0 \<in> set (tasks_part evs) \<and>
          (clock_runs t0 (beats i (tasks_part evs)) \<longrightarrow>
             idle_at M t0 (beats i (tasks_part evs)) (length (beats i (tasks_part evs)) - 1))"
    if r: "(p, h, target) \<in> set (routed (server_part (sys_part evs)))" for p h target
  proof (cases target)
    case None
    with r have "(p, h, None) \<in> set (routed (server_view (tasks_part evs)))" by (simp add: server_view_part)
    from session_tasks.lost_after_idle [OF task_loc tasks this] show ?thesis using None by auto
  next
    case (Some i)
    from server_okD(5) [OF session_tasks.tasks_okD(2) [OF task_loc tasks]] r Some show ?thesis
      by (simp add: server_view_part)
  qed
  have over: "wpl_pc s = WplEnded \<Longrightarrow> listener_over qview l" using sys' by simp
  show ?thesis
    by (intro conjI allI impI order [symmetric] url target over [unfolded listener_over_def, THEN conjunct1]
        over [unfolded listener_over_def, THEN conjunct2, THEN conjunct1]
        over [unfolded listener_over_def, THEN conjunct2, THEN conjunct2])
qed

interpretation demo_whole: whole_server fifo_api id "fifo_api :: (bytes fifo, bytes) chan_api" fifo_api id
  ascii_to_str list_mux demo_etag_deps url_metadata fifo_api id
  by (intro whole_server.intro demo_system.server_system_axioms fifo.smol_channel_axioms)

lemma lift_sys_run:
  assumes "run (server_sys_step m_api api q_api to_str M D peer_metadata server_sk server_pk) ls evs ls'"
    and "\<forall>e \<in> set evs. \<not> sys_of_tasks e"
  shows "run (whole_step m_api api q_api to_str M D peer_metadata dl_api server_sk server_pk)
     (fst ls, snd ls, t) (map WSys evs) (fst ls', snd ls', t)"
  using assms
proof (induction rule: run.induct)
  case (run_step ls evs ls' e ls'')
  have "whole_step m_api api q_api to_str M D peer_metadata dl_api server_sk server_pk
      (fst ls', snd ls', t) (WSys e) (fst ls'', snd ls'', t)"
    by (rule w_sys) (use run_step in simp_all)
  from run.run_step [OF run_step.IH this] run_step.prems show ?case by simp
qed (simp add: run_start)

abbreviation demo_whole_step where
  "demo_whole_step \<equiv> whole_step fifo_api (fifo_api :: (bytes fifo, bytes) chan_api)
     (fifo_api :: ((bytes fifo wires \<times> pipe_handle) fifo, _) chan_api) ascii_to_str
     list_mux demo_etag_deps url_metadata (fifo_api :: (unit fifo, unit) chan_api) () [1]"

theorem every_pipe_reaches_its_session_witness:
  "\<exists>evs l s t h. run demo_whole_step (start_whole fifo_api fifo_api [])
       (evs :: ((bytes fifo wires \<times> pipe_handle) list, bytes fifo wires \<times> pipe_handle, nat) whole_event list) (l, s, t) \<and>
     taken_pipes (listener_part (sys_part evs)) = [demo_pipe] \<and>
     (demo_pipe, h, Some 0) \<in> set (routed (server_part (sys_part evs))) \<and> (h, 0) \<in> set (session_loops s)"
proof -
  have "b64_dec demo_etag_deps demo_key \<noteq> None \<and> length (the (b64_dec demo_etag_deps demo_key)) = 16"
    using demo_key_valid by (auto simp: valid_key_def demo_etag_deps_def split: option.splits)
  then obtain h where h: "etag_from demo_etag_deps [1] demo_key = Ok h"
    using demo_etag.from_Ok [of demo_key _ "[1]"] by auto
  let ?evs = "[SysListener LIncoming, SysListener LServed, SysListener (LQueued demo_pipe), SysServer SRetain,
      SysAccept demo_pipe h (Some 0)]"
  obtain s where r: "run demo_system_step (start_system fifo_api []) ?evs (demo_listener [] [] True, s)"
    using demo_system_run [OF h] by blast
  define wevs :: "((bytes fifo wires \<times> pipe_handle) list, bytes fifo wires \<times> pipe_handle, nat) whole_event list" where "wevs = map WSys ?evs"
  have w: "run demo_whole_step (start_whole fifo_api fifo_api []) wevs
      (demo_listener [] [] True, s, \<lambda>i. spawned_session fifo_api)"
    using lift_sys_run [OF r, where dl_api = "fifo_api :: (unit fifo, unit) chan_api" and t = "\<lambda>i. spawned_session fifo_api"]
    by (simp add: wevs_def start_system_def start_whole_def start_tasks_def)
  have routed: "routed (server_part (sys_part wevs)) = [(demo_pipe, h, Some 0)]"
    by (simp add: wevs_def server_part_def routed_def sys_part_def)
  note T = every_pipe_reaches_its_session [OF demo_whole.whole_server_axioms w, unfolded routed]
  from T have "taken_pipes (listener_part (sys_part wevs)) = [demo_pipe]" by simp
  moreover have "(h, 0) \<in> set (session_loops s)"
    using T [THEN conjunct2, THEN conjunct1, THEN spec [of _ demo_pipe], THEN spec [of _ h], THEN spec [of _ "Some 0"]]
    by simp
  ultimately show ?thesis using w routed
    by (intro exI [of _ wevs] exI [of _ "demo_listener [] [] True"] exI [of _ s]
        exI [of _ "\<lambda>i. spawned_session fifo_api"] exI [of _ h]) simp
qed

end
