(* ===== verification/Examples.thy ===== *)
theory Examples
  imports Channel
begin

text \<open>
  The measuring clients of \<open>examples/obfsws-test-1.rs\<close> and \<open>examples/obfsws-test-2.rs\<close>: the
  loop that reads an echoed stream, counts, and reports its speed in a unit that follows
  the speed, and the sending side that the first one throttles by a channel. Arithmetic on
  \<open>f64\<close>, the clock and what a read yields are arguments; the printed lines are left out.
\<close>


section \<open>Units\<close>

text \<open>The operations on \<open>f64\<close>; \<open>of_u128\<close> is \<open>as f64\<close>, and the literals, which are all whole
  numbers. \<open>as_secs_f64\<close> takes a duration in nanoseconds.\<close>

record 'f f64_ops =
  of_u128 :: "nat \<Rightarrow> 'f"
  f_mul :: "'f \<Rightarrow> 'f \<Rightarrow> 'f"
  f_div :: "'f \<Rightarrow> 'f \<Rightarrow> 'f"
  f_less :: "'f \<Rightarrow> 'f \<Rightarrow> bool"
  as_secs_f64 :: "nat \<Rightarrow> 'f"

definition unit_b :: "'f f64_ops \<Rightarrow> 'f \<times> string" where
  "unit_b F = (of_u128 F 1, ''byte'')"

definition unit_kb :: "'f f64_ops \<Rightarrow> 'f \<times> string" where
  "unit_kb F = (of_u128 F 1024, ''KiB'')"

definition unit_mb :: "'f f64_ops \<Rightarrow> 'f \<times> string" where
  "unit_mb F = (f_mul F (fst (unit_kb F)) (of_u128 F 1024), ''MiB'')"

definition unit_gb :: "'f f64_ops \<Rightarrow> 'f \<times> string" where
  "unit_gb F = (f_mul F (fst (unit_mb F)) (of_u128 F 1024), ''GiB'')"

definition next_unit :: "'f f64_ops \<Rightarrow> 'f \<Rightarrow> 'f \<times> string \<Rightarrow> ('e, 'f \<times> string) outcome" where
  "next_unit F speed unit =
     (if f_less F (of_u128 F 2000) speed then
        if snd unit = ''byte'' then Ok (unit_kb F)
        else if snd unit = ''KiB'' then Ok (unit_mb F)
        else if snd unit = ''MiB'' then Ok (unit_gb F)
        else if snd unit = ''GiB'' then Ok (unit_gb F)
        else Panic ''impossible''
      else if f_less F speed (of_u128 F 1) then
        if snd unit = ''byte'' then Ok (unit_b F)
        else if snd unit = ''KiB'' then Ok (unit_b F)
        else if snd unit = ''MiB'' then Ok (unit_kb F)
        else if snd unit = ''GiB'' then Ok (unit_mb F)
        else Panic ''impossible''
      else Ok unit)"

definition units :: "'f f64_ops \<Rightarrow> ('f \<times> string) set" where
  "units F = {unit_b F, unit_kb F, unit_mb F, unit_gb F}"

lemma next_unit_ladder:
  assumes "unit \<in> units F"
  shows "\<exists>unit' \<in> units F. next_unit F speed unit = Ok unit'"
  using assms by (auto simp: units_def next_unit_def unit_b_def unit_kb_def unit_mb_def unit_gb_def)


section \<open>The receiving loop\<close>

record 'f meter =
  total_recv_bytes :: u128
  recv_bytes :: u128
  speed_unit :: "'f \<times> string"
  ticks :: u128
  recvs :: u128
  start_time :: nat
  time_anchor :: nat
  last_recv :: nat

definition start_meter :: "'f f64_ops \<Rightarrow> nat \<Rightarrow> nat \<Rightarrow> 'f meter" where
  "start_meter F now now' =
     \<lparr>total_recv_bytes = 0, recv_bytes = 0, speed_unit = unit_kb F, ticks = 0, recvs = 0,
      start_time = now, time_anchor = now, last_recv = now'\<rparr>"

text \<open>\<open>+=\<close> on a \<open>u128\<close>, with the overflow check of both cargo profiles.\<close>

definition u128_add :: "u128 \<Rightarrow> nat \<Rightarrow> ('e, u128) outcome" where
  "u128_add a n =
     (if unat a + n < 2 ^ 128 then Ok (a + of_nat n) else Panic ''attempt to add with overflow'')"

text \<open>What one round meets: what the clock reads at each of its calls, and what the read with
  its timeout yields (nothing, an error, or a number of bytes).\<close>

record meter_env =
  t_check :: nat
  t_speed :: nat
  t_last :: nat
  t_anchor :: nat
  t_read :: nat
  read_result :: "(io_error_kind + nat) option"

datatype meter_stop = LowOkRate | NoBytes

definition interval :: nat where
  "interval = 2 * 10 ^ 9"

definition ok_rate :: "'f f64_ops \<Rightarrow> 'f meter \<Rightarrow> 'f" where
  "ok_rate F m =
     (if 0 < recvs m
      then f_div F (of_u128 F 100) (f_div F (of_u128 F (unat (ticks m))) (of_u128 F (unat (recvs m))))
      else of_u128 F 0)"

text \<open>\<open>strict\<close> tells the first example, which stops at a low rate or after fifteen silent
  seconds, from the second, which goes on. \<open>Err\<close> is the \<open>break\<close>.\<close>

definition meter_report ::
  "'f f64_ops \<Rightarrow> bool \<Rightarrow> meter_env \<Rightarrow> 'f meter \<Rightarrow> (meter_stop, 'f meter) outcome" where
  "meter_report F strict env m =
     (let speed = f_div F (f_div F (of_u128 F (unat (recv_bytes m))) (fst (speed_unit m)))
            (as_secs_f64 F (t_speed env - time_anchor m))
      in
      if strict \<and> f_less F (ok_rate F m) (of_u128 F 90) then Err LowOkRate
      else if strict \<and> f_less F (of_u128 F 15) (as_secs_f64 F (t_last env - last_recv m)) then Err NoBytes
      else
        and_then (next_unit F speed (speed_unit m)) (\<lambda>u.
        Ok (m\<lparr>speed_unit := u, recv_bytes := 0, time_anchor := t_anchor env\<rparr>)))"

text \<open>The read of a round; the channel \<open>allow_send_notify\<close> is told of every one.\<close>

definition meter_read ::
  "('n, unit) chan_api \<Rightarrow> meter_env \<Rightarrow> 'f meter \<Rightarrow> 'n \<Rightarrow> (meter_stop, 'f meter \<times> 'n) outcome" where
  "meter_read n_api env m notify =
     (case read_result env of
        None \<Rightarrow> Ok (m, notify)
      | Some ret \<Rightarrow>
          and_then (u128_add (recvs m) 1) (\<lambda>rc.
          and_then (unwrap ret) (\<lambda>size.
          and_then (u128_add (recv_bytes m) size) (\<lambda>rb.
          and_then (u128_add (total_recv_bytes m) size) (\<lambda>tb.
            Ok (m\<lparr>last_recv := t_read env, recvs := rc, recv_bytes := rb, total_recv_bytes := tb\<rparr>,
                case try_send n_api notify () of Inr c \<Rightarrow> c | Inl e \<Rightarrow> notify))))))"

definition meter_tick ::
  "('n, unit) chan_api \<Rightarrow> 'f f64_ops \<Rightarrow> bool \<Rightarrow> meter_env \<Rightarrow> 'f meter \<times> 'n \<Rightarrow>
   (meter_stop, 'f meter \<times> 'n) outcome" where
  "meter_tick n_api F strict env s =
     and_then (u128_add (ticks (fst s)) 1) (\<lambda>tk.
     let m = (fst s)\<lparr>ticks := tk\<rparr> in
     and_then (if interval \<le> t_check env - time_anchor m then meter_report F strict env m else Ok m) (\<lambda>m.
     meter_read n_api env m (snd s)))"

definition test_1_tick ::
  "('n, unit) chan_api \<Rightarrow> 'f f64_ops \<Rightarrow> meter_env \<Rightarrow> 'f meter \<times> 'n \<Rightarrow> (meter_stop, 'f meter \<times> 'n) outcome" where
  "test_1_tick n_api F env s = meter_tick n_api F True env s"

definition test_2_tick ::
  "('n, unit) chan_api \<Rightarrow> 'f f64_ops \<Rightarrow> meter_env \<Rightarrow> 'f meter \<times> 'n \<Rightarrow> (meter_stop, 'f meter \<times> 'n) outcome" where
  "test_2_tick n_api F env s = meter_tick n_api F False env s"

text \<open>The sizes that were read.\<close>

definition sizes1 :: "meter_env \<Rightarrow> nat list" where
  "sizes1 env = (case read_result env of Some (Inr n) \<Rightarrow> [n] | _ \<Rightarrow> [])"

definition sizes :: "meter_env list \<Rightarrow> nat list" where
  "sizes envs = concat (map sizes1 envs)"

lemma sizes_simps [simp]: "sizes [] = []" "sizes (envs @ [env]) = sizes envs @ sizes1 env"
  by (simp_all add: sizes_def)

lemma length_sizes_le: "length (sizes envs) \<le> length envs"
  by (induction envs rule: rev_induct) (auto simp: sizes1_def split: option.splits sum.splits)

lemma u128_add_Ok:
  "unat a + n < 2 ^ 128 \<Longrightarrow> \<exists>b. u128_add a n = Ok b \<and> unat b = unat a + n"
  by (auto simp: u128_add_def unat_word_ariths unat_of_nat)

lemma meter_report_outcome:
  assumes "speed_unit m \<in> units F"
  shows "case meter_report F strict env m of
     Ok m' \<Rightarrow> speed_unit m' \<in> units F \<and> recv_bytes m' = 0 \<and> ticks m' = ticks m \<and> recvs m' = recvs m \<and>
       total_recv_bytes m' = total_recv_bytes m
   | Err e \<Rightarrow> strict
   | Panic p \<Rightarrow> False"
proof -
  obtain u where "u \<in> units F" and "next_unit F
      (f_div F (f_div F (of_u128 F (unat (recv_bytes m))) (fst (speed_unit m)))
            (as_secs_f64 F (t_speed env - time_anchor m))) (speed_unit m) = (Ok u :: (meter_stop, _) outcome)"
    using next_unit_ladder [OF assms] by blast
  then show ?thesis by (simp add: meter_report_def Let_def)
qed


text \<open>The counters are true to what has happened, and the unit is one of the four.\<close>

definition meter_ok :: "'f f64_ops \<Rightarrow> meter_env list \<Rightarrow> 'f meter \<Rightarrow> bool" where
  "meter_ok F envs m \<longleftrightarrow>
     speed_unit m \<in> units F \<and> unat (ticks m) = length envs \<and> unat (recvs m) = length (sizes envs) \<and>
     unat (total_recv_bytes m) = sum_list (sizes envs) \<and> unat (recv_bytes m) \<le> sum_list (sizes envs)"

text \<open>The read of a round in range that meets no error: the counters are true again.\<close>

lemma meter_read_outcome:
  assumes fits: "length (envs @ [env]) < 2 ^ 128" "sum_list (sizes (envs @ [env])) < 2 ^ 128"
    and "\<forall>e. read_result env \<noteq> Some (Inl e)" and u: "speed_unit m \<in> units F"
    and m: "unat (ticks m) = length (envs @ [env])" "unat (recvs m) = length (sizes envs)"
      "unat (total_recv_bytes m) = sum_list (sizes envs)" "unat (recv_bytes m) \<le> sum_list (sizes envs)"
  shows "\<exists>m' c'. meter_read n_api env m c = Ok (m', c') \<and> meter_ok F (envs @ [env]) m' \<and>
     c' = (if sizes1 env = [] then c else case try_send n_api c () of Inr d \<Rightarrow> d | Inl e \<Rightarrow> c)"
proof (cases "read_result env")
  case None
  with u m show ?thesis by (simp add: meter_read_def meter_ok_def sizes1_def)
next
  case (Some ret)
  with assms(3) obtain n where n: "read_result env = Some (Inr n)" by (cases ret) auto
  then have sz: "sizes1 env = [n]" by (simp add: sizes1_def)
  have sums: "sum_list (sizes envs) + n < 2 ^ 128" "Suc (length (sizes envs)) < 2 ^ 128"
    using fits length_sizes_le [of envs] by (simp_all add: sz)
  obtain rc where "u128_add (recvs m) 1 = (Ok rc :: (meter_stop, _) outcome)" "unat rc = Suc (length (sizes envs))"
    using u128_add_Ok [of "recvs m" 1] sums m by auto
  moreover obtain rb where "u128_add (recv_bytes m) n = (Ok rb :: (meter_stop, _) outcome)"
    "unat rb = unat (recv_bytes m) + n"
    using u128_add_Ok [of "recv_bytes m" n] sums m by auto
  moreover obtain tb where "u128_add (total_recv_bytes m) n = (Ok tb :: (meter_stop, _) outcome)"
    "unat tb = sum_list (sizes envs) + n"
    using u128_add_Ok [of "total_recv_bytes m" n] sums m by auto
  ultimately show ?thesis using u m n by (simp add: meter_read_def meter_ok_def sz del: One_nat_def)
qed

text \<open>A round in range that meets no read error: it goes on with true counters, or it is the
  stricter example that stops.\<close>

lemma meter_tick_outcome:
  assumes ok: "meter_ok F envs m" and len: "length (envs @ [env]) < 2 ^ 128"
    and fits: "sum_list (sizes (envs @ [env])) < 2 ^ 128" and no_err: "\<forall>e. read_result env \<noteq> Some (Inl e)"
  shows "case meter_tick n_api F strict env (m, c) of
     Ok (m', c') \<Rightarrow> meter_ok F (envs @ [env]) m' \<and>
       c' = (if sizes1 env = [] then c else case try_send n_api c () of Inr d \<Rightarrow> d | Inl e \<Rightarrow> c)
   | Err e \<Rightarrow> strict
   | Panic p \<Rightarrow> False"
proof -
  obtain tk where tk: "u128_add (ticks m) 1 = (Ok tk :: (meter_stop, _) outcome)" "unat tk = length (envs @ [env])"
    using u128_add_Ok [of "ticks m" 1] len ok by (auto simp: meter_ok_def)
  define m1 where "m1 = m\<lparr>ticks := tk\<rparr>"
  let ?r = "if interval \<le> t_check env - time_anchor m1 then meter_report F strict env m1 else Ok m1"
  have u1: "speed_unit m1 \<in> units F" and m1: "unat (recvs m1) = length (sizes envs)" "ticks m1 = tk"
    "unat (total_recv_bytes m1) = sum_list (sizes envs)" "unat (recv_bytes m1) \<le> sum_list (sizes envs)"
    using ok by (simp_all add: m1_def meter_ok_def)
  have tick: "meter_tick n_api F strict env (m, c) = and_then ?r (\<lambda>m2. meter_read n_api env m2 c)"
    by (simp only: meter_tick_def fst_conv snd_conv tk(1) and_then.simps Let_def m1_def)
  have report: "case ?r of
      Ok m2 \<Rightarrow> speed_unit m2 \<in> units F \<and> recvs m2 = recvs m1 \<and> ticks m2 = tk \<and>
        total_recv_bytes m2 = total_recv_bytes m1 \<and> unat (recv_bytes m2) \<le> sum_list (sizes envs)
    | Err e \<Rightarrow> strict | Panic p \<Rightarrow> False"
    using meter_report_outcome [OF u1, of strict env] u1 m1 by (auto split: outcome.splits)
  show ?thesis
  proof (cases ?r)
    case (Ok m2)
    with report have m2: "speed_unit m2 \<in> units F" "recvs m2 = recvs m1" "ticks m2 = tk"
      "total_recv_bytes m2 = total_recv_bytes m1" "unat (recv_bytes m2) \<le> sum_list (sizes envs)" by simp_all
    with meter_read_outcome [OF len fits no_err m2(1), of n_api c] m1 tk(2) show ?thesis
      by (force simp: tick Ok simp del: length_append)
  next
    case (Err e)
    then have "meter_tick n_api F strict env (m, c) = Err e" by (simp only: tick and_then.simps)
    with report Err show ?thesis by simp
  next
    case (Panic p)
    with report show ?thesis by simp
  qed
qed


section \<open>Receiver and sender\<close>

text \<open>
  The first example races the loop with a sender that, after each message, waits for a word
  on the channel of capacity one. The state is the meter, the channel, and whether the
  sender waits.
\<close>

datatype test_event = TTick meter_env | TWrite | TPermit

inductive test_1_step ::
  "('n, unit) chan_api \<Rightarrow> 'f f64_ops \<Rightarrow> 'f meter \<times> 'n \<times> bool \<Rightarrow> test_event \<Rightarrow> 'f meter \<times> 'n \<times> bool \<Rightarrow> bool"
  for n_api F where
  t_tick:
    "test_1_tick n_api F env (m, c) = Ok (m', c') \<Longrightarrow>
     test_1_step n_api F (m, c, waits) (TTick env) (m', c', waits)"
| t_write: "test_1_step n_api F (m, c, False) TWrite (m, c, True)"
| t_permit:
    "recv_await n_api c = Ready r \<Longrightarrow>
     test_1_step n_api F (m, c, True) TPermit (m, case r of Inr (u, c') \<Rightarrow> c' | Inl e \<Rightarrow> c, False)"

fun tick1 :: "test_event \<Rightarrow> meter_env list" where
  "tick1 (TTick env) = [env]"
| "tick1 _ = []"

definition rounds :: "test_event list \<Rightarrow> meter_env list" where
  "rounds evs = concat (map tick1 evs)"

definition writes :: "test_event list \<Rightarrow> nat" where
  "writes evs = length (filter ((=) TWrite) evs)"

definition permits :: "test_event list \<Rightarrow> nat" where
  "permits evs = length (filter ((=) TPermit) evs)"

lemma test_history [simp]:
  "rounds [] = []" "rounds (evs @ [e]) = rounds evs @ tick1 e" "writes [] = 0" "permits [] = 0"
  "writes (evs @ [e]) = writes evs + (if e = TWrite then 1 else 0)"
  "permits (evs @ [e]) = permits evs + (if e = TPermit then 1 else 0)"
  by (auto simp: rounds_def writes_def permits_def)

definition in_range :: "meter_env list \<Rightarrow> bool" where
  "in_range envs \<longleftrightarrow> length envs < 2 ^ 128 \<and> sum_list (sizes envs) < 2 ^ 128"

lemma in_range_snoc: "in_range (envs @ [env]) \<Longrightarrow> in_range envs"
  by (simp add: in_range_def)

definition test_1_ok ::
  "('n \<Rightarrow> unit fifo) \<Rightarrow> 'f f64_ops \<Rightarrow> test_event list \<Rightarrow> 'f meter \<times> 'n \<times> bool \<Rightarrow> bool" where
  "test_1_ok view F evs s \<longleftrightarrow> (case s of (m, c, waits) \<Rightarrow>
     (in_range (rounds evs) \<longrightarrow> meter_ok F (rounds evs) m) \<and>
     \<not> hung_up (view c) \<and> capacity (view c) = Some 1 \<and>
     writes evs = permits evs + (if waits then 1 else 0) \<and>
     permits evs + length (queue (view c)) \<le> length (sizes (rounds evs)))"

lemma meter_tick_read_ok:
  "meter_tick n_api F strict env s = Ok s' \<Longrightarrow> read_result env \<noteq> Some (Inl e)"
  by (auto simp: meter_tick_def meter_read_def Let_def outcome_simps split: option.splits)

lemma meter_tick_channel:
  "meter_tick n_api F strict env (m, c) = Ok (m', c') \<Longrightarrow>
   c' = (if sizes1 env = [] then c else case try_send n_api c () of Inr d \<Rightarrow> d | Inl e \<Rightarrow> c)"
  by (auto simp: meter_tick_def meter_read_def sizes1_def Let_def outcome_simps split: option.splits sum.splits)

locale notify_channel = smol_channel n_api nview
  for n_api :: "('n, unit) chan_api" and nview :: "'n \<Rightarrow> unit fifo"
begin

lemma test_1_start: "test_1_ok nview F [] (start_meter F t t', chan_bounded n_api 1, False)"
  by (simp add: test_1_ok_def meter_ok_def start_meter_def units_def view_bounded bounded_def)

lemma test_1_ok_step:
  assumes ok: "test_1_ok nview F evs s" and st: "test_1_step n_api F s e s'"
  shows "test_1_ok nview F (evs @ [e]) s'"
  using st
proof cases
  case (t_tick env m c m' c' waits)
  have tick: "meter_tick n_api F True env (m, c) = Ok (m', c')" using t_tick(4) by (simp add: test_1_tick_def)
  have meter: "meter_ok F (rounds evs @ [env]) m'" if r: "in_range (rounds evs @ [env])"
  proof -
    have "meter_ok F (rounds evs) m"
      using ok in_range_snoc [OF r] by (simp add: test_1_ok_def t_tick(1))
    from meter_tick_outcome [OF this, where env = env and n_api = n_api and strict = True and c = c] r meter_tick_read_ok [OF tick] tick show ?thesis
      by (simp add: in_range_def)
  qed
  have "length (queue (nview c')) \<le> length (queue (nview c)) + length (sizes1 env) \<and>
      hung_up (nview c') = hung_up (nview c) \<and> capacity (nview c') = capacity (nview c)"
  proof (cases "sizes1 env = []")
    case False
    then have "0 < length (sizes1 env)" by simp
    with meter_tick_channel [OF tick] False try_send_Inr(1) [of c "()"] show ?thesis
      by (cases "try_send n_api c ()") (auto simp: fifo_push_def Suc_le_eq)
  qed (use meter_tick_channel [OF tick] in simp)
  with ok meter show ?thesis by (simp add: test_1_ok_def t_tick(1-3))
next
  case (t_write m c)
  with ok show ?thesis by (simp add: test_1_ok_def)
next
  case (t_permit c r m)
  from ok have "\<not> hung_up (nview c)" by (simp add: test_1_ok_def t_permit(1))
  with t_permit(4) recv_await_Inl(1) [of c] obtain c' where r: "r = Inr ((), c')" by (cases r) auto
  from recv_await_Inr [OF t_permit(4) [unfolded r]]
  have "queue (nview c) = () # queue (nview c')" and "nview c' = (nview c)\<lparr>queue := queue (nview c')\<rparr>" by auto
  then have "length (queue (nview c)) = Suc (length (queue (nview c')))"
    "hung_up (nview c') = hung_up (nview c)" "capacity (nview c') = capacity (nview c)"
    by (simp, metis fifo.select_convs(3) fifo.surjective fifo.update_convs(1),
        metis fifo.select_convs(2) fifo.surjective fifo.update_convs(1))
  with ok show ?thesis by (simp add: test_1_ok_def t_permit(1-3) r)
qed

end

sublocale notify_channel \<subseteq> measuring: history_invariant "test_1_step n_api F"
  "\<lambda>s. \<exists>t t'. s = (start_meter F t t', chan_bounded n_api 1, False)" "test_1_ok nview F"
  for F
  by unfold_locales (use test_1_start test_1_ok_step in \<open>blast+\<close>)

context notify_channel
begin

lemma run_test_1:
  "run (test_1_step n_api F) (start_meter F t t', chan_bounded n_api 1, False) evs s \<Longrightarrow> test_1_ok nview F evs s"
  by (rule measuring.inv_run) auto

end

interpretation fifo_notify: notify_channel fifo_api id
  by unfold_locales

section \<open>What the measurements guarantee\<close>

text \<open>
  Property C40. The first example measures what happens: at every moment of every run its
  counters are the number of reads and the number of bytes they yielded, no more reads than
  rounds; the sender has written at most one message more than there were reads; and,
  within the range of the counters, the next round cannot panic unless the read itself
  fails: the unit is one of the four and the arm \<open>impossible\<close> is never reached.
\<close>

theorem measuring_keeps_count:
  assumes "notify_channel n_api view"
    and "run (test_1_step n_api F) (start_meter F t t', chan_bounded n_api 1, False) evs (m, c, waits)"
    and "in_range (rounds evs @ [env])" and "\<forall>e. read_result env \<noteq> Some (Inl e)"
  shows "unat (recvs m) = length (sizes (rounds evs)) \<and>
     unat (total_recv_bytes m) = sum_list (sizes (rounds evs)) \<and> unat (recvs m) \<le> unat (ticks m) \<and>
     writes evs \<le> unat (recvs m) + 1 \<and> \<not> is_panic (test_1_tick n_api F env (m, c))"
proof -
  have ok: "test_1_ok view F evs (m, c, waits)"
    by (rule notify_channel.run_test_1 [OF assms(1,2)])
  then have meter: "meter_ok F (rounds evs) m"
    using in_range_snoc [OF assms(3)] by (simp add: test_1_ok_def)
  from meter_tick_outcome [OF this, where env = env and n_api = n_api and strict = True and c = c] assms(3,4)
  have "\<not> is_panic (test_1_tick n_api F env (m, c))"
    by (cases "meter_tick n_api F True env (m, c)") (simp_all add: in_range_def test_1_tick_def)
  moreover have "writes evs \<le> length (sizes (rounds evs)) + 1"
    using ok by (simp add: test_1_ok_def split: if_splits)
  ultimately show ?thesis
    using meter length_sizes_le [of "rounds evs"] by (simp add: meter_ok_def)
qed

text \<open>The second example has no exit: its loop goes on after every round.\<close>

lemma test_2_goes_on:
  assumes "meter_ok F envs m" and "in_range (envs @ [env])" and "\<forall>e. read_result env \<noteq> Some (Inl e)"
  shows "\<exists>m' c'. test_2_tick n_api F env (m, c) = Ok (m', c') \<and> meter_ok F (envs @ [env]) m'"
proof (cases "test_2_tick n_api F env (m, c)")
  case (Ok r)
  with meter_tick_outcome [OF assms(1), where env = env and n_api = n_api and strict = False and c = c] assms(2,3)
  show ?thesis by (auto simp: in_range_def test_2_tick_def)
qed (use meter_tick_outcome [OF assms(1), where env = env and n_api = n_api and strict = False and c = c] assms(2,3)
  in \<open>auto simp: in_range_def test_2_tick_def\<close>)

definition demo_f64 :: "nat f64_ops" where
  "demo_f64 = \<lparr>of_u128 = id, f_mul = (*), f_div = (div), f_less = (<), as_secs_f64 = (\<lambda>n. n div 10 ^ 9)\<rparr>"

definition demo_env :: "nat \<Rightarrow> meter_env" where
  "demo_env n = \<lparr>t_check = 1, t_speed = 1, t_last = 1, t_anchor = 1, t_read = 1,
     read_result = Some (Inr n)\<rparr>"

theorem measuring_keeps_count_witness:
  "\<exists>m c. run (test_1_step fifo_api demo_f64) (start_meter demo_f64 0 0, bounded 1, False)
      [TWrite, TTick (demo_env 700)] (m, c, True) \<and>
     recvs m = 1 \<and> total_recv_bytes m = 700 \<and> \<not> is_panic (test_1_tick fifo_api demo_f64 (demo_env 5) (m, c))"
proof -
  let ?m = "(start_meter demo_f64 0 0)\<lparr>ticks := 1, recvs := 1, recv_bytes := 700, total_recv_bytes := 700, last_recv := 1\<rparr>"
  let ?c = "(bounded 1)\<lparr>queue := [()]\<rparr>"
  have "test_1_tick fifo_api demo_f64 (demo_env 700) (start_meter demo_f64 0 0, bounded 1) = Ok (?m, ?c)"
    by (simp add: test_1_tick_def meter_tick_def meter_read_def demo_env_def start_meter_def u128_add_def
        interval_def fifo_api_def fifo_try_send_def fifo_full_def fifo_push_def bounded_def Let_def)
  then have r: "run (test_1_step fifo_api demo_f64) (start_meter demo_f64 0 0, chan_bounded fifo_api 1, False)
      [TWrite, TTick (demo_env 700)] (?m, ?c, True)"
    by (simp add: fifo_api_def) (meson run_cons run_start t_write t_tick)
  have "in_range (rounds [TWrite, TTick (demo_env 700)] @ [demo_env 5])"
    by (simp add: in_range_def rounds_def sizes_def sizes1_def demo_env_def)
  moreover have "\<forall>e. read_result (demo_env 5) \<noteq> Some (Inl e)" by (simp add: demo_env_def)
  ultimately have "\<not> is_panic (test_1_tick fifo_api demo_f64 (demo_env 5) (?m, ?c))"
    using measuring_keeps_count [OF fifo_notify.notify_channel_axioms r] by blast
  moreover have "chan_bounded fifo_api 1 = (bounded 1 :: unit fifo)" by (simp add: fifo_api_def)
  ultimately show ?thesis
    using r by (intro exI [of _ ?m] exI [of _ ?c]) (simp del: One_nat_def)
qed

end
