(* ===== verification/Connect.thy ===== *)
theory Connect
  imports Pipe Text
begin

text \<open>
  \<open>ObfsWsPipe::connect\<close> of \<open>src/pipe.rs\<close> and the websocket configuration of \<open>src/lib.rs\<close>:
  the address that is dialled, the request that is sent, and every way the connection can
  fail. URL parsing, the request builder, the socket and the websocket handshake are
  dependencies, collected in \<open>connect_deps\<close>.
\<close>


section \<open>The websocket configuration\<close>

record ws_config =
  max_send_queue :: "u64 option"
  write_buffer_size :: u64
  max_write_buffer_size :: u64
  max_message_size :: "u64 option"
  max_frame_size :: "u64 option"
  accept_unmasked_frames :: bool

text \<open>\<open>usize\<close> on the 64-bit targets; \<open>usize::MAX\<close> is the largest word.\<close>

definition CONFIG :: ws_config where
  "CONFIG =
     \<lparr>max_send_queue = None, write_buffer_size = 0, max_write_buffer_size = - 1,
      max_message_size = None, max_frame_size = None, accept_unmasked_frames = True\<rparr>"


section \<open>Connecting\<close>

text \<open>The accessors of a parsed \<open>Uri\<close>.\<close>

record uri =
  uri_host :: "string option"
  uri_port :: "u16 option"
  uri_scheme :: "string option"
  uri_text :: string

record http_request =
  req_method :: string
  target :: uri
  headers :: "(string \<times> string) list"

datatype connect_error =
    BadUri | NoHost string | BadRequest | SocketError io_error_kind | HandshakeError

record ('sock, 'ws) connect_deps =
  parse_uri :: "string \<Rightarrow> connect_error + uri"
  build_request :: "http_request \<Rightarrow> connect_error + http_request"
  tcp_connect :: "string \<Rightarrow> connect_error + 'sock"
  set_nodelay :: "'sock \<Rightarrow> connect_error + 'sock"
  ws_handshake :: "http_request \<Rightarrow> 'sock \<Rightarrow> ws_config \<Rightarrow> connect_error + 'ws"

definition connect_port :: "uri \<Rightarrow> u16 option" where
  "connect_port u =
     (case uri_port u of
        Some p \<Rightarrow> Some p
      | None \<Rightarrow>
          (if uri_scheme u = Some ''ws'' then Some 80
           else if uri_scheme u = Some ''wss'' then Some 443
           else None))"

definition connect_address :: "uri \<Rightarrow> string \<Rightarrow> string" where
  "connect_address u host =
     (case connect_port u of
        Some port \<Rightarrow> host @ '':'' @ show_nat (unat port)
      | None \<Rightarrow> host)"

definition user_agent :: string where
  "user_agent =
     ''Mozilla/5.0 (Windows NT 10.0; Win64; x64) AppleWebKit/537.36 (KHTML, like Gecko) Chrome/120.0.0.0 Safari/537.36 Edg/120.0.0.0''"

definition connect_request :: "uri \<Rightarrow> string \<Rightarrow> string \<Rightarrow> http_request" where
  "connect_request u address metadata =
     \<lparr>req_method = ''GET'', target = u,
      headers =
        [(''Host'', address),
         (''User-Agent'', user_agent),
         (''Connection'', ''Upgrade''),
         (''Upgrade'', ''websocket''),
         (''Sec-Websocket-Version'', ''13''),
         (''Sec-Websocket-Key'', metadata)]\<rparr>"

definition connect ::
  "('sock, 'ws) connect_deps \<Rightarrow> ('c, bytes) chan_api \<Rightarrow> string \<Rightarrow> string \<Rightarrow>
   (connect_error, 'ws \<times> 'c wires \<times> pipe_handle) outcome" where
  "connect deps api url_text metadata =
     and_then (of_result (parse_uri deps url_text)) (\<lambda>u.
     case uri_host u of
       None \<Rightarrow> Err (NoHost ''cannot parse host:port pair in provided URL({peer_url:?})!'')
     | Some host \<Rightarrow>
         (let address = connect_address u host in
          and_then (of_result (build_request deps (connect_request u address metadata))) (\<lambda>req.
          and_then (of_result (tcp_connect deps address)) (\<lambda>sock.
          and_then (of_result (set_nodelay deps sock)) (\<lambda>sock'.
          and_then (of_result (ws_handshake deps req sock' CONFIG)) (\<lambda>ws.
            let (w, h) = new_pipe api (uri_text u) metadata in Ok (ws, w, h)))))))"

lemma of_result_Ok_iff [outcome_simps]: "of_result r = Ok a \<longleftrightarrow> r = Inr a"
  by (cases r) auto

lemma of_result_Err_iff [outcome_simps]: "of_result r = Err e \<longleftrightarrow> r = Inl e"
  by (cases r) auto


section \<open>Reading an address back\<close>

text \<open>The last colon separates host and port, whatever colons the host contains.\<close>

definition split_address :: "string \<Rightarrow> string \<times> string" where
  "split_address a =
     (let port = rev (takeWhile (\<lambda>c. c \<noteq> CHR '':'') (rev a))
      in (take (length a - length port - 1) a, port))"

lemma split_address_join:
  assumes "list_all is_digit port"
  shows "split_address (host @ CHR '':'' # port) = (host, port)"
proof -
  have "\<forall>c \<in> set (rev port). c \<noteq> CHR '':''"
    using assms by (auto simp: list_all_iff is_digit_def)
  then have "takeWhile (\<lambda>c. c \<noteq> CHR '':'') (rev port @ CHR '':'' # rev host) = rev port"
    by (subst takeWhile_append2) auto
  then show ?thesis by (simp add: split_address_def)
qed


section \<open>What connecting does\<close>

text \<open>
  The address that is dialled splits back, at its last colon, into the host of
  the URL and a decimal port: the explicit port when the URL has one, otherwise 80 for
  \<open>ws\<close> and 443 for \<open>wss\<close>. Without a port and with another scheme it is the bare host.
\<close>

theorem connect_address_splits:
  "case connect_port u of
     Some p \<Rightarrow> fst (split_address (connect_address u host)) = host \<and>
       read_nat (snd (split_address (connect_address u host))) = unat p \<and>
       p = (case uri_port u of Some q \<Rightarrow> q
            | None \<Rightarrow> if uri_scheme u = Some ''ws'' then 80 else 443)
   | None \<Rightarrow> connect_address u host = host \<and> uri_port u = None \<and>
       uri_scheme u \<noteq> Some ''ws'' \<and> uri_scheme u \<noteq> Some ''wss''"
  using show_nat_digits
  by (auto simp: connect_port_def connect_address_def split_address_join read_show_nat
      split: option.splits)

text \<open>
  A connection that succeeds dialled exactly the address its \<open>Host\<close> header
  names, sent the metadata as its \<open>Sec-Websocket-Key\<close>, and yields an open pipe whose remote
  address is the URL, a hash sign and the metadata.
\<close>

theorem connect_success:
  assumes "connect deps api url md = Ok (ws, w, h)"
  shows "\<exists>u host req sock sock'. parse_uri deps url = Inr u \<and> uri_host u = Some host \<and>
     tcp_connect deps (connect_address u host) = Inr sock \<and> set_nodelay deps sock = Inr sock' \<and>
     build_request deps (connect_request u (connect_address u host) md) = Inr req \<and>
     map_of (headers (connect_request u (connect_address u host) md)) ''Host'' =
       Some (connect_address u host) \<and>
     map_of (headers (connect_request u (connect_address u host) md)) ''Sec-Websocket-Key'' = Some md \<and>
     ws_handshake deps req sock' CONFIG = Inr ws \<and>
     remote_addr w h = Some (uri_text u @ ''#'' @ md)"
  using assms
  by (auto simp: connect_def new_pipe_def connect_request_def remote_addr_def is_closed_def
      Let_def outcome_simps split: option.splits)

definition demo_deps :: "(string, string) connect_deps" where
  "demo_deps =
     \<lparr>parse_uri = (\<lambda>s. if s = ''wss://a/p'' then Inr \<lparr>uri_host = Some ''a'', uri_port = None,
         uri_scheme = Some ''wss'', uri_text = s\<rparr> else Inl BadUri),
      build_request = Inr,
      tcp_connect = (\<lambda>a. if a = ''a:443'' then Inr a else Inl (SocketError ConnectionRefused)),
      set_nodelay = Inr,
      ws_handshake = (\<lambda>req sock cfg. Inr sock)\<rparr>"

theorem connect_success_witness:
  "\<exists>ws w h. connect demo_deps fifo_api ''wss://a/p'' ''k'' = Ok (ws, w, h) \<and>
     remote_addr w h = Some ''wss://a/p#k''"
proof -
  have "connect_address \<lparr>uri_host = Some ''a'', uri_port = None, uri_scheme = Some ''wss'',
      uri_text = ''wss://a/p''\<rparr> ''a'' = ''a:443''"
    by (simp add: connect_address_def connect_port_def show_nat.simps char_of_eq_iff)
  then obtain ws w h where
    c: "connect demo_deps fifo_api ''wss://a/p'' ''k'' = Ok (ws, w, h)"
    by (simp add: connect_def demo_deps_def new_pipe_def)
  from connect_success [OF c] have "remote_addr w h = Some ''wss://a/p#k''"
    by (auto simp: demo_deps_def)
  with c show ?thesis by blast
qed

end
