(* ===== verification/ExampleRun.thy ===== *)
theory ExampleRun
  imports Examples Connect Server
begin

text \<open>
  The two examples around their measuring loops (\<open>examples/obfsws-test-1.rs\<close> and
  \<open>examples/obfsws-test-2.rs\<close>): the server that takes pipes and streams in turn and echoes
  each stream, the client that connects to it, and the sender and receiver of the second
  example. Streams, their echo (\<open>smol::io::copy\<close>) and the timers are arguments or events.
\<close>


section \<open>The servers\<close>

definition example_address :: string where
  "example_address = ''127.0.0.1:7070''"

datatype echo_pc = EchoPipe | EchoConn | EchoPause | EchoDown

record ('m, 'k) echo_server =
  echo_pc :: echo_pc
  server_mux :: 'm
  echoes :: "'k list"

definition echo_begin :: "('m, 'p, 'sk, 'pk) mux_api \<Rightarrow> 'sk \<Rightarrow> ('m, 'k) echo_server" where
  "echo_begin M sk = \<lparr>echo_pc = EchoPipe, server_mux = mux_new M sk None, echoes = []\<rparr>"

text \<open>\<open>ObfsWsListener::bind(..).await.unwrap()\<close>, after the multiplexer is made.\<close>

definition echo_start ::
  "('d, 'p) chan_api \<Rightarrow> (string \<Rightarrow> io_error_kind + 'l) \<Rightarrow> ('m, 'p, 'sk, 'pk) mux_api \<Rightarrow> 'sk \<Rightarrow>
   (unit, ('d, 'p) listener \<times> ('m, 'k) echo_server) outcome" where
  "echo_start q_api tcp_bind M sk =
     (let s = echo_begin M sk in
      and_then (unwrap_outcome (listener_bind q_api tcp_bind example_address)) (\<lambda>wpl.
        Ok (wpl, s)))"

text \<open>What \<open>accept_pipe\<close> and \<open>accept_conn\<close> yield, and how an echo ends. A failed \<open>unwrap\<close> ends
  the server; the panic of an echo ends only its task.\<close>

datatype ('p, 'k) echo_event =
    EPipe 'p | EPipeFailed io_error_kind | EConn 'k | EConnFailed | EEchoEnds nat | ETimer

definition take_pipe :: "('m, 'p, 'sk, 'pk) mux_api \<Rightarrow> io_error_kind + 'p \<Rightarrow> ('m, 'k) echo_server \<Rightarrow> ('m, 'k) echo_server" where
  "take_pipe M r s =
     (case r of
        Inl e \<Rightarrow> s\<lparr>echo_pc := EchoDown\<rparr>
      | Inr p \<Rightarrow> s\<lparr>server_mux := add_pipe M (server_mux s) p, echo_pc := EchoConn\<rparr>)"

definition take_conn :: "echo_pc \<Rightarrow> unit + 'k \<Rightarrow> ('m, 'k) echo_server \<Rightarrow> ('m, 'k) echo_server" where
  "take_conn next_pc r s =
     (case r of
        Inl e \<Rightarrow> s\<lparr>echo_pc := EchoDown\<rparr>
      | Inr c \<Rightarrow> s\<lparr>echoes := echoes s @ [c], echo_pc := next_pc\<rparr>)"

inductive test_1_server ::
  "('m, 'p, 'sk, 'pk) mux_api \<Rightarrow> ('m, 'k) echo_server \<Rightarrow> ('p, 'k) echo_event \<Rightarrow> ('m, 'k) echo_server \<Rightarrow> bool"
  for M where
  s1_pipe: "echo_pc s = EchoPipe \<Longrightarrow> test_1_server M s (EPipe p) (take_pipe M (Inr p) s)"
| s1_pipe_failed: "echo_pc s = EchoPipe \<Longrightarrow> test_1_server M s (EPipeFailed e) (take_pipe M (Inl e) s)"
| s1_conn: "echo_pc s = EchoConn \<Longrightarrow> test_1_server M s (EConn c) (take_conn EchoPipe (Inr c) s)"
| s1_conn_failed: "echo_pc s = EchoConn \<Longrightarrow> test_1_server M s EConnFailed (take_conn EchoPipe (Inl ()) s)"
| s1_echo_ends:
    "i < length (echoes s) \<Longrightarrow>
     test_1_server M s (EEchoEnds i) (s\<lparr>echoes := take i (echoes s) @ drop (i + 1) (echoes s)\<rparr>)"

text \<open>The second one ends an echo after five seconds at the latest, and itself, by a panic, seven
  seconds after its first stream.\<close>

inductive test_2_server ::
  "('m, 'p, 'sk, 'pk) mux_api \<Rightarrow> ('m, 'k) echo_server \<Rightarrow> ('p, 'k) echo_event \<Rightarrow> ('m, 'k) echo_server \<Rightarrow> bool"
  for M where
  s2_pipe: "echo_pc s = EchoPipe \<Longrightarrow> test_2_server M s (EPipe p) (take_pipe M (Inr p) s)"
| s2_pipe_failed: "echo_pc s = EchoPipe \<Longrightarrow> test_2_server M s (EPipeFailed e) (take_pipe M (Inl e) s)"
| s2_conn: "echo_pc s = EchoConn \<Longrightarrow> test_2_server M s (EConn c) (take_conn EchoPause (Inr c) s)"
| s2_conn_failed: "echo_pc s = EchoConn \<Longrightarrow> test_2_server M s EConnFailed (take_conn EchoPause (Inl ()) s)"
| s2_echo_ends:
    "i < length (echoes s) \<Longrightarrow>
     test_2_server M s (EEchoEnds i) (s\<lparr>echoes := take i (echoes s) @ drop (i + 1) (echoes s)\<rparr>)"
| s2_end_loop: "echo_pc s = EchoPause \<Longrightarrow> test_2_server M s ETimer (s\<lparr>echo_pc := EchoDown\<rparr>)"

fun pipe1 :: "('p, 'k) echo_event \<Rightarrow> 'p list" where
  "pipe1 (EPipe p) = [p]"
| "pipe1 _ = []"

fun conn1 :: "('p, 'k) echo_event \<Rightarrow> 'k list" where
  "conn1 (EConn c) = [c]"
| "conn1 _ = []"

definition echo_pipes :: "('p, 'k) echo_event list \<Rightarrow> 'p list" where
  "echo_pipes evs = concat (map pipe1 evs)"

definition echo_conns :: "('p, 'k) echo_event list \<Rightarrow> 'k list" where
  "echo_conns evs = concat (map conn1 evs)"

lemma echo_history [simp]:
  "echo_pipes [] = []" "echo_pipes (evs @ [e]) = echo_pipes evs @ pipe1 e"
  "echo_conns [] = []" "echo_conns (evs @ [e]) = echo_conns evs @ conn1 e"
  by (simp_all add: echo_pipes_def echo_conns_def)


section \<open>The client\<close>

definition example_url :: string where
  "example_url = ''ws://127.0.0.1:7070/abdgi''"

definition example_key :: string where
  "example_key = ''cW+u76c9CENJiPaSdKoYtQ==''"

text \<open>\<open>open_conn\<close> and \<open>wait_connected\<close> are those of the multiplexer and of its streams; every
  failure is a failed \<open>unwrap\<close>.\<close>

definition example_client ::
  "('sock, 'ws) connect_deps \<Rightarrow> ('c, bytes) chan_api \<Rightarrow> ('m, 'c wires \<times> pipe_handle, 'sk, 'pk) mux_api \<Rightarrow> 'sk \<Rightarrow>
   ('m \<Rightarrow> string \<Rightarrow> unit + 'k) \<Rightarrow> ('k \<Rightarrow> unit + 'k) \<Rightarrow> (unit, 'm \<times> 'k) outcome" where
  "example_client deps api M sk open_conn wait_connected =
     and_then (unwrap_outcome (connect deps api example_url example_key)) (\<lambda>(ws, client_pipe).
     let m = add_pipe M (mux_new M sk None) client_pipe in
     and_then (unwrap (open_conn m ''client additional data'')) (\<lambda>c.
     and_then (unwrap (wait_connected c)) (\<lambda>c'.
     Ok (m, c'))))"

text \<open>The second example sets its client up in the same way.\<close>

definition test_2_client ::
  "('sock, 'ws) connect_deps \<Rightarrow> ('c, bytes) chan_api \<Rightarrow> ('m, 'c wires \<times> pipe_handle, 'sk, 'pk) mux_api \<Rightarrow> 'sk \<Rightarrow>
   ('m \<Rightarrow> string \<Rightarrow> unit + 'k) \<Rightarrow> ('k \<Rightarrow> unit + 'k) \<Rightarrow> (unit, 'm \<times> 'k) outcome" where
  "test_2_client deps api M sk open_conn wait_connected = example_client deps api M sk open_conn wait_connected"

text \<open>\<open>b"TEST MESSAGE".repeat(50000)\<close>, the message of the first example.\<close>

definition test_msg :: bytes where
  "test_msg = concat (replicate 50000 (map of_char ''TEST MESSAGE''))"

lemma length_test_msg: "length test_msg = 600000"
  by (simp add: test_msg_def length_concat sum_list_replicate)


section \<open>The second example's receiver and sender\<close>

text \<open>What the receiving future of the second example starts with.\<close>

definition test_2_start :: "'f f64_ops \<Rightarrow> nat \<Rightarrow> 'f meter" where
  "test_2_start F now =
     \<lparr>total_recv_bytes = 0, recv_bytes = 0, speed_unit = (of_u128 F 1024, ''KiB''), ticks = 0, recvs = 0,
      start_time = now, time_anchor = now, last_recv = now\<rparr>"

text \<open>\<open>1 + fastrand::u64(..1)\<close> seconds; the number drawn is an argument.\<close>

definition hang_up_secs :: "u64 \<Rightarrow> u64" where
  "hang_up_secs r = 1 + r"

definition hello :: bytes where
  "hello = map of_char ''hello world'' @ [10]"

lemma length_hello: "length hello = 12"
  by (simp add: hello_def)

datatype test_2_event = T2Tick meter_env | T2Write u64 bytes

inductive test_2_step ::
  "('n, unit) chan_api \<Rightarrow> 'f f64_ops \<Rightarrow> 'f meter \<times> 'n \<Rightarrow> test_2_event \<Rightarrow> 'f meter \<times> 'n \<Rightarrow> bool"
  for n_api F where
  t2_tick: "test_2_tick n_api F env (m, c) = Ok (m', c') \<Longrightarrow> test_2_step n_api F (m, c) (T2Tick env) (m', c')"
| t2_write: "r < 1 \<Longrightarrow> test_2_step n_api F (m, c) (T2Write (hang_up_secs r) hello) (m, c)"

fun t2_tick1 :: "test_2_event \<Rightarrow> meter_env list" where
  "t2_tick1 (T2Tick env) = [env]"
| "t2_tick1 _ = []"

definition t2_rounds :: "test_2_event list \<Rightarrow> meter_env list" where
  "t2_rounds evs = concat (map t2_tick1 evs)"

lemma t2_rounds_simps [simp]: "t2_rounds [] = []" "t2_rounds (evs @ [e]) = t2_rounds evs @ t2_tick1 e"
  by (simp_all add: t2_rounds_def)

section \<open>What the set-up guarantees\<close>

definition echo_ok ::
  "('m, 'p, 'sk, 'pk) mux_api \<Rightarrow> nat \<Rightarrow> ('p, 'k) echo_event list \<Rightarrow> ('m, 'k) echo_server \<Rightarrow> bool" where
  "echo_ok M most evs s \<longleftrightarrow>
     (case echo_pc s of
        EchoPipe \<Rightarrow> length (echo_conns evs) = length (echo_pipes evs) \<and> (0 < most \<longrightarrow> length (echo_pipes evs) < most)
      | EchoConn \<Rightarrow> length (echo_pipes evs) = length (echo_conns evs) + 1 \<and> (0 < most \<longrightarrow> length (echo_pipes evs) \<le> most)
      | _ \<Rightarrow> length (echo_conns evs) \<le> length (echo_pipes evs) \<and> length (echo_pipes evs) \<le> length (echo_conns evs) + 1 \<and>
          (0 < most \<longrightarrow> length (echo_pipes evs) \<le> most)) \<and>
     length (echoes s) \<le> length (echo_conns evs) \<and>
     mset (iter_pipes M (server_mux s)) = mset (echo_pipes evs)"

context multiplex
begin

lemma echo_begin_ok: "echo_ok M most [] (echo_begin M sk)"
  by (simp add: echo_ok_def echo_begin_def iter_new)

lemma test_1_server_ok:
  "echo_ok M 0 evs s \<Longrightarrow> test_1_server M s e s' \<Longrightarrow> echo_ok M 0 (evs @ [e]) s'"
  by (erule test_1_server.cases)
    (auto simp: echo_ok_def take_pipe_def take_conn_def iter_add split: echo_pc.splits)

lemma test_2_server_ok:
  "echo_ok M 1 evs s \<Longrightarrow> test_2_server M s e s' \<Longrightarrow> echo_ok M 1 (evs @ [e]) s'"
  by (erule test_2_server.cases)
    (auto simp: echo_ok_def take_pipe_def take_conn_def iter_add split: echo_pc.splits)

end

sublocale multiplex \<subseteq> echo_1: history_invariant "test_1_server M" "\<lambda>s. s = echo_begin M sk0" "echo_ok M 0" for sk0
  by unfold_locales (use echo_begin_ok test_1_server_ok in \<open>blast+\<close>)

sublocale multiplex \<subseteq> echo_2: history_invariant "test_2_server M" "\<lambda>s. s = echo_begin M sk0" "echo_ok M 1" for sk0
  by unfold_locales (use echo_begin_ok test_2_server_ok in \<open>blast+\<close>)

context multiplex
begin

lemma run_test_1_server: "run (test_1_server M) (echo_begin M sk) evs s \<Longrightarrow> echo_ok M 0 evs s"
  by (rule echo_1.inv_run) auto

lemma run_test_2_server: "run (test_2_server M) (echo_begin M sk) evs s \<Longrightarrow> echo_ok M 1 evs s"
  by (rule echo_2.inv_run) auto

end

text \<open>
  The servers of the examples take one stream for each pipe: while the first waits for a
  pipe, as many streams as pipes were accepted, and no further stream of any client is taken
  before another pipe comes. The second takes one pipe and one stream, and then ends.
\<close>

theorem one_stream_for_each_pipe:
  assumes "multiplex M"
  shows "run (test_1_server M) (echo_begin M sk) evs s \<Longrightarrow>
       length (echo_conns evs) \<le> length (echo_pipes evs) \<and> length (echo_pipes evs) \<le> length (echo_conns evs) + 1 \<and>
       mset (iter_pipes M (server_mux s)) = mset (echo_pipes evs) \<and>
       (echo_pc s = EchoPipe \<longrightarrow> (\<forall>c s'. \<not> test_1_server M s (EConn c) s'))"
    and "run (test_2_server M) (echo_begin M sk) evs s \<Longrightarrow>
       length (echo_conns evs) \<le> length (echo_pipes evs) \<and> length (echo_pipes evs) \<le> 1"
proof -
  show "length (echo_conns evs) \<le> length (echo_pipes evs) \<and> length (echo_pipes evs) \<le> length (echo_conns evs) + 1 \<and>
       mset (iter_pipes M (server_mux s)) = mset (echo_pipes evs) \<and>
       (echo_pc s = EchoPipe \<longrightarrow> (\<forall>c s'. \<not> test_1_server M s (EConn c) s'))"
    if r: "run (test_1_server M) (echo_begin M sk) evs s"
  proof -
    have ok: "echo_ok M 0 evs s" by (rule multiplex.run_test_1_server [OF assms r])
    have "\<not> test_1_server M s (EConn c) s'" if "echo_pc s = EchoPipe" for c s'
      using that by (auto elim: test_1_server.cases)
    then show ?thesis using ok by (auto simp: echo_ok_def split: echo_pc.splits)
  qed
  show "length (echo_conns evs) \<le> length (echo_pipes evs) \<and> length (echo_pipes evs) \<le> 1"
    if r: "run (test_2_server M) (echo_begin M sk) evs s"
    using multiplex.run_test_2_server [OF assms r] by (auto simp: echo_ok_def split: echo_pc.splits)
qed

text \<open>
  The client of the examples fits their server. If it gets its stream, it has dialled the
  address the server binds, with a key that the server's listener accepts, so that the
  server is handed a pipe with this key; and its multiplexer has one pipe, open, at the URL.
\<close>

theorem example_client_fits_server:
  fixes q_api :: "('d, 'c wires \<times> pipe_handle) chan_api" and s_api :: "('c, bytes) chan_api"
  assumes "multiplex M" and "listener_deps m_api mview q_api qview b64_encode b64_decode to_str"
    and "parse_uri deps example_url = Inr u" and "uri_host u = Some ''127.0.0.1''" and "uri_port u = Some 7070"
    and "example_client deps api M sk open_conn wait_connected = Ok (m, c)"
  shows "(\<exists>sock. tcp_connect deps example_address = Inr sock) \<and>
     serve_conn m_api s_api b64_decode to_str True (Callback (Some example_key)) True = Ok (new_pipe s_api [] example_key) \<and>
     (\<exists>w h. iter_pipes M m = [(w, h)] \<and> remote_addr w h = Some (uri_text u @ ''#'' @ example_key))"
proof -
  have addr: "connect_address u ''127.0.0.1'' = example_address"
    by (simp add: connect_address_def connect_port_def assms(5) example_address_def show_nat.simps char_of_eq_iff)
  obtain ws w h where con: "connect deps api example_url example_key = Ok (ws, w, h)"
    and m: "m = add_pipe M (mux_new M sk None) (w, h)"
    using assms(6) by (auto simp: example_client_def outcome_simps Let_def)
  have key: "valid_key b64_decode example_key"
    using demo_key_valid by (simp add: demo_key_def example_key_def)
  have "serve_conn m_api s_api b64_decode to_str True (Callback (Some example_key)) True = Ok (new_pipe s_api [] example_key)"
    using listener_deps.serve_outcome [OF assms(2)] key by simp
  moreover have "\<exists>sock. tcp_connect deps example_address = Inr sock" and "remote_addr w h = Some (uri_text u @ ''#'' @ example_key)"
    using con assms(3,4) addr
    by (auto simp: connect_def new_pipe_def remote_addr_def is_closed_def Let_def outcome_simps)
  ultimately show ?thesis using multiplex.iter_new_add [OF assms(1)] m by auto
qed

definition example_deps :: "(string, string) connect_deps" where
  "example_deps = demo_deps
     \<lparr>parse_uri := (\<lambda>s. Inr \<lparr>uri_host = Some ''127.0.0.1'', uri_port = Some 7070, uri_scheme = Some ''ws'', uri_text = s\<rparr>),
      tcp_connect := (\<lambda>a. if a = example_address then Inr a else Inl (SocketError ConnectionRefused))\<rparr>"

theorem example_client_fits_server_witness:
  "\<exists>m. example_client example_deps (fifo_api :: (bytes fifo, bytes) chan_api) list_mux () (\<lambda>m s. Inr s) Inr =
       Ok (m, ''client additional data'') \<and>
     map (\<lambda>(w, h). remote_addr w h) m = [Some (example_url @ ''#'' @ example_key)] \<and>
     serve_conn fifo_api fifo_api b64_decode ascii_to_str True (Callback (Some example_key)) True =
       Ok (new_pipe fifo_api [] example_key)"
proof -
  let ?u = "\<lparr>uri_host = Some ''127.0.0.1'', uri_port = Some 7070, uri_scheme = Some ''ws'', uri_text = example_url\<rparr>"
  have addr: "connect_address ?u ''127.0.0.1'' = example_address"
    by (simp add: connect_address_def connect_port_def example_address_def show_nat.simps char_of_eq_iff)
  have u: "parse_uri example_deps example_url = Inr ?u" by (simp add: example_deps_def)
  have c: "example_client example_deps (fifo_api :: (bytes fifo, bytes) chan_api) list_mux () (\<lambda>m s. Inr s) Inr =
      Ok ([new_pipe fifo_api example_url example_key], ''client additional data'')"
    using u addr
    by (simp add: example_client_def connect_def Let_def) (simp add: example_deps_def demo_deps_def new_pipe_def list_mux_def)
  from example_client_fits_server [OF list_mux.multiplex_axioms fifo_listener.listener_deps_axioms u _ _ c] c
  show ?thesis
    by (cases "new_pipe fifo_api example_url example_key :: bytes fifo wires \<times> pipe_handle") (auto simp: list_mux_def)
qed

text \<open>
  The second example measures what happens, and sends its greeting after a wait that is
  always one second: the range of the random part has one number.
\<close>

definition test_2_ok :: "'f f64_ops \<Rightarrow> test_2_event list \<Rightarrow> 'f meter \<times> 'n \<Rightarrow> bool" where
  "test_2_ok F evs s \<longleftrightarrow>
     (in_range (t2_rounds evs) \<longrightarrow> meter_ok F (t2_rounds evs) (fst s)) \<and>
     (\<forall>secs msg. T2Write secs msg \<in> set evs \<longrightarrow> secs = 1 \<and> msg = hello)"

lemma test_2_ok_step:
  assumes ok: "test_2_ok F evs s" and st: "test_2_step n_api F s e s'"
  shows "test_2_ok F (evs @ [e]) s'"
  using st
proof cases
  case (t2_tick env m c m' c')
  have tick: "meter_tick n_api F False env (m, c) = Ok (m', c')" using t2_tick(4) by (simp add: test_2_tick_def)
  have "meter_ok F (t2_rounds evs @ [env]) m'" if r: "in_range (t2_rounds evs @ [env])"
  proof -
    have "meter_ok F (t2_rounds evs) m"
      using ok in_range_snoc [OF r] by (simp add: test_2_ok_def t2_tick(1))
    from meter_tick_outcome [OF this, where env = env and n_api = n_api and strict = False and c = c] r
      meter_tick_read_ok [OF tick] tick show ?thesis by (simp add: in_range_def)
  qed
  with ok show ?thesis by (auto simp: test_2_ok_def t2_tick(1-3))
next
  case (t2_write r m c)
  then have "hang_up_secs r = 1" by (simp add: hang_up_secs_def word_less_1)
  with ok t2_write(1-3) show ?thesis by (auto simp: test_2_ok_def)
qed

interpretation test_2: history_invariant "test_2_step n_api F" "\<lambda>s. \<exists>t. fst s = test_2_start F t" "test_2_ok F"
  for n_api F
proof
  show "test_2_ok F [] s" if "\<exists>t. fst s = test_2_start F t" for s
    using that by (auto simp: test_2_ok_def meter_ok_def test_2_start_def units_def unit_kb_def)
qed (rule test_2_ok_step)

theorem test_2_measures:
  assumes "run (test_2_step n_api F) (test_2_start F t, c0) evs (m, c)"
  shows "(in_range (t2_rounds evs) \<longrightarrow>
       unat (recvs m) = length (sizes (t2_rounds evs)) \<and> unat (total_recv_bytes m) = sum_list (sizes (t2_rounds evs))) \<and>
     (\<forall>secs msg. T2Write secs msg \<in> set evs \<longrightarrow> secs = 1 \<and> msg = hello)"
proof -
  have "test_2_ok F evs (m, c)" by (rule test_2.inv_run [OF assms]) auto
  then show ?thesis by (auto simp: test_2_ok_def meter_ok_def)
qed

end
