(* ===== verification/Spec2Isabelle.thy ===== *)
theory Spec2Isabelle
  imports PipeSpec Wake Tunnel ClientSystem WholeServer ExampleRun
begin

text \<open>
  A model of \<open>sosistab2-obfsws\<close> with the theorems that make it correct: the websocket pipe
  library (\<open>src/lib.rs\<close>, \<open>src/pipe.rs\<close>, \<open>src/listener.rs\<close>) and the proxy program built on it
  (\<open>src/bin.todo/wsocks.rs\<close>).

  \<^bold>\<open>The program.\<close> A pipe (\<open>ObfsWsPipe\<close>) is a byte stream over the binary messages of one
  websocket. Its handles and a background task share two bounded channels and a flag: writes
  queue a message for \<open>send_loop\<close>, which hands it to the websocket; \<open>recv_loop\<close> queues what
  arrives for reads. \<open>ObfsWsPipe::connect\<close> dials a URL and sends the caller's metadata as
  the header \<open>Sec-Websocket-Key\<close>; \<open>ObfsWsListener\<close> accepts sockets, checks the header and
  hands out pipes that carry it. wsocks runs a SOCKS and an HTTP proxy over such pipes: the
  client proves its session by a key (\<open>Etag\<close>) in the header, the server groups the pipes of
  a session in one multiplexer, and each proxied connection is a stream of frames, first a
  request and an offer, then data in both directions.

  \<^bold>\<open>The theories.\<close>
  \<^item> \<open>Prelude\<close>: bytes and words; \<open>outcome\<close>, the three ways a Rust function ends (value, error,
    panic); polls; slices with their bounds checks; big-endian codecs (locale
    \<open>fixed_codec\<close>); runs of a labelled step relation with their invariants (locale
    \<open>history_invariant\<close>). \<open>Text\<close>: decimal and hexadecimal numbers, IP addresses, lossy UTF-8.
  \<^item> \<open>Channel\<close>: the interface of \<open>smol::channel\<close> (record \<open>chan_api\<close>, locale \<open>smol_channel\<close>)
    and its instance, the first-in first-out queue.
  \<^item> \<open>Pipe\<close>: \<open>poll_write\<close>, \<open>poll_flush\<close>, \<open>poll_close\<close>, \<open>poll_read\<close> and the accessors. The
    record \<open>wires\<close> is what the handles share, \<open>pipe_handle\<close> what each owns. \<open>PipeTask\<close>:
    \<open>send_loop\<close>, \<open>recv_loop\<close> and their race as \<open>pipe_step\<close>, one rule per operation and per
    environment event; the histories \<open>accepted\<close>, \<open>handed_over\<close>, \<open>arrived\<close>, \<open>consumed\<close> and its
    two parts, \<open>reader_got\<close> and \<open>reader_lost\<close> (what a pending poll drops), are functions of
    the events; \<open>pipe_meanwhile\<close> is what the task makes of a pipe that nobody has called yet.
    \<open>PipeSpec\<close>: the reference \<open>read_ref\<close> that \<open>poll_read\<close> equals, the shape \<open>pipe_ok\<close> of every
    reachable pipe, and the runs of the task alone. \<open>Wake\<close>: who is woken: the wakers that the task's futures and \<open>poll_read\<close> leave in the channels, and the
    scheduler \<open>sched_step\<close> over \<open>pipe_step\<close>, in which the task runs only when it is awake.
  \<^item> \<open>Connect\<close>: \<open>ObfsWsPipe::connect\<close> and \<open>ws::CONFIG\<close>. \<open>Base64\<close>: the contract
    \<open>base64_codec\<close> and RFC 4648. \<open>Listener\<close>: \<open>pipe_get_metadata\<close>, the task of a connection,
    \<open>pipe_accept_loop\<close> and \<open>accept\<close> as \<open>listener_step\<close>. A handshake may fail before the
    callback is called, and a pipe runs while it waits in the listener's queue.
  \<^item> \<open>Frame\<close>, \<open>Bincode\<close>, \<open>FrameStream\<close>: the messages, \<open>Frame::send\<close> and \<open>Frame::recv\<close>, the
    contracts \<open>bincode_codec\<close>, \<open>byte_stream\<close>, \<open>message_codec\<close>, and an instance of the
    serializer. \<open>Forward\<close>: \<open>tcp_forward_loop\<close>, a list of turns of its two futures.
    \<open>Tunnel\<close>: two such loops and the stream between them as \<open>tunnel_step\<close> (locale
    \<open>live_tunnel\<close>), where a loop waits for a whole frame and a race drops the other future
    in the middle of its turn.
  \<^item> \<open>Etag\<close>: the session key. \<open>KeyFile\<close>: the loop for the server's long-term key.
    \<open>Mux\<close>: the contract \<open>multiplex\<close>. \<open>Sessions\<close>: the server's accept loop as
    \<open>server_step\<close>, over a heap of multiplexers with strong counts. \<open>SessionLoop\<close>:
    \<open>server_session_loop\<close>, its watch, its accept loop and the task of a request, each by
    itself. \<open>SessionTasks\<close>: these tasks, with the references they hold and the deadline
    channel they share, run beside the accept loop as \<open>tasks_step\<close> (locale \<open>session_tasks\<close>).
    \<open>Hex\<close>: the contract \<open>hex_codec\<close> of the printed key. \<open>Server\<close>: key, report and bind, and the
    listener and the accept loop as one relation \<open>server_sys_step\<close> that meets in \<open>accept\<close>.
    \<open>WholeServer\<close>: listener, accept loop and session tasks as \<open>whole_step\<close> (locale
    \<open>whole_server\<close>).
  \<^item> \<open>Proxy\<close>: the client's request task and the handlers of SOCKS and HTTP; \<open>Ipv6\<close>: their
    addresses read back. \<open>ClientSystem\<close>: the accept loops, the request loop, the request
    channel and one response channel per request as \<open>client_step\<close>. \<open>Client\<close>: options,
    preparations and the pipe manager. \<open>EnvInfo\<close>: the build report and the dispatch of
    \<open>async_main\<close>.
  \<^item> \<open>Examples\<close>: the measuring loops of \<open>examples/\<close> and the throttled sender of the first.
    \<open>ExampleRun\<close>: their echo servers, their clients and the second one's accept loop.
  This theory joins them: two pipes end to end, the way of a client's key from
  \<open>Etag::generate\<close> through the listener to its session, and a proxied connection from the
  proxy's client to the remote host and back.

  \<^bold>\<open>What is shown.\<close> For pipes: reads equal to their reference, writes on every branch, freedom
  from panics, a well-formedness invariant, order and completeness in every interleaving, a
  way out for every message taken that the task always follows (\<open>open_pipe_drains\<close>), what is
  lost and when (\<open>reader_lost\<close>, \<open>long_message_truncated\<close>), what closing does, and that the
  background task is awake whenever it can go on
  (\<open>task_misses_no_wakeup\<close>). For the listener and the server: what is refused, what is handed
  out, that every pipe handed out reaches a session under its own hash and no request ends
  the loop, sessions that do not mix, sessions whose multiplexers live exactly as long as a
  task of theirs holds them (\<open>tasks_refine_server\<close>), the deadline as the condition
  it stands for, an idle session that can end, a key that survives restarts and whose printed
  text is the key of the clients. For the protocol: round trips of frames and of the session
  key, sizes that always fit, a handshake whose ends agree, a tunnel that carries bytes in
  order, whose loops do not panic between honest ends (the server's task unwraps their
  error, \<open>awaiting_task\<close>) and which can always drain. For the client: each handler gets the
  answer to its own request, none is stuck, a bound on its pipes. For the examples: what the
  client sends fits what the server reads, one stream for each pipe. And the runs in which the code does not do what it means to
  (\<open>pending_reader_is_not_woken\<close>, \<open>close_leaves_task_waiting\<close>, \<open>returning_client_loses_pipe\<close>,
  \<open>session_misses_deadline\<close>, \<open>missed_deadline_session_stays\<close>, \<open>upload_spins_at_end_of_input\<close>,
  \<open>failed_accept_ends_proxy\<close>).

  \<^bold>\<open>Dependencies.\<close> Channels, base64, bincode, streams, sockets, ciphers, digests, the
  multiplexer, the SOCKS and HTTP codecs and the file system are arguments of the
  definitions. What the code relies on is the \<open>assumes\<close> part of a locale; each locale has
  an interpretation on concrete functions, on which the witnesses run.

  \<^bold>\<open>Bounds.\<close> Lengths and channel capacities are natural numbers; \<open>usize\<close> subtraction has its
  check. The frame length is a \<open>u16\<close>, ids are \<open>u128\<close>, session hashes \<open>u64\<close>. No definition
  uses fuel: loops that may not end are step relations, or functions of the list of what
  the environment did (turns, rounds, events), for every such list; \<open>key_loop\<close> terminates
  by its counter.

  \<^bold>\<open>Not modelled.\<close> Log output, memory ordering weaker than sequential consistency,
  cancellation of a future in the middle of a turn elsewhere than in a tunnel, the socket
  operations themselves, command line parsing, the build script and packaging, which hold no
  logic of the program. Planned next: the request and the handshake as events of the relation
  of the tunnel.
\<close>


section \<open>From one pipe to its peer\<close>

text \<open>
  Property C1. Two pipes joined by a websocket that delivers, in order, part of the messages
  it is given, the receiving one not cloned: whatever the callers, the tasks and the
  websocket interleave, what reads at one end have consumed is the beginning of the
  concatenation of the messages that writes at the other end got into the queue, and it is
  an interleaving of the bytes the readers got and of those that pending polls dropped. So
  readers get accepted bytes only, each once and in order, possibly with gaps; and without
  such a drop what they have got is itself the beginning.
\<close>

theorem bytes_cross_in_order:
  assumes "pipe_channel apiA viewA" and "run (pipe_step apiA) (start_pipe apiA urlA mdA) evsA a"
    and "pipe_channel apiB viewB" and "run (pipe_step apiB) (start_pipe apiB urlB mdB) evsB b"
    and "EvClone \<notin> set evsB" and "prefix (arrived evsB) (handed_over evsA)"
  shows "prefix (consumed evsB) (concat (accepted evsA)) \<and>
     consumed evsB \<in> shuffles (reader_got evsB) (reader_lost evsB) \<and>
     subseq (reader_got evsB) (concat (accepted evsA)) \<and>
     (reader_lost evsB = [] \<longrightarrow> prefix (reader_got evsB) (concat (accepted evsA)))"
proof -
  have "accepted evsA = handed_over evsA @ sending (spc a) @ queue (viewA (inner_send (wires a)))"
    using pipe_channel.run_sent [OF assms(1,2)] by (simp add: sent_in_order_def)
  with assms(6) have "prefix (concat (arrived evsB)) (concat (accepted evsA))"
    by (auto simp: prefix_def)
  moreover have "prefix (consumed evsB) (concat (arrived evsB))"
    using pipe_channel.run_received [OF assms(3,4)] assms(5) by (auto simp: received_in_order_def)
  ultimately have taken: "prefix (consumed evsB) (concat (accepted evsA))"
    by (metis prefix_order.trans)
  have parts: "consumed evsB \<in> shuffles (reader_got evsB) (reader_lost evsB)" by (rule consumed_shuffles)
  with taken have "subseq (reader_got evsB) (concat (accepted evsA))"
    by (meson shuffles_subseq prefix_imp_subseq subseq_order.trans)
  with taken parts show ?thesis by auto
qed

text \<open>At the witness the reader gets two of three bytes and loses the third.\<close>

lemma demo_whole_send_run:
  "run (pipe_step fifo_api) demo_start
     [EvWrite [1, 2, 3] True (Ready (Inr 3)), EvInternal, EvInternal, EvSink [1, 2, 3] True]
     (demo_sys [] [] [] False SendCheck RecvCheck)"
  unfolding demo_start_sys
  by (rule run_cons, rule demo_write, simp, simp,
      rule run_cons, rule demo_check, simp add: recv_over_def,
      unfold append_Nil, rule run_cons, rule demo_take, simp add: recv_over_def,
      rule run_cons, rule demo_sink, simp add: recv_over_def, rule run_start)

theorem bytes_cross_in_order_witness:
  "\<exists>evsA a evsB b. run (pipe_step fifo_api) demo_start evsA a \<and> run (pipe_step fifo_api) demo_start evsB b \<and>
     accepted evsA = [[1, 2, 3]] \<and> reader_got evsB = [1, 2] \<and> reader_lost evsB = [3] \<and>
     prefix (consumed evsB) [1, 2, 3] \<and> subseq (reader_got evsB) [1, 2, 3]"
proof -
  let ?A = "[EvWrite [1, 2, 3] True (Ready (Inr 3)), EvInternal, EvInternal, EvSink [1, 2, 3] True]"
  let ?B = "[EvInternal, EvItem (Item (Binary [1, 2, 3])), EvInternal, EvRead [1, 2] [], EvRead [] [3]]"
  have "prefix (arrived ?B) (handed_over ?A)" and "EvClone \<notin> set ?B"
    by (simp_all add: arrived_def handed_over_def)
  from bytes_cross_in_order
    [OF fifo_pipe.pipe_channel_axioms demo_whole_send_run [unfolded demo_start_def]
      fifo_pipe.pipe_channel_axioms demo_recv_run [unfolded demo_start_def] this(2,1)]
  have "prefix (consumed ?B) (concat (accepted ?A))" "subseq (reader_got ?B) (concat (accepted ?A))" by blast+
  moreover have "accepted ?A = [[1, 2, 3]]" "reader_got ?B = [1, 2]" "reader_lost ?B = [3]"
    by (simp_all add: accepted_def reader_got_def reader_lost_def)
  ultimately show ?thesis
    using demo_whole_send_run demo_recv_run by (intro exI [of _ ?A] exI [of _ ?B] exI conjI) auto
qed


section \<open>From a client's session key to its session\<close>

text \<open>
  Property C15. The header a client makes leads to the client's session. With the socket and
  the handshake working, the listener serves the connection with a pipe that carries the
  header. In every reachable state of the server, and whatever the task of the pipe has made
  of it meanwhile, the accept loop then takes the hash of the client from the header and
  adds the pipe to the multiplexer of that hash: to the one it has, if that is alive, else to
  a new one, and no other session has the same. Only if the session in the map has died since
  the last sweep is the pipe dropped.
\<close>

theorem client_reaches_its_session:
  fixes api :: "('c, bytes) chan_api" and q_api :: "('d, 'c wires \<times> pipe_handle) chan_api"
    and M :: "('x, 'c wires \<times> pipe_handle, 'sk, 'pk) mux_api"
  assumes "etag_ops D" and "listener_deps m_api mview q_api qview (b64_enc D) (b64_dec D) to_str"
    and "length nonce = 8" and "generate D nonce (etag_new D rnd t1 t2 pk) = Ok header"
    and "multiplex M" and "run (server_step M D server_sk pk) (start_server m) evs s"
    and "pipe_meanwhile api (new_pipe api [] header) p"
  shows "serve_conn m_api api (b64_dec D) to_str True (Callback (Some header)) True = Ok (new_pipe api [] header) \<and>
     peer_url (snd p) = ''#'' @ header \<and>
     (let h = calc_hash D (etag_new D rnd t1 t2 pk) in
      \<exists>target s'. accept_session M D server_sk pk p header s = Ok (h, target, s') \<and>
        (case target of
           Some i \<Rightarrow> p \<in> set (iter_pipes M (mux_heap s' i)) \<and> mux_sessions s' h = Some i \<and>
             0 < strong_count s' i \<and> (\<forall>h'. (h', i) \<in> set (session_loops s') \<longleftrightarrow> h' = h) \<and>
             (\<forall>j. mux_sessions s h = Some j \<longrightarrow> i = j)
         | None \<Rightarrow> \<exists>j. mux_sessions s h = Some j \<and> strong_count s j = 0))"
proof -
  have from_ok: "etag_from D pk header = Ok (calc_hash D (etag_new D rnd t1 t2 pk))"
    by (rule etag_ops.generate_from [OF assms(1,3,4)])
  then have "valid_key (b64_dec D) header"
    by (auto simp: valid_key_def etag_from_def split: option.splits if_splits)
  with listener_deps.serve_outcome [OF assms(2)]
  have "serve_conn m_api api (b64_dec D) to_str True (Callback (Some header)) True = Ok (new_pipe api [] header)"
    by simp
  moreover have "peer_url (snd p) = ''#'' @ header"
    using pipe_meanwhile_handle [OF assms(7)] by (simp add: new_pipe_def)
  ultimately show ?thesis
    using multiplex.accepted_in_session [OF assms(5) multiplex.run_server [OF assms(5,6)] from_ok]
    by (simp add: Let_def)
qed

text \<open>At the witness the client is the first of the server: its pipe gets the first
  multiplexer.\<close>

theorem client_reaches_its_session_witness:
  "\<exists>header s'.
     generate demo_etag_deps (replicate 8 5) (etag_new demo_etag_deps [1] 0 0 [3]) = Ok header \<and>
     accept_session list_mux demo_etag_deps () [3] (new_pipe fifo_api [] header :: bytes fifo wires \<times> pipe_handle)
       header (start_server []) =
       Ok (calc_hash demo_etag_deps (etag_new demo_etag_deps [1] 0 0 [3]), Some 0, s') \<and>
     new_pipe fifo_api [] header \<in> set (mux_heap s' 0)"
proof -
  let ?h = "calc_hash demo_etag_deps (etag_new demo_etag_deps [1] 0 0 [3])"
  let ?s = "start_server [] :: (bytes fifo wires \<times> pipe_handle) list server"
  have "length (pk_hash (etag_new demo_etag_deps [1] 0 0 [3])) = 32"
    by (simp add: etag_new_def demo_etag.length_pk_hash)
  then obtain header where h: "generate demo_etag_deps (replicate 8 5) (etag_new demo_etag_deps [1] 0 0 [3]) = Ok header"
    using demo_etag.generate_Ok by simp
  let ?p = "new_pipe fifo_api [] header :: bytes fifo wires \<times> pipe_handle"
  have n: "length (replicate 8 5 :: bytes) = 8" by simp
  note T = client_reaches_its_session [OF demo_etag.etag_ops_axioms demo_listener_deps n h
      list_mux.multiplex_axioms run_start pipe_meanwhile_refl, where server_sk = "()" and m = "[]" and api = fifo_api]
  have none: "mux_sessions ?s ?h = None" by (simp add: start_server_def)
  from T [THEN conjunct2, THEN conjunct2, unfolded Let_def] obtain target s' where
    acc: "accept_session list_mux demo_etag_deps () [3] ?p header ?s = Ok (?h, target, s')" and
    t: "case target of
           Some i \<Rightarrow> ?p \<in> set (iter_pipes list_mux (mux_heap s' i)) \<and> mux_sessions s' ?h = Some i \<and>
             0 < strong_count s' i \<and> (\<forall>h'. (h', i) \<in> set (session_loops s') \<longleftrightarrow> h' = ?h) \<and>
             (\<forall>j. mux_sessions ?s ?h = Some j \<longrightarrow> i = j)
         | None \<Rightarrow> \<exists>j. mux_sessions ?s ?h = Some j \<and> strong_count ?s j = 0"
    by blast
  from t none obtain i where s': "accept_session list_mux demo_etag_deps () [3] ?p header ?s = Ok (?h, Some i, s')"
    "?p \<in> set (iter_pipes list_mux (mux_heap s' i))"
    using acc by (cases target) auto
  from s'(1) none have "i = 0"
    by (auto simp: accept_session_def outcome_simps Let_def new_session_def start_server_def split: if_splits)
  with h s' show ?thesis by (auto simp: list_mux_def)
qed

text \<open>
  No request can end the server's accept loop: of every pipe the listener
  hands out, whatever its peer sent, \<open>Etag::from\<close> reads a session hash.
\<close>

theorem accepted_pipes_have_sessions:
  fixes api :: "('c, bytes) chan_api" and q_api :: "('d, 'c wires \<times> pipe_handle) chan_api"
  assumes "etag_ops D" and "listener_deps m_api mview q_api qview (b64_enc D) (b64_dec D) to_str"
    and "run (listener_step m_api api q_api (b64_dec D) to_str) (listener_from q_api) evs l"
    and "p \<in> set (taken_pipes evs)"
  shows "\<exists>md h. peer_url (snd p) = ''#'' @ md \<and> etag_from D pk md = Ok h \<and>
     (\<forall>s. \<exists>target s'. accept_session M D server_sk pk p md s = Ok (h, target, s'))"
proof -
  have "listener_ok api qview (b64_dec D) evs l"
    by (rule listener_deps.run_listener [OF assms(2,3)])
  from listener_ok_taken [OF this assms(4)] have "pipe_with_key (b64_dec D) p" .
  then obtain md buf where md: "peer_url (snd p) = ''#'' @ md" "b64_dec D md = Some buf" "length buf = 16"
    by (auto simp: pipe_with_key_def valid_key_def split: option.splits)
  from etag_ops.from_Ok [OF assms(1) md(2,3), of pk] obtain h where "etag_from D pk md = Ok h" by blast
  with md(1) show ?thesis by (auto simp: accept_session_def Let_def)
qed

theorem accepted_pipes_have_sessions_witness:
  "\<exists>h. etag_from demo_etag_deps [3] demo_key = Ok h"
proof -
  have "run (listener_step fifo_api fifo_api fifo_api (b64_dec demo_etag_deps) ascii_to_str)
      (listener_from fifo_api) [LIncoming, LServed, LQueued demo_pipe, LAccepted demo_pipe, LSocketError]
      (demo_listener [] [] False)"
    using demo_listener_run by (simp add: demo_etag_deps_def)
  from accepted_pipes_have_sessions [OF demo_etag.etag_ops_axioms demo_listener_deps this,
      where p = demo_pipe and pk = "[3]" and M = list_mux and server_sk = "()"]
  show ?thesis by (auto simp: taken_pipes_def demo_pipe_def new_pipe_def)
qed

section \<open>From the proxy's client to the remote host\<close>

text \<open>
  Property C2. A proxied connection, from the request to the bytes. The client's task
  requests a connection, the server's task connects and offers an id, both start the
  forwarding loop under it, and parts of what each end has sent have reached the other.
  Then, in every order of the turns, what the server has written to the remote host is the
  beginning of what the proxy took from its client, and what the proxy has written to its
  client is the beginning of what the server took from the remote host.
\<close>

theorem proxied_connection_carries_bytes:
  assumes C: "forwarding cops cwritten cunread cin cout" and S: "forwarding sops swritten sunread sin sout"
    and codec: "f_codec cops = f_codec sops"
    and req: "put_frame (f_codec sops) (frame_from pad (TcpConnect dst port)) = Some b"
      "f_write cops tx b = Inr tx1" "sunread srx = b @ up_arrived"
    and debug: "spad \<le> 128" "\<forall>kind debug. dial dst port = Inl (kind, debug) \<longrightarrow> length debug \<le> 65000"
    and serve: "serve_relconn sops dial iem dl offer_id spad srx stx = Ok (Tunnel i sst)"
      "swritten (relconn_tx sst) = swritten stx @ s" "cunread rx = s @ down_arrived"
    and answer: "request_task (f_codec sops) (f_write cops) (f_read cops) pad (Inr (rx, tx)) (TcpConnect dst port) =
        Ok (Inr i', rx1, tx1)"
    and cloop: "tcp_forward_loop cdl cops i' cts
        \<lparr>deadline = None, relconn_rx = rx1, relconn_tx = tx1, conn = local\<rparr> = Ok c"
    and sloop: "tcp_forward_loop sdl sops i sts sst = Ok r"
    and up: "cwritten (relconn_tx c) = cwritten tx1 @ up_arrived @ up_in_flight"
    and down: "swritten (relconn_tx r) = swritten (relconn_tx sst) @ down_arrived @ down_in_flight"
  shows "i' = i \<and>
     (\<exists>taken sent. cin local = taken @ cin (conn c) \<and> sout (conn r) = sout (conn sst) @ sent \<and>
        prefix sent taken) \<and>
     (\<exists>taken sent. sin (conn sst) = taken @ sin (conn r) \<and> cout (conn c) = cout local @ sent \<and>
        prefix sent taken)"
proof -
  let ?c0 = "\<lparr>deadline = None, relconn_rx = rx1, relconn_tx = tx1, conn = local\<rparr>"
  have "frame_stream (f_codec sops) (f_write cops) cwritten (f_read cops) cunread"
    using forwarding.axioms(1) [OF C] by (simp add: codec)
  from handshake [OF this S req debug serve(1) _ serve(3)] serve(2) answer
  have i: "i' = i" and rx1: "cunread rx1 = down_arrived" and ahead: "sunread (relconn_rx sst) = up_arrived"
    by (auto split: sum.splits)
  have prefix_take: "prefix (concat (take n ds)) (concat ds)" for n and ds :: "bytes list"
    by (metis append_take_drop_id concat_append prefixI)
  from tunnel_in_order [OF C S codec cloop [unfolded i] sloop, of up_in_flight] up ahead
  obtain ds where "cin local = concat ds @ cin (conn c)"
    "sout (conn r) = sout (conn sst) @ concat (take (downs sts) ds)" by auto
  with prefix_take have "\<exists>taken sent. cin local = taken @ cin (conn c) \<and>
      sout (conn r) = sout (conn sst) @ sent \<and> prefix sent taken" by blast
  moreover from tunnel_in_order [OF S C codec [symmetric] sloop cloop [unfolded i], of down_in_flight] down rx1
  obtain es where "sin (conn sst) = concat es @ sin (conn r)"
    "cout (conn c) = cout local @ concat (take (downs cts) es)" by auto
  with prefix_take have "\<exists>taken sent. sin (conn sst) = taken @ sin (conn r) \<and>
      cout (conn c) = cout local @ sent \<and> prefix sent taken" by blast
  ultimately show ?thesis using i by blast
qed

theorem proxied_connection_carries_bytes_witness:
  "\<exists>b u a c r. put_frame bincode_ref (frame_from 1 (TcpConnect ''h'' 80)) = Some b \<and>
     put_frame bincode_ref (frame_from 1 (TcpData 9 [1, 2])) = Some u \<and>
     request_task bincode_ref list_write_all list_read_exact 1 (Inr (a, [])) (TcpConnect ''h'' 80) =
       Ok (Inr 9, [], b) \<and>
     tcp_forward_loop fifo_api list_ops 9 [Up 1]
       \<lparr>deadline = None, relconn_rx = [], relconn_tx = b, conn = ([1, 2], [])\<rparr> = Ok c \<and>
     tcp_forward_loop fifo_api list_ops 9 [Down]
       \<lparr>deadline = Some (bounded 1), relconn_rx = u, relconn_tx = a, conn = ([], [])\<rparr> = Ok r \<and>
     prefix (snd (conn r)) [1, 2]"
proof -
  let ?dial = "\<lambda>dst port. Inr ([], []) :: (io_error_kind \<times> string) + bytes \<times> bytes"
  let ?dl = "bounded 1 :: unit fifo"
  have codec: "f_codec list_ops = bincode_ref" "f_write list_ops = list_write_all" "f_read list_ops = list_read_exact"
    by (simp_all add: list_ops_def)
  obtain b where b: "put_frame bincode_ref (frame_from 1 (TcpConnect ''h'' 80)) = Some b"
    using list_frames.put_frame_fits by (force simp: frame_from_def frame_size_def)
  obtain u where u: "put_frame bincode_ref (frame_from 1 (TcpData 9 [1, 2])) = Some u"
    using list_frames.put_frame_fits by (force simp: frame_from_def frame_size_def)
  have got: "get_frame bincode_ref (id (b @ u)) = Some (frame_from 1 (TcpConnect ''h'' 80), u)"
    using bincode_ref.get_put_frame [OF b, of u] by simp
  from list_forward.serve_relconn_send [where tcp_connect = ?dial and iem = False and dl = ?dl and
      offer_id = 9 and tx = "[]" and pad = 1 and rx = "b @ u" and dst = "''h''" and port = 80,
      unfolded codec, OF got]
  obtain a where a: "put_frame bincode_ref (frame_from 1 (TcpOffer (Inr 9))) = Some a"
    and serve: "serve_relconn list_ops ?dial False ?dl 9 1 (b @ u) [] =
      Ok (Tunnel 9 \<lparr>deadline = Some ?dl, relconn_rx = u, relconn_tx = a, conn = ([], [])\<rparr>)"
    by (auto simp: frame_from_def offer_for_def list_write_all_def)
  have "get_frame bincode_ref (id a) = Some (frame_from 1 (TcpOffer (Inr 9)), [])"
    using bincode_ref.get_put_frame [OF a, of "[]"] by simp
  from list_frames.recv_get [OF this] list_frames.send_put [OF b, of "[]"]
  have request: "request_task bincode_ref list_write_all list_read_exact 1 (Inr (a, [])) (TcpConnect ''h'' 80) =
      Ok (Inr 9, [], b)"
    by (simp add: request_task_def list_write_all_def frame_from_def)
  have cloop: "tcp_forward_loop fifo_api list_ops 9 [Up 1]
      \<lparr>deadline = None, relconn_rx = [], relconn_tx = b, conn = ([1, 2], [])\<rparr> =
      Ok \<lparr>deadline = None, relconn_rx = [], relconn_tx = b @ u, conn = ([], [])\<rparr>"
    by (rule list_up_turn [OF _ u]) simp
  have dl: "check_deadline fifo_api (Some ?dl) = (False, Some ?dl)"
    by (simp add: check_deadline_def fifo_api_def fifo_try_recv_def bounded_def)
  have sloop: "tcp_forward_loop fifo_api list_ops 9 [Down]
      \<lparr>deadline = Some ?dl, relconn_rx = u, relconn_tx = a, conn = ([], [])\<rparr> =
      Ok \<lparr>deadline = Some ?dl, relconn_rx = [], relconn_tx = a, conn = ([], [1, 2])\<rparr>"
    using list_down_turn [OF u, of "Some ?dl" "[]" a "[]" "[]"]
    by (simp del: One_nat_def tcp_forward_loop.simps add: dl)
  have "prefix [1, 2 :: byte] [1, 2]"
    using proxied_connection_carries_bytes
      [OF list_forward.forwarding_axioms list_forward.forwarding_axioms refl, unfolded codec,
        OF b, of "[]" b "b @ u" u 1 ?dial False ?dl 9 "[]" 9 _ a a "[]" 9 "[]" fifo_api "[Up 1]" _ _
          fifo_api "[Down]" _ "[]" "[]", OF _ _ _ _ serve _ _ request cloop sloop]
    by (simp add: list_write_all_def)
  with b u request cloop sloop show ?thesis by auto
qed

end
